(* ===== verification/Prelude.thy ===== *)
theory Prelude
  imports Main "HOL-Library.Word" "HOL-Library.Multiset"
begin

text \<open>
  Shared vocabulary of the development: the C integer types as words, the kernel's
  \<open>Status\<close> codes, fixed arrays as lists updated by index, and the lemmas on words, arrays
  and intervals that several components use.
\<close>

unbundle bit_operations_syntax

section \<open>Machine types\<close>

type_synonym u8 = "8 word"
type_synonym u16 = "16 word"
type_synonym u32 = "32 word"
type_synonym u64 = "64 word"

text \<open>\<open>Status\<close> of \<open>kernel/include/uapi/status.h\<close>: the kernel's only error type.\<close>

datatype Status =
    STATUS_OK
  | STATUS_ERR_INVALID
  | STATUS_ERR_NOT_FOUND
  | STATUS_ERR_NO_MEMORY
  | STATUS_ERR_UNSUPPORTED

text \<open>
  A function that returns a \<open>Status\<close> and writes its results through pointers is a function
  into \<open>Status + 'a\<close>: \<open>Inl\<close> is an error return, which leaves every output and the state
  untouched unless the theory says otherwise, and \<open>Inr\<close> is \<open>STATUS_OK\<close> with the outputs.
\<close>

text \<open>A call that may \<open>panic\<close> (which does not return) yields the panic message or a value.\<close>

datatype 'a outcome = Panic string | Ret 'a

fun bindO :: "'a outcome \<Rightarrow> ('a \<Rightarrow> 'b outcome) \<Rightarrow> 'b outcome" where
  "bindO (Panic msg) f = Panic msg"
| "bindO (Ret x) f = f x"

lemma bindO_eq_Ret: "bindO x f = Ret y \<longleftrightarrow> (\<exists>z. x = Ret z \<and> f z = Ret y)"
  by (cases x) auto

section \<open>Automation collections\<close>

named_theorems unat_simps \<open>reading word arithmetic as natural numbers\<close>
named_theorems arr_simps \<open>element shifts inside fixed arrays\<close>

section \<open>Words read as naturals\<close>

lemma unat_lt_64: "unat (x :: u64) < 18446744073709551616"
  using unsigned_less [of x] by simp

lemma unat_lt_32: "unat (x :: u32) < 4294967296"
  using unsigned_less [of x] by simp

lemma unat_lt_16: "unat (x :: u16) < 65536"
  using unsigned_less [of x] by simp

lemma unat_lt_8: "unat (x :: u8) < 256"
  using unsigned_less [of x] by simp

lemma unat_inj [simp]: "unat (a :: 'a::len word) = unat b \<longleftrightarrow> a = b"
  by (simp add: word_unat_eq_iff)

lemma unat_of_nat_eq: "n < 2 ^ LENGTH('a) \<Longrightarrow> unat (of_nat n :: 'a::len word) = n"
  by (simp add: unsigned_of_nat take_bit_nat_eq_self)

lemma unat_add_nowrap [unat_simps]:
  fixes a b :: "'a::len word"
  assumes "unat a + unat b < 2 ^ LENGTH('a)"
  shows "unat (a + b) = unat a + unat b"
  using assms by (simp add: unat_word_ariths)

lemma unat_mult_nowrap [unat_simps]:
  fixes a b :: "'a::len word"
  assumes "unat a * unat b < 2 ^ LENGTH('a)"
  shows "unat (a * b) = unat a * unat b"
  using assms by (simp add: unat_word_ariths)

lemma unat_sub_le [unat_simps]:
  fixes a b :: "'a::len word"
  assumes "unat b \<le> unat a"
  shows "unat (a - b) = unat a - unat b"
  using assms by (simp add: unat_sub word_le_nat_alt)

lemma wrap_add_less_iff:
  fixes a b :: "'a::len word"
  shows "a + b < a \<longleftrightarrow> 2 ^ LENGTH('a) \<le> unat a + unat b"
proof (cases "unat a + unat b < 2 ^ LENGTH('a)")
  case True
  then show ?thesis by (simp add: word_less_nat_alt unat_add_nowrap)
next
  case False
  then have ge: "2 ^ LENGTH('a) \<le> unat a + unat b" by simp
  have "unat (a + b) = (unat a + unat b) mod 2 ^ LENGTH('a)"
    by (simp add: unat_word_ariths)
  also have "\<dots> = unat a + unat b - 2 ^ LENGTH('a)"
  proof -
    have "unat a + unat b - 2 ^ LENGTH('a) < 2 ^ LENGTH('a)"
      using unsigned_less [of a, where ?'a = nat] unsigned_less [of b, where ?'a = nat] ge by linarith
    then show ?thesis using ge by (simp only: le_mod_geq mod_less)
  qed
  finally have "unat (a + b) = unat a + unat b - 2 ^ LENGTH('a)" .
  moreover have "unat b < 2 ^ LENGTH('a)" by (rule unsigned_less)
  ultimately have "unat (a + b) < unat a" using ge by linarith
  then show ?thesis using ge by (simp add: word_less_nat_alt)
qed

lemma unat_ucast_32_64: "unat (ucast (x :: u32) :: u64) = unat x"
  using unat_lt_32 [of x] by (simp add: unsigned_ucast_eq take_bit_nat_eq_self)

lemma unat_ucast_8_32: "unat (ucast (x :: u8) :: u32) = unat x"
  using unat_lt_8 [of x] by (simp add: unsigned_ucast_eq take_bit_nat_eq_self)

lemma unat_mod_eq_0 [unat_simps]:
  fixes a b :: "'a::len word"
  shows "a mod b = 0 \<longleftrightarrow> unat a mod unat b = 0"
  by (metis unat_mod_distrib unsigned_0 unat_eq_zero)

section \<open>Fixed arrays\<close>

text \<open>
  A C array of fixed size is a list of that length; \<open>a[i] = v\<close> is \<open>a[i := v]\<close>. The two
  loops that close and open a gap in an array prefix of length \<open>n\<close> occur in several
  components:
  \<^verbatim>\<open>for (j = i; j + 1 < n; j++) a[j] = a[j + 1];\<close> and
  \<^verbatim>\<open>for (j = n; j > i; j--) a[j] = a[j - 1];\<close>
\<close>

definition arr_close :: "'a list \<Rightarrow> nat \<Rightarrow> nat \<Rightarrow> 'a list" where
  "arr_close a i n = fold (\<lambda>j b. b[j := b ! (j + 1)]) [i..<n - 1] a"

definition arr_open :: "'a list \<Rightarrow> nat \<Rightarrow> nat \<Rightarrow> 'a list" where
  "arr_open a i n = fold (\<lambda>j b. b[j := b ! (j - 1)]) (rev [i + 1..<n + 1]) a"

lemma fold_length_update [simp]:
  "length (fold (\<lambda>j b. b[f j := g j b]) js a) = length a"
  by (induction js arbitrary: a) auto

lemma length_arr_close [simp]: "length (arr_close a i n) = length a"
  by (simp add: arr_close_def)

lemma length_arr_open [simp]: "length (arr_open a i n) = length a"
  by (simp add: arr_open_def)

lemma fold_close_nth:
  "k < length a \<Longrightarrow> m < length a \<Longrightarrow>
   fold (\<lambda>j b. b[j := b ! (j + 1)]) [i..<m] a ! k
     = (if i \<le> k \<and> k < m then a ! (k + 1) else a ! k)"
proof (induction m)
  case 0
  then show ?case by simp
next
  case (Suc m)
  show ?case
  proof (cases "i \<le> m")
    case True
    then have "[i..<Suc m] = [i..<m] @ [m]" by simp
    moreover have "fold (\<lambda>j b. b[j := b ! (j + 1)]) [i..<m] a ! (m + 1) = a ! (m + 1)"
      using fold_length_update Suc.prems
    proof -
      have "\<And>js. (\<forall>j \<in> set js. j < m + 1) \<Longrightarrow>
              fold (\<lambda>j b. b[j := b ! (j + 1)]) js a ! (m + 1) = a ! (m + 1)"
      proof -
        fix js
        show "\<forall>j \<in> set js. j < m + 1 \<Longrightarrow>
              fold (\<lambda>j b. b[j := b ! (j + 1)]) js a ! (m + 1) = a ! (m + 1)"
          by (induction js arbitrary: a) auto
      qed
      then show ?thesis by simp
    qed
    ultimately show ?thesis
      using Suc True by (auto simp: nth_list_update less_Suc_eq)
  next
    case False
    then show ?thesis by auto
  qed
qed

lemma nth_arr_close [arr_simps]:
  assumes "n \<le> length a" "k < length a"
  shows "arr_close a i n ! k = (if i \<le> k \<and> k + 1 < n then a ! (k + 1) else a ! k)"
  using assms fold_close_nth [of k a "n - 1" i]
  by (cases n) (auto simp: arr_close_def)

lemma fold_open_nth:
  "k < length a \<Longrightarrow> n < length a \<Longrightarrow> i \<le> n \<Longrightarrow>
   fold (\<lambda>j b. b[j := b ! (j - 1)]) (rev [i + 1..<n + 1]) a ! k
     = (if i < k \<and> k \<le> n then a ! (k - 1) else a ! k)"
proof (induction n arbitrary: a)
  case 0
  then show ?case by simp
next
  case (Suc n)
  show ?case
  proof (cases "i \<le> n")
    case True
    let ?b = "a[Suc n := a ! n]"
    have "rev [i + 1..<Suc n + 1] = Suc n # rev [i + 1..<n + 1]"
      using True by simp
    then have "fold (\<lambda>j b. b[j := b ! (j - 1)]) (rev [i + 1..<Suc n + 1]) a ! k
        = fold (\<lambda>j b. b[j := b ! (j - 1)]) (rev [i + 1..<n + 1]) ?b ! k"
      by simp
    also have "\<dots> = (if i < k \<and> k \<le> n then ?b ! (k - 1) else ?b ! k)"
      using Suc.IH [of ?b] Suc.prems True by simp
    also have "\<dots> = (if i < k \<and> k \<le> Suc n then a ! (k - 1) else a ! k)"
      using Suc.prems True by (auto simp: nth_list_update le_Suc_eq)
    finally show ?thesis .
  next
    case False
    with Suc.prems show ?thesis by auto
  qed
qed

lemma nth_arr_open [arr_simps]:
  assumes "n < length a" "k < length a" "i \<le> n"
  shows "arr_open a i n ! k = (if i < k \<and> k \<le> n then a ! (k - 1) else a ! k)"
  using fold_open_nth [OF assms(2,1,3)] by (simp add: arr_open_def)

text \<open>On the used prefix, closing a gap deletes one element and opening one inserts it.\<close>

lemma take_arr_close [arr_simps]:
  assumes "n \<le> length a" "i < n"
  shows "take (n - Suc 0) (arr_close a i n) = take i (take n a) @ drop (Suc i) (take n a)"
proof (rule nth_equalityI)
  show "length (take (n - Suc 0) (arr_close a i n)) = length (take i (take n a) @ drop (Suc i) (take n a))"
    using assms by simp
  fix k assume "k < length (take (n - Suc 0) (arr_close a i n))"
  with assms show "take (n - Suc 0) (arr_close a i n) ! k = (take i (take n a) @ drop (Suc i) (take n a)) ! k"
    by (auto simp: nth_arr_close nth_append)
qed

lemma take_arr_open [arr_simps]:
  assumes "n < length a" "i \<le> n"
  shows "take (Suc n) ((arr_open a i n)[i := v]) = take i (take n a) @ v # drop i (take n a)"
proof (rule nth_equalityI)
  show "length (take (Suc n) ((arr_open a i n)[i := v])) = length (take i (take n a) @ v # drop i (take n a))"
    using assms by simp
  fix k assume "k < length (take (Suc n) ((arr_open a i n)[i := v]))"
  with assms show "take (Suc n) ((arr_open a i n)[i := v]) ! k = (take i (take n a) @ v # drop i (take n a)) ! k"
    by (cases "k < i"; cases "k = i")
       (auto simp: nth_arr_open nth_append nth_list_update nth_Cons' not_less)
qed

lemma take_list_update_eq [arr_simps]:
  "i < n \<Longrightarrow> n \<le> length a \<Longrightarrow> take n (a[i := v]) = take i (take n a) @ v # drop (Suc i) (take n a)"
  using upd_conv_take_nth_drop [of i "take n a" v] by (simp add: take_update_swap)

section \<open>Searching\<close>

lemma find_Some_in: "find P xs = Some x \<Longrightarrow> x \<in> set xs \<and> P x"
  by (auto simp: find_Some_iff)

end
