(* ===== verification/List_Links.thy ===== *)
theory List_Links
  imports Prelude
begin

text \<open>
  The intrusive circular list of \<open>kernel/include/list.h\<close>. The store gives every node its
  \<open>next\<close> and \<open>prev\<close> pointer; a list head is a node like any other. The operations are the
  pointer assignments of the source in their order (the release build: \<open>listRemove\<close> leaves the
  stale links of the removed node, which only \<open>KERNEL_DEBUG\<close> overwrites). A family of heads
  and the lists they root is described by \<open>rings\<close>, and each operation acts on one list of the
  family and leaves the others alone.
\<close>

section \<open>Store and operations\<close>

record 'n ListNode =
  nxt :: "'n \<Rightarrow> 'n"
  prv :: "'n \<Rightarrow> 'n"

definition setNext :: "'n \<Rightarrow> 'n \<Rightarrow> 'n ListNode \<Rightarrow> 'n ListNode" where
  "setNext n v s = s\<lparr>nxt := (nxt s)(n := v)\<rparr>"

definition setPrev :: "'n \<Rightarrow> 'n \<Rightarrow> 'n ListNode \<Rightarrow> 'n ListNode" where
  "setPrev n v s = s\<lparr>prv := (prv s)(n := v)\<rparr>"

definition listInit :: "'n \<Rightarrow> 'n ListNode \<Rightarrow> 'n ListNode" where
  "listInit node s = setPrev node node (setNext node node s)"

definition listEmpty :: "'n \<Rightarrow> 'n ListNode \<Rightarrow> bool" where
  "listEmpty h s \<longleftrightarrow> nxt s h = h"

definition listPushHead :: "'n \<Rightarrow> 'n \<Rightarrow> 'n ListNode \<Rightarrow> 'n ListNode" where
  "listPushHead h node s =
     (let s1 = setNext node (nxt s h) s;
          s2 = setPrev node h s1;
          s3 = setPrev (nxt s2 h) node s2
      in setNext h node s3)"

definition listPushTail :: "'n \<Rightarrow> 'n \<Rightarrow> 'n ListNode \<Rightarrow> 'n ListNode" where
  "listPushTail h node s =
     (let s1 = setPrev node (prv s h) s;
          s2 = setNext node h s1;
          s3 = setNext (prv s2 h) node s2
      in setPrev h node s3)"

definition listRemove :: "'n \<Rightarrow> 'n ListNode \<Rightarrow> 'n ListNode" where
  "listRemove node s =
     (let s1 = setNext (prv s node) (nxt s node) s
      in setPrev (nxt s1 node) (prv s1 node) s1)"

definition listPopHead :: "'n \<Rightarrow> 'n ListNode \<Rightarrow> 'n option \<times> 'n ListNode" where
  "listPopHead h s =
     (if listEmpty h s then (None, s) else let node = nxt s h in (Some node, listRemove node s))"

definition listPopTail :: "'n \<Rightarrow> 'n ListNode \<Rightarrow> 'n option \<times> 'n ListNode" where
  "listPopTail h s =
     (if listEmpty h s then (None, s) else let node = prv s h in (Some node, listRemove node s))"

section \<open>Segments and rings\<close>

text \<open>\<open>seg s a xs b\<close>: from \<open>a\<close>, following \<open>next\<close> through \<open>xs\<close> leads to \<open>b\<close>, and \<open>prev\<close> back.\<close>

fun seg :: "'n ListNode \<Rightarrow> 'n \<Rightarrow> 'n list \<Rightarrow> 'n \<Rightarrow> bool" where
  "seg s a [] b \<longleftrightarrow> nxt s a = b \<and> prv s b = a"
| "seg s a (x # xs) b \<longleftrightarrow> nxt s a = x \<and> prv s x = a \<and> seg s x xs b"

lemma seg_append: "seg s a (xs @ x # ys) b \<longleftrightarrow> seg s a xs x \<and> seg s x ys b"
  by (induction xs arbitrary: a) auto

lemma seg_frame:
  assumes "seg s a xs b" "\<And>n. n \<in> insert a (set xs) \<Longrightarrow> nxt s' n = nxt s n"
    "\<And>n. n \<in> insert b (set xs) \<Longrightarrow> prv s' n = prv s n"
  shows "seg s' a xs b"
  using assms by (induction xs arbitrary: a) auto

lemma seg_first: "seg s a xs b \<Longrightarrow> nxt s a = (if xs = [] then b else hd xs)"
  by (cases xs) auto

lemma seg_last: "seg s a xs b \<Longrightarrow> prv s b = (if xs = [] then a else last xs)"
  by (induction xs arbitrary: a) (auto split: if_splits)

definition ring :: "'n ListNode \<Rightarrow> 'n \<Rightarrow> 'n list \<Rightarrow> bool" where
  "ring s h xs \<longleftrightarrow> distinct (h # xs) \<and> seg s h xs h"

definition ring_nodes :: "'n \<Rightarrow> 'n list \<Rightarrow> 'n set" where
  "ring_nodes h xs = insert h (set xs)"

lemma ring_frame:
  assumes "ring s h xs" "\<And>n. n \<in> ring_nodes h xs \<Longrightarrow> nxt s' n = nxt s n \<and> prv s' n = prv s n"
  shows "ring s' h xs"
proof -
  have sg: "seg s h xs h" and d: "distinct (h # xs)" using assms(1) by (auto simp: ring_def)
  have "seg s' h xs h" by (rule seg_frame [OF sg]) (use assms(2) in \<open>auto simp: ring_nodes_def\<close>)
  then show ?thesis using d by (simp add: ring_def)
qed

lemma ring_next: "ring s h xs \<Longrightarrow> nxt s h = (if xs = [] then h else hd xs)"
  unfolding ring_def by (elim conjE) (rule seg_first)

lemma ring_prev: "ring s h xs \<Longrightarrow> prv s h = (if xs = [] then h else last xs)"
  unfolding ring_def by (elim conjE) (rule seg_last)

lemma ring_next_in: "ring s h xs \<Longrightarrow> nxt s h \<in> ring_nodes h xs"
  by (drule ring_next) (simp add: ring_nodes_def)

lemma ring_prev_in: "ring s h xs \<Longrightarrow> prv s h \<in> ring_nodes h xs"
  by (drule ring_prev) (simp add: ring_nodes_def)

lemma ring_empty_iff: "ring s h xs \<Longrightarrow> listEmpty h s \<longleftrightarrow> xs = []"
  by (cases xs) (auto simp: ring_def listEmpty_def)

lemma ring_init: "ring (listInit h s) h []"
  by (simp add: ring_def listInit_def setNext_def setPrev_def)

lemmas link_defs = listPushHead_def listPushTail_def listRemove_def setNext_def setPrev_def Let_def

lemma ring_push_head:
  assumes r: "ring s h xs" and n: "n \<notin> ring_nodes h xs"
  shows "ring (listPushHead h n s) h (n # xs)"
proof -
  have d: "distinct (h # xs)" and sg: "seg s h xs h" using r by (auto simp: ring_def)
  have "seg (listPushHead h n s) n xs h"
  proof (cases xs)
    case Nil
    then show ?thesis using n sg by (auto simp: link_defs ring_nodes_def)
  next
    case (Cons x ys)
    then have sx: "seg s x ys h" and "nxt s h = x" using sg by auto
    have "seg (listPushHead h n s) x ys h"
      by (rule seg_frame [OF sx]) (use d n Cons \<open>nxt s h = x\<close> in \<open>auto simp: link_defs ring_nodes_def\<close>)
    then show ?thesis using Cons d n \<open>nxt s h = x\<close> by (auto simp: link_defs ring_nodes_def)
  qed
  then show ?thesis using d n sg
    by (auto simp: ring_def ring_nodes_def) (auto simp: link_defs seg_first split: if_splits)
qed

lemma ring_push_tail:
  assumes r: "ring s h xs" and n: "n \<notin> ring_nodes h xs"
  shows "ring (listPushTail h n s) h (xs @ [n])"
proof -
  have d: "distinct (h # xs)" and sg: "seg s h xs h" using r by (auto simp: ring_def)
  have pl: "prv s h = (if xs = [] then h else last xs)" by (rule seg_last [OF sg])
  have "seg (listPushTail h n s) h xs n"
  proof (cases xs rule: rev_cases)
    case Nil
    then show ?thesis using n pl by (auto simp: link_defs ring_nodes_def)
  next
    case (snoc ys x)
    then have sx: "seg s h ys x" using sg by (auto simp: seg_append)
    have "seg (listPushTail h n s) h ys x"
      by (rule seg_frame [OF sx]) (use d n snoc pl in \<open>auto simp: link_defs ring_nodes_def\<close>)
    moreover have "seg (listPushTail h n s) x [] n"
      using snoc d n pl by (auto simp: link_defs ring_nodes_def)
    ultimately show ?thesis using snoc by (auto simp: seg_append)
  qed
  moreover have "seg (listPushTail h n s) n [] h"
    using n pl by (auto simp: link_defs ring_nodes_def)
  ultimately show ?thesis using d n by (auto simp: ring_def ring_nodes_def seg_append)
qed

text \<open>Removing a node joins the segments around it.\<close>

lemma ring_remove:
  assumes r: "ring s h (xs @ n # ys)"
  shows "ring (listRemove n s) h (xs @ ys)"
    and "\<And>m. m \<notin> ring_nodes h (xs @ ys) \<Longrightarrow> nxt (listRemove n s) m = nxt s m \<and> prv (listRemove n s) m = prv s m"
proof -
  have d: "distinct (h # xs @ n # ys)" and l: "seg s h xs n" and rr: "seg s n ys h"
    using r by (auto simp: ring_def seg_append)
  define a b where "a = (if xs = [] then h else last xs)" and "b = (if ys = [] then h else hd ys)"
  have pn: "prv s n = a" "nxt s n = b" using seg_last [OF l] seg_first [OF rr] by (auto simp: a_def b_def)
  have ab: "a \<in> ring_nodes h xs" "b \<in> ring_nodes h ys" "a \<noteq> n" "b \<noteq> n"
    using d by (auto simp: a_def b_def ring_nodes_def)
  have eq: "listRemove n s = setPrev b a (setNext a b s)"
    using pn ab by (simp add: link_defs)
  show "\<And>m. m \<notin> ring_nodes h (xs @ ys) \<Longrightarrow> nxt (listRemove n s) m = nxt s m \<and> prv (listRemove n s) m = prv s m"
    using ab unfolding eq by (auto simp: link_defs ring_nodes_def)
  have "seg (setPrev b a (setNext a b s)) h (xs @ ys) h"
  proof (cases xs rule: rev_cases)
    case Nil
    show ?thesis
    proof (cases ys)
      case Nil
      then show ?thesis using \<open>xs = []\<close> by (auto simp: link_defs a_def b_def)
    next
      case (Cons y zs)
      have sy: "seg s y zs h" using rr Cons by simp
      have "seg (setPrev b a (setNext a b s)) y zs h"
        by (rule seg_frame [OF sy]) (use d Cons \<open>xs = []\<close> in \<open>auto simp: link_defs a_def b_def\<close>)
      then show ?thesis using Cons \<open>xs = []\<close> d by (auto simp: link_defs a_def b_def)
    qed
  next
    case (snoc ws x)
    have lx: "seg s h ws x" using l snoc by (simp add: seg_append)
    have bx: "b \<notin> insert x (set ws)" using d snoc by (cases ys) (auto simp: b_def)
    have L: "seg (setPrev b a (setNext a b s)) h ws x"
      by (rule seg_frame [OF lx]) (use d snoc bx in \<open>auto simp: link_defs a_def\<close>)
    show ?thesis
    proof (cases ys)
      case Nil
      then show ?thesis using L snoc d by (auto simp: seg_append) (auto simp: link_defs a_def b_def)
    next
      case (Cons y zs)
      have sy: "seg s y zs h" using rr Cons by simp
      have "seg (setPrev b a (setNext a b s)) y zs h"
        by (rule seg_frame [OF sy]) (use d Cons snoc in \<open>auto simp: link_defs a_def b_def\<close>)
      then show ?thesis using L snoc Cons d by (auto simp: seg_append) (auto simp: link_defs a_def b_def)
    qed
  qed
  then show "ring (listRemove n s) h (xs @ ys)" using d unfolding eq ring_def by auto
qed

section \<open>Families of lists in one store\<close>

definition rings :: "'n ListNode \<Rightarrow> 'n set \<Rightarrow> ('n \<Rightarrow> 'n list) \<Rightarrow> bool" where
  "rings s H L \<longleftrightarrow> (\<forall>h \<in> H. ring s h (L h))
     \<and> (\<forall>h \<in> H. \<forall>k \<in> H. h \<noteq> k \<longrightarrow> ring_nodes h (L h) \<inter> ring_nodes k (L k) = {})"

definition linked :: "'n set \<Rightarrow> ('n \<Rightarrow> 'n list) \<Rightarrow> 'n set" where
  "linked H L = (\<Union>h \<in> H. ring_nodes h (L h))"

lemma linked_upd: "h \<in> H \<Longrightarrow> linked H (L(h := xs)) = ring_nodes h xs \<union> linked (H - {h}) L"
  by (fastforce simp: linked_def split: if_splits)

lemma rings_update:
  assumes r: "rings s H L" and h: "h \<in> H" and r': "ring s' h xs"
    and new: "ring_nodes h xs \<subseteq> ring_nodes h (L h) \<union> N" and N: "N \<inter> linked H L = {}"
    and frame: "\<And>m. m \<notin> ring_nodes h (L h) \<union> N \<Longrightarrow> nxt s' m = nxt s m \<and> prv s' m = prv s m"
  shows "rings s' H (L(h := xs))"
proof -
  have dis: "ring_nodes k (L k) \<inter> (ring_nodes h (L h) \<union> N) = {}" if "k \<in> H" "k \<noteq> h" for k
  proof -
    have "ring_nodes k (L k) \<subseteq> linked H L" using that by (auto simp: linked_def)
    then show ?thesis using r h that N unfolding rings_def by blast
  qed
  have "ring s' k (L k)" if "k \<in> H" "k \<noteq> h" for k
  proof (rule ring_frame)
    show "ring s k (L k)" using r that by (simp add: rings_def)
    show "nxt s' n = nxt s n \<and> prv s' n = prv s n" if "n \<in> ring_nodes k (L k)" for n
      using dis [OF \<open>k \<in> H\<close> \<open>k \<noteq> h\<close>] that by (intro frame) blast
  qed
  moreover have "ring_nodes k (L k) \<inter> ring_nodes h xs = {}" if "k \<in> H" "k \<noteq> h" for k
    using dis [OF that] new by blast
  ultimately show ?thesis
    using r r' unfolding rings_def by (auto simp: Int_commute)
qed

lemma rings_ring: "rings s H L \<Longrightarrow> h \<in> H \<Longrightarrow> ring s h (L h)"
  by (simp add: rings_def)

lemma rings_push_head:
  assumes r: "rings s H L" and h: "h \<in> H" and n: "n \<notin> linked H L"
  shows "rings (listPushHead h n s) H (L(h := n # L h))"
proof (rule rings_update [OF r h, of _ _ "{n}"])
  have nn: "n \<notin> ring_nodes h (L h)" using n h by (auto simp: linked_def)
  show "ring (listPushHead h n s) h (n # L h)" by (rule ring_push_head [OF rings_ring [OF r h] nn])
  fix m assume m: "m \<notin> ring_nodes h (L h) \<union> {n}"
  have "nxt s h \<in> ring_nodes h (L h)"
    using ring_next_in [OF rings_ring [OF r h]] .
  then have "m \<noteq> nxt s h" "m \<noteq> h" "m \<noteq> n" "h \<noteq> n" using m nn by (auto simp: ring_nodes_def)
  then show "nxt (listPushHead h n s) m = nxt s m \<and> prv (listPushHead h n s) m = prv s m"
    by (simp add: link_defs)
qed (use n in \<open>auto simp: ring_nodes_def\<close>)

lemma rings_push_tail:
  assumes r: "rings s H L" and h: "h \<in> H" and n: "n \<notin> linked H L"
  shows "rings (listPushTail h n s) H (L(h := L h @ [n]))"
proof (rule rings_update [OF r h, of _ _ "{n}"])
  have nn: "n \<notin> ring_nodes h (L h)" using n h by (auto simp: linked_def)
  show "ring (listPushTail h n s) h (L h @ [n])" by (rule ring_push_tail [OF rings_ring [OF r h] nn])
  fix m assume m: "m \<notin> ring_nodes h (L h) \<union> {n}"
  have "prv s h \<in> ring_nodes h (L h)"
    using ring_prev_in [OF rings_ring [OF r h]] .
  then have "m \<noteq> prv s h" "m \<noteq> h" "m \<noteq> n" "h \<noteq> n" using m nn by (auto simp: ring_nodes_def)
  then show "nxt (listPushTail h n s) m = nxt s m \<and> prv (listPushTail h n s) m = prv s m"
    by (simp add: link_defs)
qed (use n in \<open>auto simp: ring_nodes_def\<close>)

lemma rings_remove:
  assumes r: "rings s H L" and h: "h \<in> H" and n: "n \<in> set (L h)"
  shows "rings (listRemove n s) H (L(h := remove1 n (L h)))"
proof -
  obtain xs ys where L: "L h = xs @ n # ys" "n \<notin> set xs" using split_list_first [OF n] by blast
  then have rm: "remove1 n (L h) = xs @ ys" by (simp add: remove1_append)
  have rg: "ring s h (xs @ n # ys)" using rings_ring [OF r h] L by simp
  show ?thesis unfolding rm
  proof (rule rings_update [OF r h ring_remove(1) [OF rg], of "{}"])
    show "ring_nodes h (xs @ ys) \<subseteq> ring_nodes h (L h) \<union> {}" using L by (auto simp: ring_nodes_def)
    fix m assume "m \<notin> ring_nodes h (L h) \<union> {}"
    then show "nxt (listRemove n s) m = nxt s m \<and> prv (listRemove n s) m = prv s m"
      using ring_remove(2) [OF rg] L by (auto simp: ring_nodes_def)
  qed simp
qed

lemma rings_pop_head:
  assumes r: "rings s H L" and h: "h \<in> H"
  shows "listPopHead h s = (if L h = [] then (None, s) else (Some (hd (L h)), listRemove (hd (L h)) s))"
    and "L h \<noteq> [] \<Longrightarrow> rings (listRemove (hd (L h)) s) H (L(h := tl (L h)))"
proof -
  have rg: "ring s h (L h)" by (rule rings_ring [OF r h])
  then have "nxt s h = (if L h = [] then h else hd (L h))" by (rule ring_next)
  then show "listPopHead h s = (if L h = [] then (None, s) else (Some (hd (L h)), listRemove (hd (L h)) s))"
    using ring_empty_iff [OF rg] by (simp add: listPopHead_def Let_def)
  assume ne: "L h \<noteq> []"
  then have "remove1 (hd (L h)) (L h) = tl (L h)" by (cases "L h") auto
  then show "rings (listRemove (hd (L h)) s) H (L(h := tl (L h)))"
    using rings_remove [OF r h, of "hd (L h)"] ne by simp
qed

lemma remove1_last: "distinct xs \<Longrightarrow> xs \<noteq> [] \<Longrightarrow> remove1 (last xs) xs = butlast xs"
  by (induction xs) auto

lemma rings_pop_tail:
  assumes r: "rings s H L" and h: "h \<in> H"
  shows "listPopTail h s = (if L h = [] then (None, s) else (Some (last (L h)), listRemove (last (L h)) s))"
    and "L h \<noteq> [] \<Longrightarrow> rings (listRemove (last (L h)) s) H (L(h := butlast (L h)))"
proof -
  have rg: "ring s h (L h)" by (rule rings_ring [OF r h])
  then have "prv s h = (if L h = [] then h else last (L h))" by (rule ring_prev)
  then show "listPopTail h s = (if L h = [] then (None, s) else (Some (last (L h)), listRemove (last (L h)) s))"
    using ring_empty_iff [OF rg] by (simp add: listPopTail_def Let_def)
  assume ne: "L h \<noteq> []"
  then have "remove1 (last (L h)) (L h) = butlast (L h)"
    using rg by (intro remove1_last) (auto simp: ring_def)
  then show "rings (listRemove (last (L h)) s) H (L(h := butlast (L h)))"
    using rings_remove [OF r h, of "last (L h)"] ne by simp
qed

lemma rings_init:
  assumes r: "rings s H L" and h: "h \<notin> linked H L"
  shows "rings (listInit h s) (insert h H) (L(h := []))"
proof -
  have hH: "h \<notin> H" using h by (auto simp: linked_def ring_nodes_def)
  have k: "h \<notin> ring_nodes k (L k)" if "k \<in> H" for k using h that by (auto simp: linked_def)
  have "ring (listInit h s) k (L k)" if "k \<in> H" for k
  proof (rule ring_frame)
    show "ring s k (L k)" using r that by (simp add: rings_def)
    show "nxt (listInit h s) n = nxt s n \<and> prv (listInit h s) n = prv s n" if "n \<in> ring_nodes k (L k)" for n
      using k [OF \<open>k \<in> H\<close>] that by (auto simp: listInit_def setNext_def setPrev_def)
  qed
  then show ?thesis
    using r hH k ring_init [of h s] unfolding rings_def by (auto simp: ring_nodes_def)
qed

section \<open>Properties\<close>

text \<open>
  C20: The pointer operations refine operations on plain lists. For any family of separate rings, with
  contents \<open>L\<close>, and any of its heads: the emptiness test is exact; pushing an unlinked node at the
  head or tail adds it at the front or back; removing a linked node removes it from that list; and
  popping returns the first or last element and drops it, or reports nothing exactly when the list
  is empty. Every other list of the family keeps its contents.
\<close>

theorem list_ops_refine:
  assumes "rings s H L" and "h \<in> H" and "n \<notin> linked H L"
  shows "(listEmpty h s \<longleftrightarrow> L h = [])
     \<and> rings (listPushHead h n s) H (L(h := n # L h)) \<and> rings (listPushTail h n s) H (L(h := L h @ [n]))
     \<and> (\<forall>x \<in> set (L h). rings (listRemove x s) H (L(h := remove1 x (L h))))
     \<and> (case listPopHead h s of (None, s') \<Rightarrow> L h = [] \<and> s' = s
          | (Some x, s') \<Rightarrow> \<exists>xs. L h = x # xs \<and> rings s' H (L(h := xs)))
     \<and> (case listPopTail h s of (None, s') \<Rightarrow> L h = [] \<and> s' = s
          | (Some x, s') \<Rightarrow> \<exists>xs. L h = xs @ [x] \<and> rings s' H (L(h := xs)))"
proof -
  note r = assms(1,2)
  have "case listPopHead h s of (None, s') \<Rightarrow> L h = [] \<and> s' = s | (Some x, s') \<Rightarrow> \<exists>xs. L h = x # xs \<and> rings s' H (L(h := xs))"
    using rings_pop_head [OF r] by (cases "L h") auto
  moreover have "case listPopTail h s of (None, s') \<Rightarrow> L h = [] \<and> s' = s | (Some x, s') \<Rightarrow> \<exists>xs. L h = xs @ [x] \<and> rings s' H (L(h := xs))"
    using rings_pop_tail [OF r] by (cases "L h" rule: rev_cases) auto
  ultimately show ?thesis
    using rings_push_head [OF assms] rings_push_tail [OF assms] rings_remove [OF r] ring_empty_iff [OF rings_ring [OF r]]
    by blast
qed

theorem list_ops_refine_witness:
  "listPopTail (0 :: nat) (listPushTail 0 2 (listPushHead 0 1 (listInit 0 \<lparr>nxt = id, prv = id\<rparr>)))
     = (Some 2, listRemove 2 (listPushTail 0 2 (listPushHead 0 1 (listInit 0 \<lparr>nxt = id, prv = id\<rparr>))))
   \<and> rings (listPushTail (0 :: nat) 2 (listPushHead 0 1 (listInit 0 \<lparr>nxt = id, prv = id\<rparr>))) {0} ((\<lambda>_. [])(0 := [1, 2]))"
proof -
  let ?s0 = "listInit (0 :: nat) \<lparr>nxt = id, prv = id\<rparr>"
  have r0: "rings ?s0 {0} ((\<lambda>_. [])(0 := []))" using ring_init [of 0] by (simp add: rings_def)
  have r1: "rings (listPushHead 0 1 ?s0) {0} ((\<lambda>_. [])(0 := [1]))"
    using list_ops_refine [OF r0, of 0 1] by (simp add: linked_def ring_nodes_def)
  then have r2: "rings (listPushTail 0 2 (listPushHead 0 1 ?s0)) {0} ((\<lambda>_. [])(0 := [1, 2]))"
    using list_ops_refine [OF r1, of 0 2] by (simp add: linked_def ring_nodes_def)
  then show ?thesis using rings_pop_tail(1) [OF r2, of 0] by simp
qed

end
