(* ===== verification/Page.thy ===== *)
theory Page
  imports List_Links
begin

text \<open>
  The page array of \<open>kernel/include/page.h\<close>, the zones of \<open>kernel/mm/pmm-internal.h\<close> and the
  per-CPU cache heads of \<open>kernel/mm/pmm.c\<close>, as one record of memory: a \<open>Page\<close> for every page
  frame number, one store of list links in which the zone free lists, the cache lists and the
  \<open>lru\<close> members of all pages live, the zones, and the cache counters. Page frame numbers are
  naturals (the managed ones are below \<open>2 ^ 52\<close>), \<open>order\<close> is a natural that the guards keep
  at most \<open>PMM_MAX_ORDER\<close>, and the page counters are naturals.

  The second half describes how heads of blocks tile the frames: \<open>tiling\<close>, the frames that belong
  to no block (\<open>loose\<close>), and how making or dissolving one head changes them.
\<close>

section \<open>Data\<close>

abbreviation PMM_MAX_ORDER :: nat where "PMM_MAX_ORDER \<equiv> 10"
abbreviation PMM_ORDER_COUNT :: nat where "PMM_ORDER_COUNT \<equiv> 11"

definition VM_PAGE_ARRAY_BASE :: u64 where "VM_PAGE_ARRAY_BASE = 0xFFFFE00000000000"

text \<open>The \<open>state\<close> byte; \<open>PAGE_STATE_OTHER\<close> is any value outside the enumeration.\<close>

datatype PageState =
    PAGE_STATE_RESERVED
  | PAGE_STATE_TAIL
  | PAGE_STATE_BUDDY
  | PAGE_STATE_PCP
  | PAGE_STATE_ALLOCATED
  | PAGE_STATE_OTHER u8

record Page =
  state :: PageState
  order :: nat
  flags :: u16
  reserved0 :: u32
  refcount :: int
  mapcount :: int
  object :: u64
  objectIndex :: u64
  privateWord :: u64
  reserved1 :: u64

definition PAGE_F_SLAB :: u16 where "PAGE_F_SLAB = 2"
definition PAGE_F_VMALLOC :: u16 where "PAGE_F_VMALLOC = 4"
definition PAGE_F_OWNER_MASK :: u16 where "PAGE_F_OWNER_MASK = PAGE_F_SLAB OR PAGE_F_VMALLOC"

text \<open>Pointers to pages are addresses in the page array.\<close>

definition pageFromPfn :: "nat \<Rightarrow> u64" where
  "pageFromPfn pfn = VM_PAGE_ARRAY_BASE + of_nat pfn * 64"

definition pageToPfn :: "u64 \<Rightarrow> nat" where
  "pageToPfn page = unat (page - VM_PAGE_ARRAY_BASE) div 64"

datatype PmmZoneId = PMM_ZONE_DMA32 | PMM_ZONE_NORMAL

abbreviation PMM_ZONE_DMA32_END_PFN :: nat where "PMM_ZONE_DMA32_END_PFN \<equiv> 1048576"

definition pmmZoneOfPfn :: "nat \<Rightarrow> PmmZoneId" where
  "pmmZoneOfPfn pfn = (if pfn < PMM_ZONE_DMA32_END_PFN then PMM_ZONE_DMA32 else PMM_ZONE_NORMAL)"

text \<open>The list nodes: the free-list heads of the zones, the cache heads, and \<open>Page.lru\<close>.\<close>

datatype node = FreeHead PmmZoneId nat | PcpHead PmmZoneId | Lru nat

record PmmZone =
  freeBlocks :: "nat \<Rightarrow> nat"
  freePages :: nat
  managedPages :: nat
  startPfn :: nat
  endPfn :: nat
  name :: string

record Mem =
  pages :: "nat \<Rightarrow> Page"
  links :: "node ListNode"
  zones :: "PmmZoneId \<Rightarrow> PmmZone"
  pcpCount :: "PmmZoneId \<Rightarrow> nat"

definition setPage :: "nat \<Rightarrow> (Page \<Rightarrow> Page) \<Rightarrow> Mem \<Rightarrow> Mem" where
  "setPage p f m = m\<lparr>pages := (pages m)(p := f (pages m p))\<rparr>"

definition setZone :: "PmmZoneId \<Rightarrow> (PmmZone \<Rightarrow> PmmZone) \<Rightarrow> Mem \<Rightarrow> Mem" where
  "setZone z f m = m\<lparr>zones := (zones m)(z := f (zones m z))\<rparr>"

definition setLinks :: "(node ListNode \<Rightarrow> node ListNode) \<Rightarrow> Mem \<Rightarrow> Mem" where
  "setLinks f m = m\<lparr>links := f (links m)\<rparr>"

definition setPcpCount :: "PmmZoneId \<Rightarrow> nat \<Rightarrow> Mem \<Rightarrow> Mem" where
  "setPcpCount z c m = m\<lparr>pcpCount := (pcpCount m)(z := c)\<rparr>"

definition setFreeBlocks :: "nat \<Rightarrow> nat \<Rightarrow> PmmZone \<Rightarrow> PmmZone" where
  "setFreeBlocks k c zn = zn\<lparr>freeBlocks := (freeBlocks zn)(k := c)\<rparr>"

lemmas set_defs = setPage_def setZone_def setLinks_def setPcpCount_def setFreeBlocks_def

section \<open>Blocks and buddies\<close>

definition blk :: "nat \<Rightarrow> nat \<Rightarrow> nat set" where
  "blk p k = {p..<p + 2 ^ k}"

lemma blk_finite [simp]: "finite (blk p k)" and blk_card [simp]: "card (blk p k) = 2 ^ k"
  and blk_self [simp]: "p \<in> blk p k"
  by (auto simp: blk_def)

lemma blk_0 [simp]: "blk p 0 = {p}"
  by (auto simp: blk_def)

lemma blk_mono:
  assumes "j \<le> k"
  shows "blk p j \<subseteq> blk p k"
proof -
  have "(2::nat) ^ j \<le> 2 ^ k" using assms by simp
  then show ?thesis unfolding blk_def by (intro ivl_subset [THEN iffD2]) linarith
qed

lemma blk_split: "blk p (Suc k) = blk p k \<union> blk (p + 2 ^ k) k"
  by (auto simp: blk_def)

lemma blk_split_disjoint: "blk p k \<inter> blk (p + 2 ^ k) k = {}"
  by (auto simp: blk_def)

text \<open>The buddy of an aligned block is the other half of the enclosing block of the next order.\<close>

lemma buddy_even:
  assumes "(p::nat) = 2 ^ k * (2 * c)"
  shows "p XOR 2 ^ k = p + 2 ^ k" "unset_bit k p = p" "(p + 2 ^ k) XOR 2 ^ k = p" "unset_bit k (p + 2 ^ k) = p"
proof -
  have nb: "\<not> bit p k" using assms by (simp add: bit_iff_odd)
  have o: "p OR 2 ^ k = p + 2 ^ k"
    using nb by (subst disjunctive_add_eq_or) (auto intro!: bit_eqI simp: bit_simps)
  have x: "p XOR 2 ^ k = p OR 2 ^ k"
    using nb by (auto intro!: bit_eqI simp: bit_simps)
  show "p XOR 2 ^ k = p + 2 ^ k" using x o by simp
  show "unset_bit k p = p" using nb by (auto intro!: bit_eqI simp: bit_simps)
  show "(p + 2 ^ k) XOR 2 ^ k = p" unfolding o [symmetric] using nb by (auto intro!: bit_eqI simp: bit_simps)
  show "unset_bit k (p + 2 ^ k) = p" unfolding o [symmetric] using nb by (auto intro!: bit_eqI simp: bit_simps)
qed

lemma buddy_cases:
  assumes "2 ^ k dvd (p::nat)"
  obtains c where "p XOR 2 ^ k = p + 2 ^ k" "unset_bit k p = p" "p = 2 ^ Suc k * c"
    | c where "(p XOR 2 ^ k) + 2 ^ k = p" "unset_bit k p = p XOR 2 ^ k" "p XOR 2 ^ k = 2 ^ Suc k * c"
proof -
  obtain d where d: "p = 2 ^ k * d" using assms by blast
  show thesis
  proof (cases "even d")
    case True
    then obtain c where c: "d = 2 * c" by blast
    show thesis by (rule that(1) [of c]) (use buddy_even [of p k c] d c in auto)
  next
    case False
    then obtain c where c: "d = 2 * c + 1" using oddE by blast
    define q where "q = 2 ^ k * (2 * c)"
    have p: "p = q + 2 ^ k" using d c q_def by (simp add: algebra_simps)
    show thesis
      by (rule that(2) [of c]) (use buddy_even [of q k c] p q_def in auto)
  qed
qed

lemma buddy_merge:
  assumes "2 ^ k dvd (p::nat)"
  shows "blk (unset_bit k p) (Suc k) = blk p k \<union> blk (p XOR 2 ^ k) k"
    and "2 ^ Suc k dvd unset_bit k p" and "2 ^ k dvd p XOR 2 ^ k" and "p XOR 2 ^ k \<noteq> p"
    and "(p XOR 2 ^ k) div 2 ^ Suc k = p div 2 ^ Suc k"
proof -
  show "blk (unset_bit k p) (Suc k) = blk p k \<union> blk (p XOR 2 ^ k) k"
  proof (rule buddy_cases [OF assms])
    fix c assume "(p XOR 2 ^ k) + 2 ^ k = p" "unset_bit k p = p XOR 2 ^ k"
    then show ?thesis by (metis blk_split Un_commute)
  qed (simp add: blk_split)
  show "2 ^ Suc k dvd unset_bit k p"
    by (rule buddy_cases [OF assms]) (metis dvd_triv_left)+
  show "2 ^ k dvd p XOR 2 ^ k"
    using assms by (rule buddy_cases) (simp_all add: assms)
  show "p XOR 2 ^ k \<noteq> p"
    by (rule buddy_cases [OF assms]) auto
  show "(p XOR 2 ^ k) div 2 ^ Suc k = p div 2 ^ Suc k"
  proof (rule buddy_cases [OF assms])
    fix c assume "p XOR 2 ^ k = p + 2 ^ k" "p = 2 ^ Suc k * c"
    then show ?thesis by (simp add: div_add1_eq)
  next
    fix c assume a: "(p XOR 2 ^ k) + 2 ^ k = p" and b: "p XOR 2 ^ k = 2 ^ Suc k * c"
    have "p = 2 ^ Suc k * c + 2 ^ k" using a b by simp
    then show ?thesis unfolding b by simp
  qed
qed

section \<open>Tilings\<close>

definition is_head :: "PageState \<Rightarrow> bool" where
  "is_head s \<longleftrightarrow> s = PAGE_STATE_BUDDY \<or> s = PAGE_STATE_PCP \<or> s = PAGE_STATE_ALLOCATED"

lemma is_head_simps [simp]:
  "is_head PAGE_STATE_BUDDY" "is_head PAGE_STATE_PCP" "is_head PAGE_STATE_ALLOCATED"
  "\<not> is_head PAGE_STATE_TAIL" "\<not> is_head PAGE_STATE_RESERVED" "\<not> is_head (PAGE_STATE_OTHER b)"
  by (auto simp: is_head_def)

definition covers :: "(nat \<Rightarrow> Page) \<Rightarrow> nat \<Rightarrow> nat \<Rightarrow> bool" where
  "covers pg p q \<longleftrightarrow> is_head (state (pg p)) \<and> q \<in> blk p (order (pg p))"

definition loose :: "(nat \<Rightarrow> Page) \<Rightarrow> nat set" where
  "loose pg = {q. state (pg q) = PAGE_STATE_TAIL \<and> (\<forall>p. \<not> covers pg p q)}"

definition tiling :: "(nat \<Rightarrow> Page) \<Rightarrow> bool" where
  "tiling pg \<longleftrightarrow> (\<forall>p. is_head (state (pg p)) \<longrightarrow>
     order (pg p) \<le> PMM_MAX_ORDER \<and> 2 ^ order (pg p) dvd p
     \<and> (\<forall>q \<in> blk p (order (pg p)). q \<noteq> p \<longrightarrow> state (pg q) = PAGE_STATE_TAIL))"

lemma tilingD:
  assumes "tiling pg" "is_head (state (pg p))"
  shows "order (pg p) \<le> PMM_MAX_ORDER" "2 ^ order (pg p) dvd p"
    "\<And>q. q \<in> blk p (order (pg p)) \<Longrightarrow> q \<noteq> p \<Longrightarrow> state (pg q) = PAGE_STATE_TAIL"
  using assms unfolding tiling_def by blast+

lemma cover_unique:
  assumes t: "tiling pg" and c: "covers pg p q" "covers pg r q"
  shows "p = r"
proof -
  have aux: False if "covers pg a q" "covers pg b q" "a < b" for a b
  proof -
    have "b \<in> blk a (order (pg a))" "b \<noteq> a" "is_head (state (pg a))" "is_head (state (pg b))"
      using that by (auto simp: covers_def blk_def)
    then have "state (pg b) = PAGE_STATE_TAIL" using tilingD(3) [OF t] by blast
    then show False using \<open>is_head (state (pg b))\<close> by simp
  qed
  show ?thesis using aux [OF c] aux [OF c(2,1)] by (cases p r rule: linorder_cases) auto
qed

lemma covers_upd:
  "covers (pg(p := P)) r q \<longleftrightarrow> (if r = p then is_head (state P) \<and> q \<in> blk p (order P) else covers pg r q)"
  by (simp add: covers_def)

lemma loose_in: "q \<in> loose pg \<Longrightarrow> state (pg q) = PAGE_STATE_TAIL" "q \<in> loose pg \<Longrightarrow> \<not> covers pg r q"
  by (auto simp: loose_def)

lemma make_head:
  assumes t: "tiling pg" and b: "blk p k \<subseteq> loose pg" and a: "2 ^ k dvd p" "k \<le> PMM_MAX_ORDER"
    and P: "is_head (state P)" "order P = k"
  shows "tiling (pg(p := P))" and "loose (pg(p := P)) = loose pg - blk p k"
proof -
  have p: "p \<in> loose pg" using b by auto
  have other: "q \<noteq> p \<longrightarrow> state (pg q) = PAGE_STATE_TAIL"
    if "is_head (state (pg r))" "q \<in> blk r (order (pg r))" "q \<noteq> r" for q r
    using tilingD(3) [OF t that] by simp
  show "tiling (pg(p := P))"
    unfolding tiling_def
  proof (intro allI impI)
    fix r assume r: "is_head (state ((pg(p := P)) r))"
    show "order ((pg(p := P)) r) \<le> PMM_MAX_ORDER \<and> 2 ^ order ((pg(p := P)) r) dvd r \<and>
      (\<forall>q \<in> blk r (order ((pg(p := P)) r)). q \<noteq> r \<longrightarrow> state ((pg(p := P)) q) = PAGE_STATE_TAIL)"
    proof (cases "r = p")
      case True
      then show ?thesis using a P b loose_in(1) by auto
    next
      case False
      then have h: "is_head (state (pg r))" using r by simp
      have "p \<notin> blk r (order (pg r))" using loose_in(2) [OF p] h by (auto simp: covers_def)
      then show ?thesis using False tilingD [OF t h] by auto
    qed
  qed
  have "state P \<noteq> PAGE_STATE_TAIL" using P(1) by auto
  moreover have "\<not> covers pg p q" for q using loose_in(1) [OF p] by (simp add: covers_def)
  ultimately show "loose (pg(p := P)) = loose pg - blk p k"
    using P by (auto simp: loose_def covers_upd split: if_splits)
qed

lemma drop_head:
  assumes t: "tiling pg" and h: "is_head (state (pg p))" and P: "state P = PAGE_STATE_TAIL"
  shows "tiling (pg(p := P))" and "loose (pg(p := P)) = loose pg \<union> blk p (order (pg p))"
proof -
  show "tiling (pg(p := P))"
    using t P unfolding tiling_def by auto
  have c: "covers pg p q" if "q \<in> blk p (order (pg p))" for q using h that by (simp add: covers_def)
  have tl: "state ((pg(p := P)) q) = PAGE_STATE_TAIL" if "q \<in> blk p (order (pg p))" for q
    using tilingD(3) [OF t h that] P by auto
  show "loose (pg(p := P)) = loose pg \<union> blk p (order (pg p))"
  proof (intro set_eqI iffI)
    fix q assume q: "q \<in> loose (pg(p := P))"
    then have "\<forall>r. r \<noteq> p \<longrightarrow> \<not> covers pg r q" using loose_in(2) [OF q] by (metis covers_upd)
    then show "q \<in> loose pg \<union> blk p (order (pg p))"
      using loose_in(1) [OF q] h by (auto simp: loose_def covers_def split: if_splits)
  next
    fix q assume q: "q \<in> loose pg \<union> blk p (order (pg p))"
    have "\<not> covers (pg(p := P)) r q" for r
      using q P cover_unique [OF t c] loose_in(2) by (auto simp: covers_upd)
    moreover have "state ((pg(p := P)) q) = PAGE_STATE_TAIL" using q tl loose_in(1) P by (metis UnE fun_upd_apply)
    ultimately show "q \<in> loose (pg(p := P))" by (simp add: loose_def)
  qed
qed

end
