(* ===== verification/Buddy.thy ===== *)
theory Buddy
  imports Page
begin

text \<open>
  The buddy allocator of \<open>kernel/mm/buddy.c\<close>: \<open>buddyZoneInit\<close>, \<open>buddyFreeBlock\<close> with its merge
  loop and \<open>buddyAllocBlock\<close> with its search and split loops, over the page array and the linked
  free lists of \<open>Page\<close>. The invariant \<open>binv\<close> ties the page states to the lists and
  counters and says that no two free buddies of one order exist; every operation keeps it, moves
  exactly one block between the free set and the loose frames, and an allocation fails only when no
  aligned block of the requested order is free.
\<close>

section \<open>Operations\<close>

definition buddyZoneInit :: "PmmZoneId \<Rightarrow> string \<Rightarrow> nat \<Rightarrow> nat \<Rightarrow> Mem \<Rightarrow> Mem" where
  "buddyZoneInit z nm s e m =
     (let m1 = fold (\<lambda>k m. setZone z (setFreeBlocks k 0) (setLinks (listInit (FreeHead z k)) m)) [0..<PMM_ORDER_COUNT] m
      in setZone z (\<lambda>zn. zn\<lparr>freePages := 0, managedPages := 0, startPfn := s, endPfn := e, name := nm\<rparr>) m1)"

text \<open>The body of the merge loop: take the free buddy off its list.\<close>

definition buddyUnlink :: "PmmZoneId \<Rightarrow> nat \<Rightarrow> nat \<Rightarrow> Mem \<Rightarrow> Mem" where
  "buddyUnlink z buddyPfn k m =
     (let m1 = setLinks (listRemove (Lru buddyPfn)) m;
          m2 = setZone z (\<lambda>zn. setFreeBlocks k (freeBlocks zn k - 1) zn) m1
      in setPage buddyPfn (\<lambda>p. p\<lparr>state := PAGE_STATE_TAIL, order := 0\<rparr>) m2)"

definition isFreeBuddy :: "(nat \<Rightarrow> Page) \<Rightarrow> nat \<Rightarrow> nat \<Rightarrow> bool" where
  "isFreeBuddy pg p k \<longleftrightarrow> state (pg p) = PAGE_STATE_BUDDY \<and> order (pg p) = k"

function buddyMerge :: "PmmZoneId \<Rightarrow> nat \<Rightarrow> nat \<Rightarrow> Mem \<Rightarrow> Mem \<times> nat \<times> nat" where
  "buddyMerge z pfn ord m =
     (if ord < PMM_MAX_ORDER then
        let buddyPfn = pfn XOR 2 ^ ord
        in if \<not> isFreeBuddy (pages m) buddyPfn ord then (m, pfn, ord)
           else buddyMerge z (unset_bit ord pfn) (ord + 1) (buddyUnlink z buddyPfn ord m)
      else (m, pfn, ord))"
  by pat_completeness auto
termination by (relation "measure (\<lambda>(z, pfn, ord, m). PMM_MAX_ORDER - ord)") auto

text \<open>Turning a block into a free block: state, order, list and counter.\<close>

definition buddyLink :: "PmmZoneId \<Rightarrow> nat \<Rightarrow> nat \<Rightarrow> Mem \<Rightarrow> Mem" where
  "buddyLink z pfn ord m =
     (let m1 = setPage pfn (\<lambda>p. p\<lparr>state := PAGE_STATE_BUDDY, order := ord\<rparr>) m;
          m2 = setLinks (listPushHead (FreeHead z ord) (Lru pfn)) m1
      in setZone z (\<lambda>zn. setFreeBlocks ord (freeBlocks zn ord + 1) zn) m2)"

definition buddyFreeBlock :: "PmmZoneId \<Rightarrow> nat \<Rightarrow> nat \<Rightarrow> Mem \<Rightarrow> Mem" where
  "buddyFreeBlock z pfn ord m =
     (let m1 = setZone z (\<lambda>zn. zn\<lparr>freePages := freePages zn + 2 ^ ord\<rparr>) m;
          (m2, pfn2, ord2) = buddyMerge z pfn ord m1
      in buddyLink z pfn2 ord2 m2)"

function buddyFindOrder :: "PmmZoneId \<Rightarrow> nat \<Rightarrow> Mem \<Rightarrow> nat" where
  "buddyFindOrder z k m =
     (if k < PMM_ORDER_COUNT \<and> listEmpty (FreeHead z k) (links m) then buddyFindOrder z (k + 1) m else k)"
  by pat_completeness auto
termination by (relation "measure (\<lambda>(z, k, m). PMM_ORDER_COUNT - k)") auto

text \<open>The split loop, counting \<open>k\<close> down to \<open>ord\<close>.\<close>

function buddySplit :: "PmmZoneId \<Rightarrow> nat \<Rightarrow> nat \<Rightarrow> nat \<Rightarrow> Mem \<Rightarrow> Mem" where
  "buddySplit z pfn ord k m =
     (if k > ord then buddySplit z pfn ord (k - 1) (buddyLink z (pfn + 2 ^ (k - 1)) (k - 1) m) else m)"
  by pat_completeness auto
termination by (relation "measure (\<lambda>(z, pfn, ord, k, m). k)") auto

text \<open>\<open>LIST_CONTAINER(node, Page, lru)\<close> is defined on \<open>lru\<close> members only.\<close>

fun lruPfn :: "node \<Rightarrow> nat" where
  "lruPfn (Lru p) = p"
| "lruPfn _ = 0"

definition buddyAllocBlock :: "PmmZoneId \<Rightarrow> nat \<Rightarrow> Mem \<Rightarrow> (Mem \<times> nat) option" where
  "buddyAllocBlock z ord m =
     (let k = buddyFindOrder z ord m
      in if k \<ge> PMM_ORDER_COUNT then None
         else case listPopHead (FreeHead z k) (links m) of
           (None, _) \<Rightarrow> None
         | (Some nd, l) \<Rightarrow>
             (let pfn = lruPfn nd;
                  m1 = m\<lparr>links := l\<rparr>;
                  m2 = setZone z (\<lambda>zn. setFreeBlocks k (freeBlocks zn k - 1) zn) m1;
                  m3 = setPage pfn (\<lambda>p. p\<lparr>state := PAGE_STATE_TAIL, order := 0\<rparr>) m2;
                  m4 = buddySplit z pfn ord k m3;
                  m5 = setZone z (\<lambda>zn. zn\<lparr>freePages := freePages zn - 2 ^ ord\<rparr>) m4
              in Some (m5, pfn)))"

declare buddyMerge.simps [simp del] buddyFindOrder.simps [simp del] buddySplit.simps [simp del]

section \<open>Invariant\<close>

text \<open>The list a page is on, by its state.\<close>

definition classOf :: "nat \<Rightarrow> Page \<Rightarrow> node option" where
  "classOf p P = (case state P of
       PAGE_STATE_BUDDY \<Rightarrow> Some (FreeHead (pmmZoneOfPfn p) (order P))
     | PAGE_STATE_PCP \<Rightarrow> Some (PcpHead (pmmZoneOfPfn p))
     | _ \<Rightarrow> None)"

definition listHeads :: "node set" where
  "listHeads = {FreeHead z k | z k. k \<le> PMM_MAX_ORDER} \<union> range PcpHead"

fun counter :: "Mem \<Rightarrow> node \<Rightarrow> nat" where
  "counter m (FreeHead z k) = freeBlocks (zones m z) k"
| "counter m (PcpHead z) = pcpCount m z"
| "counter m (Lru p) = 0"

definition coalesced :: "(nat \<Rightarrow> Page) \<Rightarrow> bool" where
  "coalesced pg \<longleftrightarrow> (\<forall>p k. k < PMM_MAX_ORDER \<and> isFreeBuddy pg p k \<longrightarrow> \<not> isFreeBuddy pg (p XOR 2 ^ k) k)"

definition binv :: "Mem \<Rightarrow> (node \<Rightarrow> nat list) \<Rightarrow> bool" where
  "binv m L \<longleftrightarrow> rings (links m) listHeads (\<lambda>h. map Lru (L h))
     \<and> (\<forall>h \<in> listHeads. set (L h) = {p. classOf p (pages m p) = Some h} \<and> counter m h = length (L h))
     \<and> tiling (pages m) \<and> coalesced (pages m)
     \<and> (\<forall>p. state (pages m p) = PAGE_STATE_PCP \<longrightarrow> order (pages m p) = 0)"

lemma binvD:
  assumes "binv m L"
  shows "rings (links m) listHeads (\<lambda>h. map Lru (L h))"
    "\<And>h. h \<in> listHeads \<Longrightarrow> set (L h) = {p. classOf p (pages m p) = Some h}"
    "\<And>h. h \<in> listHeads \<Longrightarrow> counter m h = length (L h)"
    "tiling (pages m)" "coalesced (pages m)"
    "\<And>p. state (pages m p) = PAGE_STATE_PCP \<Longrightarrow> order (pages m p) = 0"
  using assms by (auto simp: binv_def)

lemma classOf_head: "classOf p P = Some h \<Longrightarrow> is_head (state P)"
  by (auto simp: classOf_def split: PageState.splits)

lemma classOf_heads:
  assumes "tiling pg" "classOf p (pg p) = Some h"
  shows "h \<in> listHeads"
  using assms tilingD(1) [OF assms(1), of p]
  by (auto simp: classOf_def listHeads_def split: PageState.splits)

lemma map_Lru_upd: "(\<lambda>h. map Lru (L h))(h := map Lru xs) = (\<lambda>g. map Lru ((L(h := xs)) g))"
  by auto

lemma Lru_linked:
  assumes "\<And>h. h \<in> listHeads \<Longrightarrow> p \<notin> set (L h)"
  shows "Lru p \<notin> linked listHeads (\<lambda>h. map Lru (L h))"
  using assms by (auto simp: linked_def ring_nodes_def listHeads_def)

text \<open>Binding a loose block to a list, and releasing a head from its list.\<close>

lemma bind_head:
  assumes i: "binv m L" and b: "blk p k \<subseteq> loose (pages m)" and a: "2 ^ k dvd p" "k \<le> PMM_MAX_ORDER"
    and P: "classOf p P = Some h" "order P = k" "state P = PAGE_STATE_PCP \<Longrightarrow> k = 0"
    and nb: "state P = PAGE_STATE_BUDDY \<Longrightarrow> k < PMM_MAX_ORDER \<Longrightarrow> \<not> isFreeBuddy (pages m) (p XOR 2 ^ k) k"
    and m': "pages m' = (pages m)(p := P)" "links m' = listPushHead h (Lru p) (links m)"
      "\<And>g. counter m' g = (if g = h then counter m h + 1 else counter m g)"
  shows "binv m' (L(h := p # L h))" and "loose (pages m') = loose (pages m) - blk p k"
proof -
  note I = binvD [OF i]
  note mk = make_head [OF I(4) b a classOf_head [OF P(1)] P(2)]
  show "loose (pages m') = loose (pages m) - blk p k" using mk m' by simp
  have t: "tiling (pages m')" using mk m' by simp
  have h: "h \<in> listHeads" by (rule classOf_heads [OF t, of p]) (use m' P in simp)
  have pt: "state (pages m p) = PAGE_STATE_TAIL" using b loose_in(1) blk_self by blast
  have pn: "p \<notin> set (L g)" if "g \<in> listHeads" for g
    using I(2) [OF that] pt by (simp add: classOf_def)
  have "rings (listPushHead h (Lru p) (links m)) listHeads ((\<lambda>g. map Lru (L g))(h := Lru p # map Lru (L h)))"
    by (rule rings_push_head [OF I(1) h Lru_linked [OF pn]])
  then have r: "rings (links m') listHeads (\<lambda>g. map Lru ((L(h := p # L h)) g))"
    using m' map_Lru_upd [of L h "p # L h"] by simp
  have s: "set ((L(h := p # L h)) g) = {q. classOf q (pages m' q) = Some g}
      \<and> counter m' g = length ((L(h := p # L h)) g)" if "g \<in> listHeads" for g
    using I(2) [OF that] I(3) [OF that] m' P pt by (auto simp: classOf_def [of p "pages m p"])
  have "\<not> isFreeBuddy (pages m') (q XOR 2 ^ j) j" if q: "isFreeBuddy (pages m') q j" "j < PMM_MAX_ORDER" for q j
  proof (cases "q = p \<or> q XOR 2 ^ j = p")
    case True
    have x: "(q XOR 2 ^ j) XOR 2 ^ j = q" by (simp add: xor.assoc)
    show ?thesis
    proof
      assume f: "isFreeBuddy (pages m') (q XOR 2 ^ j) j"
      then have P': "state P = PAGE_STATE_BUDDY" "k = j" using True q m' P(2) by (auto simp: isFreeBuddy_def)
      have "q XOR 2 ^ j \<noteq> q" using buddy_merge(4) [of j q] tilingD(2) [OF t, of q] q by (auto simp: isFreeBuddy_def)
      then show False using True q f nb P' m' x by (auto simp: isFreeBuddy_def)
    qed
  next
    case False
    then show ?thesis using I(5) q m' by (auto simp: coalesced_def isFreeBuddy_def)
  qed
  then have "coalesced (pages m')" by (simp add: coalesced_def)
  moreover have "\<forall>q. state (pages m' q) = PAGE_STATE_PCP \<longrightarrow> order (pages m' q) = 0"
    using I(6) m' P by auto
  ultimately show "binv m' (L(h := p # L h))" using r s t by (simp add: binv_def)
qed

lemma unbind_head:
  assumes i: "binv m L" and c: "classOf p (pages m p) = Some h" and P: "state P = PAGE_STATE_TAIL"
    and m': "pages m' = (pages m)(p := P)" "links m' = listRemove (Lru p) (links m)"
      "\<And>g. counter m' g = (if g = h then counter m h - 1 else counter m g)"
  shows "binv m' (L(h := remove1 p (L h)))"
    and "loose (pages m') = loose (pages m) \<union> blk p (order (pages m p))"
proof -
  note I = binvD [OF i]
  note dh = drop_head [OF I(4) classOf_head [OF c] P]
  show "loose (pages m') = loose (pages m) \<union> blk p (order (pages m p))" using dh m' by simp
  have h: "h \<in> listHeads" by (rule classOf_heads [OF I(4) c])
  have p: "p \<in> set (L h)" using I(2) [OF h] c by simp
  have d: "distinct (L h)" using rings_ring [OF I(1) h] by (simp add: ring_def distinct_map)
  have "remove1 (Lru p) (map Lru xs) = map Lru (remove1 p xs)" for xs by (induction xs) auto
  then have r: "rings (links m') listHeads (\<lambda>g. map Lru ((L(h := remove1 p (L h))) g))"
    using rings_remove [OF I(1) h, of "Lru p"] p m' map_Lru_upd [of L h "remove1 p (L h)"] by simp
  have s: "set ((L(h := remove1 p (L h))) g) = {q. classOf q (pages m' q) = Some g}
      \<and> counter m' g = length ((L(h := remove1 p (L h))) g)" if "g \<in> listHeads" for g
    using I(2) [OF that] I(3) [OF that] m' c P p d
    by (auto simp: classOf_def [of p P] length_remove1)
  have "coalesced (pages m')"
    using I(5) m' P by (auto simp: coalesced_def isFreeBuddy_def)
  moreover have "\<forall>q. state (pages m' q) = PAGE_STATE_PCP \<longrightarrow> order (pages m' q) = 0"
    using I(6) m' P by auto
  ultimately show "binv m' (L(h := remove1 p (L h)))" using r s dh(1) m' by (simp add: binv_def)
qed

section \<open>The free set of a zone\<close>

definition freeSet :: "(nat \<Rightarrow> Page) \<Rightarrow> PmmZoneId \<Rightarrow> nat set" where
  "freeSet pg z = {q. \<exists>p. state (pg p) = PAGE_STATE_BUDDY \<and> pmmZoneOfPfn p = z \<and> q \<in> blk p (order (pg p))}"

lemma freeSet_bind:
  assumes "state (pg p) \<noteq> PAGE_STATE_BUDDY" "state P = PAGE_STATE_BUDDY"
  shows "freeSet (pg(p := P)) z = freeSet pg z \<union> (if pmmZoneOfPfn p = z then blk p (order P) else {})"
  using assms unfolding freeSet_def by (auto split: if_splits)

lemma freeSet_unbind:
  assumes "state (pg p) = PAGE_STATE_BUDDY" "state P \<noteq> PAGE_STATE_BUDDY"
  shows "freeSet pg z = freeSet (pg(p := P)) z \<union> (if pmmZoneOfPfn p = z then blk p (order (pg p)) else {})"
  using freeSet_bind [of "pg(p := P)" p "pg p" z] assms by simp

lemma freeSet_other:
  assumes "state (pg p) \<noteq> PAGE_STATE_BUDDY" "state P \<noteq> PAGE_STATE_BUDDY"
  shows "freeSet (pg(p := P)) z = freeSet pg z"
  using assms unfolding freeSet_def by (auto split: if_splits)

lemma freeSet_loose: "freeSet pg z \<inter> loose pg = {}"
  unfolding freeSet_def loose_def covers_def by (auto simp: is_head_def)

lemma freeSet_finite:
  assumes "binv m L"
  shows "finite (freeSet (pages m) z)"
proof -
  note I = binvD [OF assms]
  have "freeSet (pages m) z \<subseteq> (\<Union>k \<in> {..PMM_MAX_ORDER}. \<Union>p \<in> set (L (FreeHead z k)). blk p k)"
  proof
    fix q assume "q \<in> freeSet (pages m) z"
    then obtain p where p: "state (pages m p) = PAGE_STATE_BUDDY" "pmmZoneOfPfn p = z" "q \<in> blk p (order (pages m p))"
      by (auto simp: freeSet_def)
    have k: "order (pages m p) \<le> PMM_MAX_ORDER" using tilingD(1) [OF I(4)] p by simp
    then have "p \<in> set (L (FreeHead z (order (pages m p))))"
      using p I(2) [of "FreeHead z (order (pages m p))"] by (simp add: listHeads_def classOf_def)
    then show "q \<in> (\<Union>k \<in> {..PMM_MAX_ORDER}. \<Union>p \<in> set (L (FreeHead z k)). blk p k)" using p k by blast
  qed
  then show ?thesis by (rule finite_subset) auto
qed

text \<open>The block counters count the free blocks.\<close>

lemma freeBlocks_exact:
  assumes "binv m L" "k \<le> PMM_MAX_ORDER"
  shows "freeBlocks (zones m z) k = card {p. isFreeBuddy (pages m) p k \<and> pmmZoneOfPfn p = z}"
proof -
  note I = binvD [OF assms(1)]
  have h: "FreeHead z k \<in> listHeads" using assms(2) by (simp add: listHeads_def)
  have "distinct (L (FreeHead z k))" using rings_ring [OF I(1) h] by (simp add: ring_def distinct_map)
  then have "freeBlocks (zones m z) k = card (set (L (FreeHead z k)))" using I(3) [OF h] by (simp add: distinct_card)
  also have "classOf p P = Some (FreeHead z k) \<longleftrightarrow> state P = PAGE_STATE_BUDDY \<and> order P = k \<and> pmmZoneOfPfn p = z" for p P
    by (cases "state P") (auto simp: classOf_def)
  then have "set (L (FreeHead z k)) = {p. isFreeBuddy (pages m) p k \<and> pmmZoneOfPfn p = z}"
    unfolding I(2) [OF h] by (simp add: isFreeBuddy_def)
  finally show ?thesis .
qed

text \<open>Blocks of order at most 10 do not straddle the zone boundary.\<close>

lemma blk_zone:
  assumes "2 ^ k dvd p" "k \<le> PMM_MAX_ORDER" "q \<in> blk p k"
  shows "pmmZoneOfPfn q = pmmZoneOfPfn p"
proof -
  obtain c where c: "p = 2 ^ k * c" using assms(1) by blast
  have e: "(1048576::nat) = 2 ^ k * 2 ^ (20 - k)"
    using assms(2) by (simp flip: power_add)
  have "q < 1048576 \<longleftrightarrow> p < 1048576"
  proof
    assume "p < 1048576"
    then have "c < 2 ^ (20 - k)" unfolding c e by simp
    then have "2 ^ k * Suc c \<le> 2 ^ k * 2 ^ (20 - k)" by (intro mult_le_mono) simp_all
    then show "q < 1048576" using assms(3) c e by (simp add: blk_def)
  qed (use assms(3) in \<open>simp add: blk_def\<close>)
  then show ?thesis by (simp add: pmmZoneOfPfn_def)
qed

section \<open>Steps of the buddy allocator\<close>

text \<open>
  What every step leaves alone: cached and allocated pages, the cache lists and counters, the
  identity of the zones, and every page field but state and order.
\<close>

definition free_or_tail :: "PageState \<Rightarrow> bool" where
  "free_or_tail s \<longleftrightarrow> s = PAGE_STATE_BUDDY \<or> s = PAGE_STATE_TAIL"

definition body :: "Page \<Rightarrow> Page" where
  "body P = P\<lparr>state := PAGE_STATE_TAIL, order := 0\<rparr>"

definition pages_step :: "(nat \<Rightarrow> Page) \<Rightarrow> (nat \<Rightarrow> Page) \<Rightarrow> bool" where
  "pages_step pg pg' \<longleftrightarrow> (\<forall>q. if free_or_tail (state (pg q))
     then free_or_tail (state (pg' q)) \<and> body (pg' q) = body (pg q)
     else pg' q = pg q)"

definition bstep :: "Mem \<Rightarrow> (node \<Rightarrow> nat list) \<Rightarrow> Mem \<Rightarrow> (node \<Rightarrow> nat list) \<Rightarrow> bool" where
  "bstep m L m' L' \<longleftrightarrow> binv m' L' \<and> pages_step (pages m) (pages m')
     \<and> (\<forall>z. L' (PcpHead z) = L (PcpHead z)) \<and> pcpCount m' = pcpCount m
     \<and> (\<forall>z. managedPages (zones m' z) = managedPages (zones m z))"

lemma pages_step_refl: "pages_step pg pg"
  by (simp add: pages_step_def)

lemma pages_step_trans: "pages_step a b \<Longrightarrow> pages_step b c \<Longrightarrow> pages_step a c"
  unfolding pages_step_def by metis

lemma pages_step_upd:
  "free_or_tail (state (pg p)) \<Longrightarrow> free_or_tail s \<Longrightarrow> pages_step pg (pg(p := (pg p)\<lparr>state := s, order := k\<rparr>))"
  by (simp add: pages_step_def body_def)

lemma bstep_refl: "binv m L \<Longrightarrow> bstep m L m L"
  by (simp add: bstep_def pages_step_refl)

lemma bstep_trans: "bstep m L m1 L1 \<Longrightarrow> bstep m1 L1 m2 L2 \<Longrightarrow> bstep m L m2 L2"
  unfolding bstep_def using pages_step_trans by metis

lemma free_or_tail_simps [simp]: "free_or_tail PAGE_STATE_BUDDY" "free_or_tail PAGE_STATE_TAIL"
  "\<not> free_or_tail PAGE_STATE_PCP" "\<not> free_or_tail PAGE_STATE_ALLOCATED" "\<not> free_or_tail PAGE_STATE_RESERVED"
  by (auto simp: free_or_tail_def)

definition zoneFree :: "Mem \<Rightarrow> PmmZoneId \<Rightarrow> nat" where
  "zoneFree m z = freePages (zones m z)"

lemma buddyLink_step:
  assumes i: "binv m L" and b: "blk p k \<subseteq> loose (pages m)" and a: "2 ^ k dvd p" "k \<le> PMM_MAX_ORDER"
    and nb: "k < PMM_MAX_ORDER \<Longrightarrow> \<not> isFreeBuddy (pages m) (p XOR 2 ^ k) k" and z: "pmmZoneOfPfn p = z"
  defines "m' \<equiv> buddyLink z p k m"
  shows "\<exists>L'. bstep m L m' L'" and "loose (pages m') = loose (pages m) - blk p k"
    and "freeSet (pages m') y = freeSet (pages m) y \<union> (if z = y then blk p k else {})"
    and "zoneFree m' = zoneFree m"
proof -
  define P where "P = (pages m p)\<lparr>state := PAGE_STATE_BUDDY, order := k\<rparr>"
  have pt: "state (pages m p) = PAGE_STATE_TAIL" using b loose_in(1) blk_self by blast
  have c: "classOf p P = Some (FreeHead z k)" "order P = k" "state P = PAGE_STATE_BUDDY"
    using z by (auto simp: classOf_def P_def)
  have m': "pages m' = (pages m)(p := P)" "links m' = listPushHead (FreeHead z k) (Lru p) (links m)"
    by (auto simp: m'_def buddyLink_def set_defs P_def Let_def)
  have ct: "counter m' g = (if g = FreeHead z k then counter m (FreeHead z k) + 1 else counter m g)" for g
    by (cases g) (auto simp: m'_def buddyLink_def set_defs Let_def)
  note bd = bind_head [OF i b a c(1,2) _ _ m' ct]
  have "bstep m L m' (L(FreeHead z k := p # L (FreeHead z k)))"
    unfolding bstep_def
  proof (intro conjI)
    show "binv m' (L(FreeHead z k := p # L (FreeHead z k)))" using bd(1) nb c by simp
    show "pages_step (pages m) (pages m')" using pages_step_upd [of "pages m" p] pt m' P_def by simp
  qed (auto simp: m'_def buddyLink_def set_defs Let_def)
  then show "\<exists>L'. bstep m L m' L'" by blast
  show "loose (pages m') = loose (pages m) - blk p k" using bd(2) nb c by simp
  show "freeSet (pages m') y = freeSet (pages m) y \<union> (if z = y then blk p k else {})"
    using freeSet_bind [of "pages m" p P y] pt c m' z by simp
  show "zoneFree m' = zoneFree m"
    by (auto simp: m'_def buddyLink_def set_defs Let_def zoneFree_def fun_eq_iff)
qed

lemma buddyUnlink_step:
  assumes i: "binv m L" and f: "isFreeBuddy (pages m) p k" and z: "pmmZoneOfPfn p = z"
  defines "m' \<equiv> buddyUnlink z p k m"
  shows "\<exists>L'. bstep m L m' L'" and "loose (pages m') = loose (pages m) \<union> blk p k"
    and "freeSet (pages m) y = freeSet (pages m') y \<union> (if z = y then blk p k else {})"
    and "zoneFree m' = zoneFree m"
proof -
  define P where "P = (pages m p)\<lparr>state := PAGE_STATE_TAIL, order := 0\<rparr>"
  have c: "classOf p (pages m p) = Some (FreeHead z k)" and P: "state P = PAGE_STATE_TAIL"
    and o: "order (pages m p) = k" "state (pages m p) = PAGE_STATE_BUDDY"
    using z f by (auto simp: classOf_def P_def isFreeBuddy_def)
  have m': "pages m' = (pages m)(p := P)" "links m' = listRemove (Lru p) (links m)"
    by (auto simp: m'_def buddyUnlink_def set_defs P_def Let_def)
  have ct: "counter m' g = (if g = FreeHead z k then counter m (FreeHead z k) - 1 else counter m g)" for g
    by (cases g) (auto simp: m'_def buddyUnlink_def set_defs Let_def)
  note ub = unbind_head [OF i c P m' ct]
  have "bstep m L m' (L(FreeHead z k := remove1 p (L (FreeHead z k))))"
    unfolding bstep_def
  proof (intro conjI)
    show "pages_step (pages m) (pages m')" using pages_step_upd [of "pages m" p] o m' P_def by simp
  qed (use ub(1) in \<open>auto simp: m'_def buddyUnlink_def set_defs Let_def\<close>)
  then show "\<exists>L'. bstep m L m' L'" by blast
  show "loose (pages m') = loose (pages m) \<union> blk p k" using ub(2) o by simp
  show "freeSet (pages m) y = freeSet (pages m') y \<union> (if z = y then blk p k else {})"
    using freeSet_unbind [of "pages m" p P y] o P m' z by simp
  show "zoneFree m' = zoneFree m"
    by (auto simp: m'_def buddyUnlink_def set_defs Let_def zoneFree_def fun_eq_iff)
qed

lemma buddy_zone:
  assumes "2 ^ k dvd p" "k < PMM_MAX_ORDER"
  shows "pmmZoneOfPfn (p XOR 2 ^ k) = pmmZoneOfPfn p" "pmmZoneOfPfn (unset_bit k p) = pmmZoneOfPfn p"
proof -
  note bm = buddy_merge [OF assms(1)]
  have "pmmZoneOfPfn q = pmmZoneOfPfn (unset_bit k p)" if "q \<in> blk p k \<union> blk (p XOR 2 ^ k) k" for q
    by (rule blk_zone [OF bm(2)]) (use assms(2) that bm(1) in auto)
  then show "pmmZoneOfPfn (p XOR 2 ^ k) = pmmZoneOfPfn p" "pmmZoneOfPfn (unset_bit k p) = pmmZoneOfPfn p"
    using blk_self [of p k] blk_self [of "p XOR 2 ^ k" k] by (metis UnI1 UnI2)+
qed

text \<open>
  The merge loop returns a block that contains the one it was given, moves the difference from the
  free set to the loose frames, and stops where the block has no free buddy.
\<close>

definition merged :: "PmmZoneId \<Rightarrow> nat set \<Rightarrow> Mem \<Rightarrow> Mem \<Rightarrow> nat \<Rightarrow> nat \<Rightarrow> bool" where
  "merged z B m m' p k \<longleftrightarrow> blk p k \<subseteq> loose (pages m') \<and> 2 ^ k dvd p \<and> k \<le> PMM_MAX_ORDER \<and> pmmZoneOfPfn p = z
     \<and> B \<subseteq> blk p k \<and> loose (pages m') - blk p k = loose (pages m) - B
     \<and> (\<forall>y. freeSet (pages m') y \<union> (if z = y then blk p k else {}) = freeSet (pages m) y \<union> (if z = y then B else {}))
     \<and> zoneFree m' = zoneFree m"

lemma buddyMerge_step:
  assumes "binv m L" "blk pfn ord \<subseteq> loose (pages m)" "2 ^ ord dvd pfn" "ord \<le> PMM_MAX_ORDER" "pmmZoneOfPfn pfn = z"
    "buddyMerge z pfn ord m = (m', p, k)"
  shows "(\<exists>L'. bstep m L m' L') \<and> merged z (blk pfn ord) m m' p k
    \<and> (k < PMM_MAX_ORDER \<longrightarrow> \<not> isFreeBuddy (pages m') (p XOR 2 ^ k) k)"
  using assms
proof (induction z pfn ord m arbitrary: L rule: buddyMerge.induct)
  case (1 z pfn ord m)
  show ?case
  proof (cases "ord < PMM_MAX_ORDER \<and> isFreeBuddy (pages m) (pfn XOR 2 ^ ord) ord")
    case False
    then have "m' = m" "p = pfn" "k = ord"
      using "1.prems"(6) by (auto simp: buddyMerge.simps [of z pfn ord m] Let_def split: if_splits)
    then show ?thesis using False "1.prems" bstep_refl [of m L] by (auto simp: merged_def)
  next
    case True
    let ?b = "pfn XOR 2 ^ ord" and ?m = "buddyUnlink z (pfn XOR 2 ^ ord) ord m"
    have eq: "buddyMerge z (unset_bit ord pfn) (ord + 1) ?m = (m', p, k)"
      using "1.prems"(6) True by (simp add: buddyMerge.simps [of z pfn ord m] Let_def)
    note bm = buddy_merge [OF "1.prems"(3)] and bz = buddy_zone [OF "1.prems"(3) conjunct1 [OF True]]
    have zb: "pmmZoneOfPfn ?b = z" using bz(1) "1.prems"(5) by simp
    note ul = buddyUnlink_step [OF "1.prems"(1) conjunct2 [OF True] zb]
    obtain L1 where L1: "bstep m L ?m L1" using ul(1) by blast
    have i1: "binv ?m L1" using L1 by (simp add: bstep_def)
    have bl: "blk (unset_bit ord pfn) (ord + 1) \<subseteq> loose (pages ?m)"
      using bm(1) ul(2) "1.prems"(2) by auto
    have IH: "(\<exists>L'. bstep ?m L1 m' L') \<and> merged z (blk (unset_bit ord pfn) (ord + 1)) ?m m' p k
      \<and> (k < PMM_MAX_ORDER \<longrightarrow> \<not> isFreeBuddy (pages m') (p XOR 2 ^ k) k)"
      using "1.IH" [OF conjunct1 [OF True] refl _ i1 bl _ _ _ eq] True bm(2) bz(2) "1.prems"(5) by simp
    have u: "blk (unset_bit ord pfn) (ord + 1) = blk pfn ord \<union> blk ?b ord" using bm(1) by simp
    have fs: "freeSet (pages ?m) y \<union> (if z = y then blk (unset_bit ord pfn) (ord + 1) else {})
      = freeSet (pages m) y \<union> (if z = y then blk pfn ord else {})" for y
      unfolding u ul(3) [of y] by auto
    have bf: "blk ?b ord \<subseteq> freeSet (pages m) z"
      using ul(3) [of z] by auto
    have lo: "loose (pages ?m) - blk (unset_bit ord pfn) (ord + 1) = loose (pages m) - blk pfn ord"
      using u ul(2) bf freeSet_loose [of "pages m" z] by auto
    have "merged z (blk pfn ord) m m' p k"
      using IH u lo fs ul(4) unfolding merged_def by simp
    then show ?thesis using IH bstep_trans [OF L1] by blast
  qed
qed

theorem buddyFreeBlock_step:
  assumes i: "binv m L" and b: "blk pfn ord \<subseteq> loose (pages m)" and a: "2 ^ ord dvd pfn" "ord \<le> PMM_MAX_ORDER"
    and z: "pmmZoneOfPfn pfn = z"
  defines "m' \<equiv> buddyFreeBlock z pfn ord m"
  shows "\<exists>L'. bstep m L m' L'" and "loose (pages m') = loose (pages m) - blk pfn ord"
    and "freeSet (pages m') y = freeSet (pages m) y \<union> (if z = y then blk pfn ord else {})"
    and "zoneFree m' = (zoneFree m)(z := zoneFree m z + 2 ^ ord)"
proof -
  define m1 where "m1 = setZone z (\<lambda>zn. zn\<lparr>freePages := freePages zn + 2 ^ ord\<rparr>) m"
  obtain m2 p k where mg: "buddyMerge z pfn ord m1 = (m2, p, k)" by (metis prod_cases3)
  have m': "m' = buddyLink z p k m2" unfolding m'_def buddyFreeBlock_def m1_def [symmetric] by (simp add: mg)
  have pg: "pages m1 = pages m" "zoneFree m1 = (zoneFree m)(z := zoneFree m z + 2 ^ ord)"
    by (auto simp: m1_def set_defs zoneFree_def)
  have "counter m1 g = counter m g" for g by (cases g) (auto simp: m1_def set_defs)
  then have i1: "binv m1 L" "bstep m L m1 L"
    using i pages_step_refl by (auto simp: bstep_def binv_def m1_def set_defs)
  note st = buddyMerge_step [OF i1(1) _ a z mg]
  obtain L2 where L2: "bstep m1 L m2 L2" and M: "merged z (blk pfn ord) m1 m2 p k"
    and nb: "k < PMM_MAX_ORDER \<Longrightarrow> \<not> isFreeBuddy (pages m2) (p XOR 2 ^ k) k" using st b pg by auto
  have i2: "binv m2 L2" using L2 by (simp add: bstep_def)
  have M': "blk p k \<subseteq> loose (pages m2)" "2 ^ k dvd p" "k \<le> PMM_MAX_ORDER" "pmmZoneOfPfn p = z"
    using M by (auto simp: merged_def)
  note lk = buddyLink_step [OF i2 M'(1-3) nb M'(4)]
  show "\<exists>L'. bstep m L m' L'" using lk(1) m' bstep_trans [OF bstep_trans [OF i1(2) L2]] by blast
  show "loose (pages m') = loose (pages m) - blk pfn ord" using lk(2) m' M pg by (simp add: merged_def)
  show "freeSet (pages m') y = freeSet (pages m) y \<union> (if z = y then blk pfn ord else {})"
    using lk(3) [of y] m' M pg by (simp add: merged_def)
  show "zoneFree m' = (zoneFree m)(z := zoneFree m z + 2 ^ ord)" using lk(4) m' M pg by (simp add: merged_def)
qed

section \<open>Allocation\<close>

lemma buddyFindOrder_all:
  assumes "binv m L"
  shows "ord \<le> buddyFindOrder z ord m
    \<and> (\<forall>j. ord \<le> j \<and> j < buddyFindOrder z ord m \<and> j \<le> PMM_MAX_ORDER \<longrightarrow> L (FreeHead z j) = [])
    \<and> (buddyFindOrder z ord m < PMM_ORDER_COUNT \<longrightarrow> L (FreeHead z (buddyFindOrder z ord m)) \<noteq> [])"
  using assms
proof (induction z ord m rule: buddyFindOrder.induct)
  case (1 z k m)
  have em: "listEmpty (FreeHead z k) (links m) \<longleftrightarrow> L (FreeHead z k) = []" if "k < PMM_ORDER_COUNT"
  proof -
    have "FreeHead z k \<in> listHeads" using that by (simp add: listHeads_def)
    then show ?thesis using ring_empty_iff [OF rings_ring [OF binvD(1) [OF "1.prems"]]] by simp
  qed
  show ?case
  proof (cases "k < PMM_ORDER_COUNT \<and> listEmpty (FreeHead z k) (links m)")
    case True
    have eq: "buddyFindOrder z k m = buddyFindOrder z (k + 1) m" using True by (simp add: buddyFindOrder.simps [of z k m])
    have "L (FreeHead z j) = []" if "k \<le> j" "j < buddyFindOrder z (k + 1) m" "j \<le> PMM_MAX_ORDER" for j
      using that "1.IH" [OF True "1.prems"] em True by (cases "j = k") auto
    then show ?thesis unfolding eq using "1.IH" [OF True "1.prems"] by auto
  next
    case False
    then have "buddyFindOrder z k m = k" by (subst buddyFindOrder.simps) auto
    then show ?thesis using False em by auto
  qed
qed

lemma buddyFindOrder_spec:
  assumes "binv m L"
  shows "ord \<le> buddyFindOrder z ord m"
    and "ord \<le> j \<Longrightarrow> j < buddyFindOrder z ord m \<Longrightarrow> j \<le> PMM_MAX_ORDER \<Longrightarrow> L (FreeHead z j) = []"
    and "buddyFindOrder z ord m < PMM_ORDER_COUNT \<Longrightarrow> L (FreeHead z (buddyFindOrder z ord m)) \<noteq> []"
  using buddyFindOrder_all [OF assms, of ord z] by auto

lemma buddySplit_step:
  assumes "binv m L" "blk pfn k \<subseteq> loose (pages m)" "2 ^ k dvd pfn" "k \<le> PMM_MAX_ORDER" "ord \<le> k" "pmmZoneOfPfn pfn = z"
  shows "(\<exists>L'. bstep m L (buddySplit z pfn ord k m) L')
    \<and> loose (pages (buddySplit z pfn ord k m)) = loose (pages m) - (blk pfn k - blk pfn ord)
    \<and> freeSet (pages (buddySplit z pfn ord k m)) y = freeSet (pages m) y \<union> (if z = y then blk pfn k - blk pfn ord else {})
    \<and> zoneFree (buddySplit z pfn ord k m) = zoneFree m"
  using assms
proof (induction z pfn ord k m arbitrary: L rule: buddySplit.induct)
  case (1 z pfn ord k m)
  show ?case
  proof (cases "ord < k")
    case False
    then have "buddySplit z pfn ord k m = m" by (simp add: buddySplit.simps [of z pfn ord k m])
    moreover have "k = ord" using False "1.prems"(5) by simp
    ultimately show ?thesis using "1.prems"(1) bstep_refl [of m L] by auto
  next
    case True
    then obtain j where j: "k = Suc j" "ord \<le> j" by (cases k) auto
    let ?u = "pfn + 2 ^ j" and ?m = "buddyLink z (pfn + 2 ^ j) j m"
    obtain c where c: "pfn = 2 ^ j * (2 * c)" using "1.prems"(3) j by (auto elim!: dvdE)
    have sp: "blk pfn k = blk pfn j \<union> blk ?u j" unfolding j(1) by (rule blk_split)
    have al: "2 ^ j dvd ?u" "2 ^ j dvd pfn" unfolding c by auto
    have zu: "pmmZoneOfPfn ?u = z"
      using blk_zone [OF "1.prems"(3,4), of ?u] sp "1.prems"(6) by auto
    have nb: "\<not> isFreeBuddy (pages m) (?u XOR 2 ^ j) j"
      using buddy_even(3) [OF c] loose_in(1) [OF subsetD [OF "1.prems"(2) blk_self]] by (simp add: isFreeBuddy_def)
    have bu: "blk ?u j \<subseteq> loose (pages m)" and k: "j \<le> PMM_MAX_ORDER" using sp "1.prems"(2,4) j by auto
    note lk = buddyLink_step [OF "1.prems"(1) bu al(1) k nb zu]
    obtain L1 where L1: "bstep m L ?m L1" using lk(1) by blast
    have i1: "binv ?m L1" using L1 by (simp add: bstep_def)
    have bl: "blk pfn j \<subseteq> loose (pages ?m)" using lk(2) sp "1.prems"(2) blk_split_disjoint [of pfn j] by auto
    have IH: "(\<exists>L'. bstep ?m L1 (buddySplit z pfn ord j ?m) L')
      \<and> loose (pages (buddySplit z pfn ord j ?m)) = loose (pages ?m) - (blk pfn j - blk pfn ord)
      \<and> freeSet (pages (buddySplit z pfn ord j ?m)) y = freeSet (pages ?m) y \<union> (if z = y then blk pfn j - blk pfn ord else {})
      \<and> zoneFree (buddySplit z pfn ord j ?m) = zoneFree ?m"
      using "1.IH" [of L1] True j i1 bl al(2) k "1.prems"(6) by simp
    have eq: "buddySplit z pfn ord k m = buddySplit z pfn ord j ?m"
      using True j by (subst buddySplit.simps) simp
    have dj: "blk pfn k - blk pfn ord = blk ?u j \<union> (blk pfn j - blk pfn ord)"
      using blk_mono [OF j(2), of pfn] blk_split_disjoint [of pfn j] by (auto simp: sp)
    have "\<exists>L'. bstep m L (buddySplit z pfn ord j ?m) L'" using IH bstep_trans [OF L1] by blast
    then show ?thesis unfolding eq dj using IH lk(2,4) lk(3) [of y] by (auto simp: Diff_Un)
  qed
qed

lemma buddyAllocBlock_unfold:
  assumes i: "binv m L" and o: "ord \<le> PMM_MAX_ORDER"
  shows "buddyAllocBlock z ord m = (let k = buddyFindOrder z ord m in
    if PMM_ORDER_COUNT \<le> k then None
    else let pfn = hd (L (FreeHead z k)); m4 = buddySplit z pfn ord k (buddyUnlink z pfn k m)
      in Some (setZone z (\<lambda>zn. zn\<lparr>freePages := freePages zn - 2 ^ ord\<rparr>) m4, pfn))"
proof (cases "buddyFindOrder z ord m < PMM_ORDER_COUNT")
  case True
  let ?k = "buddyFindOrder z ord m"
  have h: "FreeHead z ?k \<in> listHeads" using True by (simp add: listHeads_def)
  have ne: "L (FreeHead z ?k) \<noteq> []" using buddyFindOrder_spec(3) [OF i] True by blast
  have pop: "listPopHead (FreeHead z ?k) (links m)
    = (Some (Lru (hd (L (FreeHead z ?k)))), listRemove (Lru (hd (L (FreeHead z ?k)))) (links m))"
    using rings_pop_head(1) [OF binvD(1) [OF i] h] ne by (simp add: hd_map)
  show ?thesis using True
    by (simp add: buddyAllocBlock_def pop Let_def buddyUnlink_def setLinks_def)
qed (simp add: buddyAllocBlock_def)

theorem buddyAllocBlock_step:
  assumes i: "binv m L" and o: "ord \<le> PMM_MAX_ORDER" and r: "buddyAllocBlock z ord m = Some (m', pfn)"
  shows "\<exists>L'. bstep m L m' L'" and "loose (pages m') = loose (pages m) \<union> blk pfn ord"
    and "freeSet (pages m) y = freeSet (pages m') y \<union> (if z = y then blk pfn ord else {})"
    and "zoneFree m' = (zoneFree m)(z := zoneFree m z - 2 ^ ord)" and "2 ^ ord dvd pfn" and "pmmZoneOfPfn pfn = z"
proof -
  define k where "k = buddyFindOrder z ord m"
  define m1 where "m1 = buddyUnlink z pfn k m"
  define m4 where "m4 = buddySplit z pfn ord k m1"
  have k: "k \<le> PMM_MAX_ORDER" "ord \<le> k" and pfn: "pfn = hd (L (FreeHead z k))"
    and m': "m' = setZone z (\<lambda>zn. zn\<lparr>freePages := freePages zn - 2 ^ ord\<rparr>) m4"
    using r buddyFindOrder_spec(1) [OF i, of ord z]
    by (auto simp: buddyAllocBlock_unfold [OF i o] Let_def k_def m4_def m1_def split: if_splits)
  have h: "FreeHead z k \<in> listHeads" using k by (simp add: listHeads_def)
  have "L (FreeHead z k) \<noteq> []"
    unfolding k_def by (rule buddyFindOrder_spec(3) [OF i]) (use k(1) in \<open>simp add: k_def [symmetric]\<close>)
  then have "pfn \<in> set (L (FreeHead z k))" by (simp add: pfn)
  then have "classOf pfn (pages m pfn) = Some (FreeHead z k)" unfolding binvD(2) [OF i h] by (rule CollectD)
  then have f: "isFreeBuddy (pages m) pfn k" and z: "pmmZoneOfPfn pfn = z"
    by (auto simp: classOf_def isFreeBuddy_def split: PageState.splits)
  have a: "2 ^ k dvd pfn" using tilingD(2) [OF binvD(4) [OF i], of pfn] f by (auto simp: isFreeBuddy_def)
  note ul = buddyUnlink_step [OF i f z, folded m1_def]
  obtain L1 where L1: "bstep m L m1 L1" using ul(1) by blast
  have i1: "binv m1 L1" using L1 by (simp add: bstep_def)
  have b: "blk pfn k \<subseteq> loose (pages m1)" using ul(2) by simp
  note sp = buddySplit_step [OF i1 b a k z, folded m4_def]
  obtain L4 where L4: "bstep m1 L1 m4 L4" using sp by blast
  have "counter m' g = counter m4 g" for g by (cases g) (auto simp: m' set_defs)
  then have "bstep m4 L4 m' L4"
    using L4 pages_step_refl by (auto simp: bstep_def binv_def m' set_defs)
  then show "\<exists>L'. bstep m L m' L'" using bstep_trans [OF bstep_trans [OF L1 L4]] by blast
  have pg: "pages m' = pages m4" by (simp add: m' set_defs)
  have sub: "blk pfn ord \<subseteq> blk pfn k" by (rule blk_mono [OF k(2)])
  have fr: "blk pfn k \<inter> loose (pages m) = {}"
    using ul(3) [of z] freeSet_loose [of "pages m" z] by auto
  show "loose (pages m') = loose (pages m) \<union> blk pfn ord"
    using sp ul(2) sub fr unfolding pg by auto
  show "freeSet (pages m) y = freeSet (pages m') y \<union> (if z = y then blk pfn ord else {})"
    using sp [of y] ul(3) [of y] sub unfolding pg by auto
  show "zoneFree m' = (zoneFree m)(z := zoneFree m z - 2 ^ ord)"
    using sp ul(4) by (auto simp: m' zoneFree_def set_defs fun_eq_iff)
  show "2 ^ ord dvd pfn" using a k(2) by (meson le_imp_power_dvd dvd_trans)
  show "pmmZoneOfPfn pfn = z" by (rule z)
qed

text \<open>Coalescing makes the search complete: an aligned block of free frames lies in one free block.\<close>

lemma free_block_single:
  assumes t: "tiling pg" and c: "coalesced pg"
  shows "k \<le> PMM_MAX_ORDER \<Longrightarrow> 2 ^ k dvd p \<Longrightarrow> blk p k \<subseteq> freeSet pg z \<Longrightarrow>
    \<exists>r. state (pg r) = PAGE_STATE_BUDDY \<and> pmmZoneOfPfn r = z \<and> k \<le> order (pg r) \<and> p \<in> blk r (order (pg r))"
proof (induction k arbitrary: p)
  case 0
  then show ?case by (auto simp: freeSet_def)
next
  case (Suc k)
  obtain d where d: "p = 2 ^ k * (2 * d)" using Suc.prems(2) by (auto elim!: dvdE)
  have al: "2 ^ k dvd p" "2 ^ k dvd p + 2 ^ k" unfolding d by auto
  have half: "r = q" if "state (pg r) = PAGE_STATE_BUDDY" "order (pg r) = k" "q \<in> blk r k" "2 ^ k dvd q" for r q
  proof -
    have "2 ^ k dvd q - r" "q - r < 2 ^ k" "r \<le> q"
      using tilingD(2) [OF t, of r] that by (auto simp: blk_def dvd_diff_nat)
    then show ?thesis by (metis dvd_imp_le le_antisym not_le diff_is_0_eq zero_less_iff_neq_zero)
  qed
  obtain r where r: "state (pg r) = PAGE_STATE_BUDDY" "pmmZoneOfPfn r = z" "k \<le> order (pg r)" "p \<in> blk r (order (pg r))"
    using Suc.IH [of p] Suc.prems al blk_split [of p k] by auto
  obtain u where u: "state (pg u) = PAGE_STATE_BUDDY" "pmmZoneOfPfn u = z" "k \<le> order (pg u)" "p + 2 ^ k \<in> blk u (order (pg u))"
    using Suc.IH [of "p + 2 ^ k"] Suc.prems al blk_split [of p k] by auto
  show ?case
  proof (cases "order (pg r) = k")
    case False
    then show ?thesis using r by (intro exI [of _ r]) auto
  next
    case True
    have "r = p" by (rule half [OF r(1) True _ al(1)]) (use r(4) True in simp)
    then have rp: "isFreeBuddy pg p k" using r(1) True by (simp add: isFreeBuddy_def)
    have ou: "order (pg u) \<noteq> k"
    proof
      assume ok: "order (pg u) = k"
      have "u = p + 2 ^ k" by (rule half [OF u(1) ok _ al(2)]) (use u(4) ok in simp)
      then have "isFreeBuddy pg (p XOR 2 ^ k) k"
        using u(1) ok buddy_even(1) [OF d] by (simp add: isFreeBuddy_def)
      then show False using c rp Suc.prems(1) by (auto simp: coalesced_def)
    qed
    have "p \<in> blk u (order (pg u))"
    proof -
      have "2 ^ Suc k dvd (2::nat) ^ order (pg u)" by (rule le_imp_power_dvd) (use u(3) ou in simp)
      then have "2 ^ Suc k dvd u" using tilingD(2) [OF t, of u] u(1) by (auto intro: dvd_trans)
      then obtain e where e: "u = 2 ^ Suc k * e" by blast
      have "u \<le> p + 2 ^ k" using u(4) by (auto simp: blk_def)
      then have "2 ^ k * (2 * e) \<le> 2 ^ k * (2 * d + 1)" using d e by simp
      then have "2 * e \<le> 2 * d + 1" by (simp only: mult_le_cancel1) simp
      then have "e \<le> d" by simp
      then have "u \<le> p" using d e by simp
      then show ?thesis using u(4) by (auto simp: blk_def)
    qed
    then show ?thesis using u ou by (intro exI [of _ u]) auto
  qed
qed

theorem buddyAllocBlock_None:
  assumes i: "binv m L" and o: "ord \<le> PMM_MAX_ORDER"
  shows "buddyAllocBlock z ord m = None \<longleftrightarrow> (\<nexists>p. 2 ^ ord dvd p \<and> blk p ord \<subseteq> freeSet (pages m) z)"
proof
  assume n: "buddyAllocBlock z ord m = None"
  then have k: "PMM_ORDER_COUNT \<le> buddyFindOrder z ord m"
    by (auto simp: buddyAllocBlock_unfold [OF i o] Let_def split: if_splits)
  show "\<nexists>p. 2 ^ ord dvd p \<and> blk p ord \<subseteq> freeSet (pages m) z"
  proof
    assume "\<exists>p. 2 ^ ord dvd p \<and> blk p ord \<subseteq> freeSet (pages m) z"
    then obtain r where r: "state (pages m r) = PAGE_STATE_BUDDY" "pmmZoneOfPfn r = z" "ord \<le> order (pages m r)"
      using free_block_single [OF binvD(4,5) [OF i] o] by blast
    define j where "j = order (pages m r)"
    have j: "j \<le> PMM_MAX_ORDER" using tilingD(1) [OF binvD(4) [OF i]] r j_def by simp
    have "r \<in> set (L (FreeHead z j))"
      using binvD(2) [OF i, of "FreeHead z j"] j r j_def by (simp add: listHeads_def classOf_def)
    moreover have "L (FreeHead z j) = []"
      using buddyFindOrder_spec(2) [OF i, of ord j z] r(3) j k j_def by simp
    ultimately show False by simp
  qed
next
  assume n: "\<nexists>p. 2 ^ ord dvd p \<and> blk p ord \<subseteq> freeSet (pages m) z"
  show "buddyAllocBlock z ord m = None"
  proof (rule ccontr)
    assume "buddyAllocBlock z ord m \<noteq> None"
    then obtain m' pfn where r: "buddyAllocBlock z ord m = Some (m', pfn)" by auto
    show False using buddyAllocBlock_step(3) [OF i o r, of z] buddyAllocBlock_step(5) [OF i o r] n by auto
  qed
qed

lemma buddySplit_page: "pages (buddySplit z pfn ord k m) pfn = pages m pfn"
proof (induction z pfn ord k m rule: buddySplit.induct)
  case (1 z pfn ord k m)
  then show ?case
    by (subst buddySplit.simps) (simp add: buddyLink_def set_defs Let_def)
qed

lemma buddyAllocBlock_page:
  assumes i: "binv m L" and o: "ord \<le> PMM_MAX_ORDER" and r: "buddyAllocBlock z ord m = Some (m', pfn)"
  shows "pages m' pfn = (pages m pfn)\<lparr>state := PAGE_STATE_TAIL, order := 0\<rparr>"
  using r unfolding buddyAllocBlock_unfold [OF i o] Let_def
  by (auto simp: setZone_def buddySplit_page split: if_splits) (simp add: buddyUnlink_def set_defs Let_def)

end
