(* ===== verification/Extents.thy ===== *)
theory Extents
  imports Prelude
begin

text \<open>
  Sorted lists of disjoint, non-touching half-open intervals \<open>[a, b)\<close> of naturals: the shape
  of the free-extent table of \<open>kernel/mm/kva.c\<close> and of the span table of
  \<open>kernel/mm/pmm-map.c\<close>. The list is in bijection with the set it covers, cutting the front
  of an extent removes exactly that interval, and joining an interval at its place adds it.
\<close>

type_synonym ext = "nat \<times> nat"

fun exts_ok :: "nat \<Rightarrow> nat \<Rightarrow> ext list \<Rightarrow> bool" where
  "exts_ok lo hi [] = True"
| "exts_ok lo hi ((a, b) # es) = (lo \<le> a \<and> a < b \<and> b \<le> hi \<and> exts_ok (Suc b) hi es)"

definition cover :: "ext list \<Rightarrow> nat set" where
  "cover es = (\<Union>(a, b) \<in> set es. {a..<b})"

lemma cover_simps [simp]:
  "cover [] = {}"
  "cover ((a, b) # es) = {a..<b} \<union> cover es"
  "cover (xs @ ys) = cover xs \<union> cover ys"
  by (auto simp: cover_def)

lemma exts_ok_Cons:
  "exts_ok lo hi (e # es) \<longleftrightarrow> lo \<le> fst e \<and> fst e < snd e \<and> snd e \<le> hi \<and> exts_ok (Suc (snd e)) hi es"
  by (cases e) simp

lemma exts_ok_mono: "exts_ok lo hi es \<Longrightarrow> lo' \<le> lo \<Longrightarrow> exts_ok lo' hi es"
  by (cases es) (auto simp: exts_ok_Cons)

definition next_lo :: "nat \<Rightarrow> ext list \<Rightarrow> nat" where
  "next_lo lo xs = (if xs = [] then lo else Suc (snd (last xs)))"

lemma exts_ok_append:
  "exts_ok lo hi (xs @ ys) \<longleftrightarrow> exts_ok lo hi xs \<and> exts_ok (next_lo lo xs) hi ys"
  by (induction lo hi xs rule: exts_ok.induct) (auto simp: next_lo_def)

lemma exts_ok_cover_lo: "exts_ok lo hi es \<Longrightarrow> x \<in> cover es \<Longrightarrow> lo \<le> x \<and> x < hi"
  by (induction lo hi es rule: exts_ok.induct) fastforce+

lemma next_lo_ge: "exts_ok lo hi xs \<Longrightarrow> lo \<le> next_lo lo xs"
  by (induction lo hi xs rule: exts_ok.induct) (auto simp: next_lo_def)

lemma exts_ok_cover_next: "exts_ok lo hi xs \<Longrightarrow> x \<in> cover xs \<Longrightarrow> Suc x < next_lo lo xs"
proof (induction lo hi xs rule: exts_ok.induct)
  case (2 lo hi a b es)
  then have "Suc b \<le> next_lo (Suc b) es" by (auto intro: next_lo_ge)
  moreover have "next_lo lo ((a, b) # es) = next_lo (Suc b) es"
    by (simp add: next_lo_def)
  ultimately show ?case using 2 by auto
qed simp

lemma exts_ok_split_disjoint:
  assumes "exts_ok lo hi (xs @ ys)"
  shows "cover xs \<inter> cover ys = {}"
  using assms exts_ok_cover_next exts_ok_cover_lo
  by (fastforce simp: exts_ok_append)

text \<open>Removing the first \<open>n\<close> points of one extent.\<close>

definition cut_front :: "ext \<Rightarrow> nat \<Rightarrow> ext list" where
  "cut_front e n = (if fst e + n = snd e then [] else [(fst e + n, snd e)])"

lemma cut_front_ok:
  assumes "exts_ok lo hi (xs @ (a, b) # ys)" "a + n \<le> b"
  shows "exts_ok lo hi (xs @ cut_front (a, b) n @ ys)"
  using assms by (auto simp: exts_ok_append cut_front_def next_lo_def intro: exts_ok_mono)

lemma cut_front_cover:
  assumes "exts_ok lo hi (xs @ (a, b) # ys)" "a + n \<le> b"
  shows "cover (xs @ cut_front (a, b) n @ ys) = cover (xs @ (a, b) # ys) - {a..<a + n}"
    and "{a..<a + n} \<subseteq> cover (xs @ (a, b) # ys)"
proof -
  have d: "cover xs \<inter> {a..<b} = {}" "cover ys \<inter> {a..<b} = {}"
    using exts_ok_split_disjoint [of lo hi xs "(a, b) # ys"]
      exts_ok_split_disjoint [of lo hi "xs @ [(a, b)]" ys] assms(1) by auto
  show "cover (xs @ cut_front (a, b) n @ ys) = cover (xs @ (a, b) # ys) - {a..<a + n}"
    using d assms(2) by (auto simp: cut_front_def)
  show "{a..<a + n} \<subseteq> cover (xs @ (a, b) # ys)"
    using assms(2) by auto
qed

text \<open>Joining an interval between a left and a right part, merging what it touches.\<close>

definition join_left :: "ext list \<Rightarrow> nat \<Rightarrow> bool" where
  "join_left ls s \<longleftrightarrow> ls \<noteq> [] \<and> snd (last ls) = s"

definition join_right :: "ext list \<Rightarrow> nat \<Rightarrow> bool" where
  "join_right rs e \<longleftrightarrow> rs \<noteq> [] \<and> fst (hd rs) = e"

definition join_ext :: "ext list \<Rightarrow> ext list \<Rightarrow> nat \<Rightarrow> nat \<Rightarrow> ext list" where
  "join_ext ls rs s e =
     (let s' = (if join_left ls s then fst (last ls) else s);
          e' = (if join_right rs e then snd (hd rs) else e)
      in (if join_left ls s then butlast ls else ls) @ (s', e')
         # (if join_right rs e then tl rs else rs))"

lemma join_ext_ok:
  assumes "exts_ok lo hi (ls @ rs)" "s < e" "lo \<le> s" "e \<le> hi"
    and "ls \<noteq> [] \<Longrightarrow> snd (last ls) \<le> s" "rs \<noteq> [] \<Longrightarrow> e \<le> fst (hd rs)"
  shows "exts_ok lo hi (join_ext ls rs s e)"
proof -
  have r: "exts_ok (Suc (if join_right rs e then snd (hd rs) else e)) hi
             (if join_right rs e then tl rs else rs)
           \<and> e \<le> (if join_right rs e then snd (hd rs) else e)
           \<and> (if join_right rs e then snd (hd rs) else e) \<le> hi"
    using assms(1,4,6)
    by (cases rs) (auto simp: exts_ok_append join_right_def)
  show ?thesis
  proof (cases "join_left ls s")
    case True
    then obtain xs a where ls: "ls = xs @ [(a, s)]"
      by (metis join_left_def append_butlast_last_id prod.collapse)
    with True assms(1,2) r show ?thesis
      by (auto simp: join_ext_def Let_def exts_ok_append next_lo_def)
  next
    case False
    then have "next_lo lo ls \<le> s"
      using assms(3,5) by (auto simp: next_lo_def join_left_def)
    with False assms(1,2) r show ?thesis
      by (auto simp: join_ext_def Let_def exts_ok_append)
  qed
qed

lemma join_ext_cover:
  assumes "exts_ok lo hi (ls @ rs)" "s < e"
  shows "cover (join_ext ls rs s e) = cover (ls @ rs) \<union> {s..<e}"
proof -
  let ?s = "if join_left ls s then fst (last ls) else s"
  let ?e = "if join_right rs e then snd (hd rs) else e"
  have l: "cover ls = cover (if join_left ls s then butlast ls else ls) \<union> {?s..<s} \<and> ?s \<le> s"
  proof (cases "join_left ls s")
    case True
    then obtain xs a where ls: "ls = xs @ [(a, s)]"
      by (metis join_left_def append_butlast_last_id prod.collapse)
    with True assms(1) show ?thesis by (auto simp: exts_ok_append)
  qed simp
  have r: "cover rs = cover (if join_right rs e then tl rs else rs) \<union> {e..<?e} \<and> e \<le> ?e"
    using assms(1) by (cases rs) (auto simp: join_right_def exts_ok_append)
  have mid: "{?s..<?e} = {?s..<s} \<union> {s..<e} \<union> {e..<?e}"
    using l r assms(2) by (metis ivl_disj_un_two(3) less_imp_le order.trans)
  show ?thesis
    unfolding join_ext_def Let_def cover_simps mid
    using l r by blast
qed

text \<open>The list is determined by the set it covers.\<close>

lemma exts_ok_canonical:
  "exts_ok lo hi xs \<Longrightarrow> exts_ok lo hi ys \<Longrightarrow> cover xs = cover ys \<Longrightarrow> xs = ys"
proof (induction lo hi xs arbitrary: ys rule: exts_ok.induct)
  case (1 lo hi)
  then show ?case by (cases ys) (auto simp: exts_ok_Cons cover_def)
next
  case (2 lo hi a b es)
  then obtain c d ys' where ys: "ys = (c, d) # ys'" "c < d" "exts_ok (Suc d) hi ys'"
    by (cases ys) auto
  have ab: "a < b" "exts_ok (Suc b) hi es" using "2.prems" by auto
  have cov: "{a..<b} \<union> cover es = {c..<d} \<union> cover ys'"
    using "2.prems" ys by simp
  have es_lo: "\<And>x. x \<in> cover es \<Longrightarrow> b < x"
    using ab exts_ok_cover_lo by fastforce
  have ys_lo: "\<And>x. x \<in> cover ys' \<Longrightarrow> d < x"
    using ys exts_ok_cover_lo by fastforce
  have ac: "a = c"
  proof (rule antisym)
    have "c \<in> {a..<b} \<union> cover es" using cov ys by auto
    then show "a \<le> c" using es_lo ab by fastforce
    have "a \<in> {c..<d} \<union> cover ys'" using cov ab by auto
    then show "c \<le> a" using ys_lo ys by fastforce
  qed
  have bd: "b = d"
  proof (rule antisym)
    have "d \<notin> {c..<d} \<union> cover ys'" using ys_lo by auto
    then have "d \<notin> {a..<b}" using cov by blast
    then show "b \<le> d" using ac ys by auto
    have "b \<notin> {a..<b} \<union> cover es" using es_lo by auto
    then have "b \<notin> {c..<d}" using cov by blast
    then show "d \<le> b" using ac ab by auto
  qed
  have "cover es = cover ys'"
  proof -
    have "cover es = ({a..<b} \<union> cover es) \<inter> {b..}" using es_lo by fastforce
    also have "\<dots> = ({c..<d} \<union> cover ys') \<inter> {d..}" using cov bd by simp
    also have "\<dots> = cover ys'" using ys_lo by fastforce
    finally show ?thesis .
  qed
  then have "es = ys'" using "2.IH" ab ys bd by simp
  then show ?case using ys ac bd by simp
qed

text \<open>
  Taking \<open>k\<close> disjoint intervals out of one interval leaves at most \<open>k + 1\<close> extents: the end
  of every extent but the last lies in a taken interval, and no interval holds two of them.
\<close>

definition holes :: "ext set \<Rightarrow> nat set" where
  "holes H = (\<Union>(s, e) \<in> H. {s..<e})"

lemma in_holes: "x \<in> holes H \<longleftrightarrow> (\<exists>s e. (s, e) \<in> H \<and> s \<le> x \<and> x < e)"
  unfolding holes_def by (auto split: prod.splits intro: rev_bexI)

lemma exts_ok_ends: "exts_ok lo hi es \<Longrightarrow> (a, b) \<in> set es \<Longrightarrow> lo \<le> a \<and> a < b \<and> b \<le> hi"
  by (induction lo hi es rule: exts_ok.induct) fastforce+

lemma extents_le_holes_aux:
  assumes "exts_ok lo hi es" "finite H"
    and "\<And>a b. (a, b) \<in> set (butlast es) \<Longrightarrow> b \<in> holes H" "cover es \<inter> holes H = {}"
  shows "length es \<le> Suc (card H)"
  using assms
proof (induction lo hi es arbitrary: H rule: exts_ok.induct)
  case (1 lo hi)
  then show ?case by simp
next
  case (2 lo hi a b es)
  show ?case
  proof (cases es)
    case Nil
    then show ?thesis by simp
  next
    case (Cons e es')
    then obtain c d where e: "es = (c, d) # es'" by (cases e) auto
    have ok: "b < c" "c < d" "exts_ok (Suc b) hi es" using "2.prems"(1) e by auto
    obtain s t where st: "(s, t) \<in> H" "s \<le> b" "b < t"
      using "2.prems"(3) [of a b] e by (auto simp: in_holes)
    have "c \<notin> holes H" using "2.prems"(4) e ok by auto
    then have tc: "t \<le> c"
      using st ok unfolding in_holes by (meson leI less_imp_le order.strict_trans1)
    have "b' \<in> holes (H - {(s, t)})" if "(a', b') \<in> set (butlast es)" for a' b'
    proof -
      have "b' \<in> holes H" using that "2.prems"(3) e by auto
      moreover have "(a', b') \<in> set es" using that in_set_butlastD by fast
      then have "c < b'"
        using e ok exts_ok_ends [of "Suc d" hi es' a' b'] by auto
      ultimately show ?thesis using tc by (auto simp: in_holes) (metis Suc_leD linorder_not_less order.strict_trans less_or_eq_imp_le prod.inject)
    qed
    moreover have "cover es \<inter> holes (H - {(s, t)}) = {}"
      using "2.prems"(4) by (auto simp: holes_def)
    ultimately have "length es \<le> Suc (card (H - {(s, t)}))"
      using "2.IH" ok "2.prems"(2) by simp
    moreover have "card H = Suc (card (H - {(s, t)}))"
      using st "2.prems"(2) by (metis card.remove)
    ultimately show ?thesis by simp
  qed
qed

lemma extents_le_holes:
  assumes ok: "exts_ok lo hi es" and fin: "finite H"
    and fill: "cover es \<union> holes H = {lo..<hi}"
    and disj: "cover es \<inter> holes H = {}"
  shows "length es \<le> Suc (card H)"
proof (rule extents_le_holes_aux [OF ok fin _ disj])
  fix a b assume ab: "(a, b) \<in> set (butlast es)"
  then obtain xs ys where es: "es = xs @ (a, b) # ys" "ys \<noteq> []"
    by (metis append_butlast_last_id append.assoc append_Cons butlast.simps(1) list.distinct(1)
        list.set_cases split_list append_is_Nil_conv)
  then obtain c d ys' where ys: "ys = (c, d) # ys'" by (cases ys) auto
  have "lo \<le> b" "b < c" "c < hi" "b \<notin> cover es"
    using ok es ys exts_ok_cover_next [of lo hi xs b] exts_ok_cover_lo [of "Suc b" hi ys b]
      next_lo_ge [of lo hi xs]
    by (auto simp: exts_ok_append)
  then show "b \<in> holes H" using fill by fastforce
qed

text \<open>
  At the insertion point of \<open>s\<close>, comparing with the two neighbours decides whether
  \<open>[s, e)\<close> meets any extent of the list.
\<close>

lemma exts_ok_later: "exts_ok lo hi (f # es) \<Longrightarrow> x \<in> cover (f # es) \<Longrightarrow> fst f \<le> x"
  using exts_ok_cover_lo [of "fst f" hi "f # es" x] by (simp add: exts_ok_Cons)

lemma exts_ok_earlier:
  assumes "exts_ok lo hi ls" "x \<in> cover ls" shows "x < snd (last ls)"
  using exts_ok_cover_next [OF assms] assms(2) by (auto simp: next_lo_def split: if_splits)

lemma neighbours_decide_overlap:
  assumes ok: "exts_ok lo hi es" and se: "s < e"
    and ls: "ls = takeWhile (\<lambda>x. fst x < s) es" and rs: "rs = dropWhile (\<lambda>x. fst x < s) es"
  shows "(ls = [] \<or> snd (last ls) \<le> s) \<and> (rs = [] \<or> e \<le> fst (hd rs)) \<longleftrightarrow> cover es \<inter> {s..<e} = {}"
    (is "?L \<and> ?R \<longleftrightarrow> ?D")
proof -
  have es: "es = ls @ rs" by (simp add: ls rs)
  have okl: "exts_ok lo hi ls" and okr: "exts_ok (next_lo lo ls) hi rs"
    using ok unfolding es by (auto simp: exts_ok_append)
  have cov: "cover es = cover ls \<union> cover rs" by (simp add: es)
  have l: "?L \<longleftrightarrow> cover ls \<inter> {s..<e} = {}"
  proof (cases "ls = []")
    case False
    then obtain a b where lst: "last ls = (a, b)" "(a, b) \<in> set ls"
      by (metis last_in_set prod.collapse)
    then have "a < s" "a < b" using exts_ok_ends [OF okl] set_takeWhileD ls by fastforce+
    show ?thesis
    proof
      assume "?L"
      then show "cover ls \<inter> {s..<e} = {}" using exts_ok_earlier [OF okl] False by fastforce
    next
      assume d: "cover ls \<inter> {s..<e} = {}"
      have "{a..<b} \<subseteq> cover ls" using lst(2) by (auto simp: cover_def)
      then have "s \<notin> {a..<b}" using d se by fastforce
      then show "?L" using lst \<open>a < s\<close> by auto
    qed
  qed simp
  have r: "?R \<longleftrightarrow> cover rs \<inter> {s..<e} = {}"
  proof (cases rs)
    case (Cons f fs)
    have "\<not> fst f < s" using hd_dropWhile [of "\<lambda>x. fst x < s" es] Cons rs by (metis list.sel(1) list.discI)
    moreover have "fst f \<in> cover rs"
      using okr Cons by (cases f) (auto simp: exts_ok_Cons)
    ultimately show ?thesis
      using exts_ok_later [of "next_lo lo ls" hi f fs] okr Cons by fastforce
  qed simp
  show ?thesis unfolding l r cov by blast
qed

text \<open>A bound on both ends of every extent is kept by joining an interval that has it.\<close>

lemma join_ext_ends:
  assumes "\<forall>x \<in> set ls. Q (fst x) \<and> Q (snd x)" "\<forall>x \<in> set rs. Q (fst x) \<and> Q (snd x)" "Q s" "Q e"
  shows "\<forall>x \<in> set (join_ext ls rs s e). Q (fst x) \<and> Q (snd x)"
proof -
  have "set (if join_left ls s then butlast ls else ls) \<subseteq> set ls"
    by (auto dest: in_set_butlastD)
  moreover have "set (if join_right rs e then tl rs else rs) \<subseteq> set rs"
    by (auto dest: list.set_sel(2) [rotated]) (metis list.sel(2) list.set_sel(2))
  moreover have "join_left ls s \<Longrightarrow> last ls \<in> set ls" "join_right rs e \<Longrightarrow> hd rs \<in> set rs"
    by (auto simp: join_left_def join_right_def)
  ultimately show ?thesis using assms by (auto simp: join_ext_def Let_def subset_iff)
qed

end
