(* ===== verification/Pmm_Map.thy ===== *)
theory Pmm_Map
  imports Extents
begin

text \<open>
  The boot memory map and its scan: \<open>BootMemRegion\<close> of \<open>boot/common/include/bootinfo.h\<close>,
  \<open>kernel/mm/pmm-map.c\<close> and the span lookup \<open>pmmPfnValid\<close> of \<open>kernel/mm/pmm.c\<close>. The tables of
  \<open>PmmMap\<close> that only grow at their end are lists of their used entries, with the capacity tests of
  the source on their length. Addresses, page frame numbers and page counts are 64-bit words.

  For a map that keeps the BootInfo contract (sorted, disjoint regions that do not wrap) the scan
  yields sorted, separated, order-10 aligned spans that cover every managed frame, usable ranges
  inside the managed window, and page counts that add up.
\<close>

section \<open>Data\<close>

record BootMemRegion =
  base :: u64
  len :: u64
  mtype :: u32
  mreserved :: u32

definition BOOT_MEM_USABLE :: u32 where "BOOT_MEM_USABLE = 1"
definition BOOT_MEM_RESERVED :: u32 where "BOOT_MEM_RESERVED = 2"
definition BOOT_MEM_ACPI_RECLAIM :: u32 where "BOOT_MEM_ACPI_RECLAIM = 3"
definition BOOT_MEM_ACPI_NVS :: u32 where "BOOT_MEM_ACPI_NVS = 4"
definition BOOT_MEM_BAD :: u32 where "BOOT_MEM_BAD = 5"
definition BOOT_MEM_LOADER_RECLAIM :: u32 where "BOOT_MEM_LOADER_RECLAIM = 6"
definition BOOT_MEM_KERNEL :: u32 where "BOOT_MEM_KERNEL = 7"
definition BOOT_MEM_INITRD :: u32 where "BOOT_MEM_INITRD = 8"
definition BOOT_MEM_FRAMEBUFFER :: u32 where "BOOT_MEM_FRAMEBUFFER = 9"

lemmas boot_mem_types = BOOT_MEM_USABLE_def BOOT_MEM_ACPI_RECLAIM_def BOOT_MEM_LOADER_RECLAIM_def
  BOOT_MEM_KERNEL_def BOOT_MEM_INITRD_def BOOT_MEM_FRAMEBUFFER_def
  BOOT_MEM_RESERVED_def BOOT_MEM_ACPI_NVS_def BOOT_MEM_BAD_def

record PmmSpan =
  sp_start :: u64
  sp_end :: u64

record PmmReclaimRange =
  rr_base :: u64
  rr_len :: u64

abbreviation PMM_MAX_SPANS :: nat where "PMM_MAX_SPANS \<equiv> 128"
abbreviation PMM_MAX_USABLE_RANGES :: nat where "PMM_MAX_USABLE_RANGES \<equiv> 256"
abbreviation PMM_MAX_RECLAIM_RANGES :: nat where "PMM_MAX_RECLAIM_RANGES \<equiv> 16"

text \<open>\<open>usable\<close> has the same shape as \<open>spans\<close>; \<open>typePages\<close> is indexed by the region type.\<close>

record PmmMap =
  spans :: "PmmSpan list"
  maxPfn :: u64
  usable :: "PmmSpan list"
  loaderReclaim :: "PmmReclaimRange list"
  acpiReclaim :: "PmmReclaimRange list"
  acpiReclaimDroppedPages :: u64
  lowReservedPages :: u64
  unmappedPages :: u64
  typePages :: "u32 \<Rightarrow> u64"

definition emptyMap :: PmmMap where
  "emptyMap = \<lparr>spans = [], maxPfn = 0, usable = [], loaderReclaim = [], acpiReclaim = [],
     acpiReclaimDroppedPages = 0, lowReservedPages = 0, unmappedPages = 0, typePages = (\<lambda>_. 0)\<rparr>"

section \<open>Operations\<close>

definition PMM_LOW_MEM_LIMIT_PFN :: u64 where "PMM_LOW_MEM_LIMIT_PFN = 0x100"
definition PMM_HHDM_LIMIT_PFN :: u64 where "PMM_HHDM_LIMIT_PFN = 0x400000000"

lemmas pfn_limits = PMM_LOW_MEM_LIMIT_PFN_def PMM_HHDM_LIMIT_PFN_def

definition pmmMapTypeIsManaged :: "u32 \<Rightarrow> bool" where
  "pmmMapTypeIsManaged t \<longleftrightarrow> t = BOOT_MEM_USABLE \<or> t = BOOT_MEM_LOADER_RECLAIM \<or> t = BOOT_MEM_KERNEL
     \<or> t = BOOT_MEM_INITRD \<or> t = BOOT_MEM_ACPI_RECLAIM"

definition pmmReclaimClip :: "PmmReclaimRange \<Rightarrow> (u64 \<times> u64) option" where
  "pmmReclaimClip r =
     (let base0 = rr_base r; end0 = rr_base r + rr_len r;
          b = (if base0 < push_bit 12 PMM_LOW_MEM_LIMIT_PFN then push_bit 12 PMM_LOW_MEM_LIMIT_PFN else base0);
          e = (if end0 > push_bit 12 PMM_HHDM_LIMIT_PFN then push_bit 12 PMM_HHDM_LIMIT_PFN else end0)
      in if b \<ge> e then None else Some (b, e))"

definition alignDownPfn :: "u64 \<Rightarrow> u64" where
  "alignDownPfn pfn = pfn AND NOT (1024 - 1)"

definition alignUpPfn :: "u64 \<Rightarrow> u64" where
  "alignUpPfn pfn = (pfn + 1024 - 1) AND NOT (1024 - 1)"

definition pmmAddSpan :: "PmmMap \<Rightarrow> u64 \<Rightarrow> u64 \<Rightarrow> Status + PmmMap" where
  "pmmAddSpan out s0 e0 =
     (if s0 \<ge> e0 then Inr out
      else let s = alignDownPfn s0; e = alignUpPfn e0
        in if spans out \<noteq> [] \<and> s \<le> sp_end (last (spans out))
           then let l = last (spans out)
             in Inr (out\<lparr>spans := butlast (spans out) @ [l\<lparr>sp_end := max (sp_end l) e\<rparr>]\<rparr>)
           else if length (spans out) \<ge> PMM_MAX_SPANS then Inl STATUS_ERR_INVALID
           else Inr (out\<lparr>spans := spans out @ [\<lparr>sp_start = s, sp_end = e\<rparr>]\<rparr>))"

text \<open>The loop body of \<open>pmmMapScan\<close>, in the order of its five conditional parts.\<close>

definition scanLoader :: "BootMemRegion \<Rightarrow> PmmMap \<Rightarrow> Status + PmmMap" where
  "scanLoader r out =
     (if mtype r = BOOT_MEM_LOADER_RECLAIM then
        if length (loaderReclaim out) \<ge> PMM_MAX_RECLAIM_RANGES then Inl STATUS_ERR_INVALID
        else Inr (out\<lparr>loaderReclaim := loaderReclaim out @ [\<lparr>rr_base = base r, rr_len = len r\<rparr>]\<rparr>)
      else Inr out)"

definition scanAcpi :: "BootMemRegion \<Rightarrow> u64 \<Rightarrow> u64 \<Rightarrow> PmmMap \<Rightarrow> PmmMap" where
  "scanAcpi r s e out =
     (if mtype r = BOOT_MEM_ACPI_RECLAIM then
        if length (acpiReclaim out) \<ge> PMM_MAX_RECLAIM_RANGES
        then out\<lparr>acpiReclaimDroppedPages := acpiReclaimDroppedPages out + (e - s)\<rparr>
        else out\<lparr>acpiReclaim := acpiReclaim out @ [\<lparr>rr_base = base r, rr_len = len r\<rparr>]\<rparr>
      else out)"

definition scanUsable :: "BootMemRegion \<Rightarrow> u64 \<Rightarrow> u64 \<Rightarrow> PmmMap \<Rightarrow> Status + PmmMap" where
  "scanUsable r s e out =
     (if mtype r = BOOT_MEM_USABLE then
        let lowEnd = min e PMM_LOW_MEM_LIMIT_PFN;
            out1 = (if s < lowEnd then out\<lparr>lowReservedPages := lowReservedPages out + (lowEnd - s)\<rparr> else out);
            usableStart = max s PMM_LOW_MEM_LIMIT_PFN;
            usableEnd = min e PMM_HHDM_LIMIT_PFN;
            highStart = max s PMM_HHDM_LIMIT_PFN;
            high = (\<lambda>out. if highStart < e then out\<lparr>unmappedPages := unmappedPages out + (e - highStart)\<rparr> else out)
        in if usableStart < usableEnd then
             if length (usable out1) \<ge> PMM_MAX_USABLE_RANGES then Inl STATUS_ERR_INVALID
             else Inr (high (out1\<lparr>usable := usable out1 @ [\<lparr>sp_start = usableStart, sp_end = usableEnd\<rparr>]\<rparr>))
           else Inr (high out1)
      else Inr out)"

definition scanSpan :: "BootMemRegion \<Rightarrow> u64 \<Rightarrow> u64 \<Rightarrow> PmmMap \<Rightarrow> Status + PmmMap" where
  "scanSpan r s e out =
     (if pmmMapTypeIsManaged (mtype r) then
        let clipEnd = min e PMM_HHDM_LIMIT_PFN
        in if s < clipEnd then pmmAddSpan out s clipEnd else Inr out
      else Inr out)"

definition scanRegion :: "BootMemRegion \<Rightarrow> PmmMap \<Rightarrow> Status + PmmMap" where
  "scanRegion r out =
     (if base r AND 0xFFF \<noteq> 0 \<or> len r AND 0xFFF \<noteq> 0 then Inl STATUS_ERR_INVALID
      else if mtype r < BOOT_MEM_USABLE \<or> mtype r > BOOT_MEM_FRAMEBUFFER then Inl STATUS_ERR_INVALID
      else let s = drop_bit 12 (base r); e = drop_bit 12 (base r + len r);
               out1 = out\<lparr>typePages := (typePages out)(mtype r := typePages out (mtype r) + (e - s))\<rparr>
        in case scanLoader r out1 of
             Inl er \<Rightarrow> Inl er
           | Inr out2 \<Rightarrow>
               (case scanUsable r s e (scanAcpi r s e out2) of
                  Inl er \<Rightarrow> Inl er
                | Inr out3 \<Rightarrow> scanSpan r s e out3))"

fun scanLoop :: "BootMemRegion list \<Rightarrow> PmmMap \<Rightarrow> Status + PmmMap" where
  "scanLoop [] out = Inr out"
| "scanLoop (r # rs) out = (case scanRegion r out of Inl er \<Rightarrow> Inl er | Inr out1 \<Rightarrow> scanLoop rs out1)"

definition pmmMapScan :: "BootMemRegion list \<Rightarrow> Status + PmmMap" where
  "pmmMapScan regions =
     (case scanLoop regions emptyMap of
        Inl er \<Rightarrow> Inl er
      | Inr out \<Rightarrow> Inr (out\<lparr>maxPfn := (if spans out \<noteq> [] then sp_end (last (spans out)) else 0)\<rparr>))"

text \<open>\<open>pmmPfnValid\<close>: binary search over the span table.\<close>

function spanSearch :: "PmmSpan list \<Rightarrow> u64 \<Rightarrow> nat \<Rightarrow> nat \<Rightarrow> bool" where
  "spanSearch ss pfn lo hi =
     (if lo < hi then
        let mid = lo + (hi - lo) div 2; s = ss ! mid
        in if pfn < sp_start s then spanSearch ss pfn lo mid
           else if pfn \<ge> sp_end s then spanSearch ss pfn (mid + 1) hi
           else True
      else False)"
  by pat_completeness auto
termination by (relation "measure (\<lambda>(ss, pfn, lo, hi). hi - lo)") auto

declare spanSearch.simps [simp del]

definition pmmPfnValid :: "PmmMap \<Rightarrow> u64 \<Rightarrow> bool" where
  "pmmPfnValid mp pfn = spanSearch (spans mp) pfn 0 (length (spans mp))"

section \<open>The span table\<close>

definition spanExt :: "PmmSpan \<Rightarrow> ext" where
  "spanExt s = (unat (sp_start s), unat (sp_end s))"

abbreviation spanExts :: "PmmSpan list \<Rightarrow> ext list" where
  "spanExts ss \<equiv> map spanExt ss"

definition spansOk :: "PmmSpan list \<Rightarrow> bool" where
  "spansOk ss \<longleftrightarrow> exts_ok 0 (unat PMM_HHDM_LIMIT_PFN) (spanExts ss)
     \<and> (\<forall>s \<in> set ss. 1024 dvd unat (sp_start s) \<and> 1024 dvd unat (sp_end s))"

definition spanned :: "PmmSpan list \<Rightarrow> nat set" where
  "spanned ss = cover (spanExts ss)"

text \<open>In a table of sorted separated spans the binary search decides membership.\<close>

lemma exts_ok_sorted:
  "exts_ok lo hi es \<Longrightarrow> i < j \<Longrightarrow> j < length es \<Longrightarrow> snd (es ! i) < fst (es ! j)"
proof (induction lo hi es arbitrary: i j rule: exts_ok.induct)
  case (2 lo hi a b es)
  show ?case
  proof (cases i)
    case 0
    obtain j' where j: "j = Suc j'" using 2 by (cases j) auto
    have "es ! j' \<in> set es" using 2 j by simp
    then have "Suc b \<le> fst (es ! j')"
      using exts_ok_ends [of "Suc b" hi es "fst (es ! j')" "snd (es ! j')"] 2 by simp
    then show ?thesis using 0 j by simp
  next
    case (Suc i')
    then show ?thesis using 2 by (cases j) auto
  qed
qed simp

lemma spans_nth:
  assumes "exts_ok lo0 hi0 (spanExts ss)" "j < length ss"
  shows "sp_start (ss ! j) < sp_end (ss ! j)" and "i < j \<Longrightarrow> sp_end (ss ! i) < sp_start (ss ! j)"
proof -
  have "spanExt (ss ! j) \<in> set (spanExts ss)" using assms(2) by simp
  then show "sp_start (ss ! j) < sp_end (ss ! j)"
    using exts_ok_ends [OF assms(1), of "fst (spanExt (ss ! j))" "snd (spanExt (ss ! j))"]
    by (simp add: spanExt_def word_less_nat_alt)
  show "i < j \<Longrightarrow> sp_end (ss ! i) < sp_start (ss ! j)"
    using exts_ok_sorted [OF assms(1), of i j] assms(2) by (simp add: spanExt_def word_less_nat_alt)
qed

lemma spanSearch_correct:
  assumes "exts_ok lo0 hi0 (spanExts ss)" "hi \<le> length ss"
  shows "spanSearch ss pfn lo hi \<longleftrightarrow> (\<exists>i. lo \<le> i \<and> i < hi \<and> sp_start (ss ! i) \<le> pfn \<and> pfn < sp_end (ss ! i))"
  using assms
proof (induction ss pfn lo hi rule: spanSearch.induct)
  case (1 ss pfn lo hi)
  show ?case
  proof (cases "lo < hi")
    case False
    then show ?thesis by (subst spanSearch.simps) auto
  next
    case True
    define mid where "mid = lo + (hi - lo) div 2"
    have mid: "lo \<le> mid" "mid < hi" using True by (auto simp: mid_def)
    have lm: "mid < length ss" using mid 1(4) by simp
    note sm = spans_nth [OF 1(3) lm]
    have eq: "spanSearch ss pfn lo hi = (if pfn < sp_start (ss ! mid) then spanSearch ss pfn lo mid
        else if pfn \<ge> sp_end (ss ! mid) then spanSearch ss pfn (mid + 1) hi else True)"
      using True by (subst spanSearch.simps) (simp add: Let_def mid_def)
    consider "pfn < sp_start (ss ! mid)" | "sp_end (ss ! mid) \<le> pfn"
      | "sp_start (ss ! mid) \<le> pfn" "pfn < sp_end (ss ! mid)" by fastforce
    then show ?thesis
    proof cases
      case a: 1
      have "i < mid" if "i < hi" "sp_start (ss ! i) \<le> pfn" for i
      proof (rule ccontr)
        assume "\<not> i < mid"
        then have "sp_start (ss ! mid) \<le> sp_start (ss ! i)"
          using spans_nth(2) [OF 1(3), of i mid] that sm(1) 1(4) by (cases "i = mid") auto
        then show False using a that(2) by simp
      qed
      then show ?thesis using 1(1) [OF True mid_def refl a 1(3)] eq a mid 1(4) by auto
    next
      case b: 2
      then have nb: "\<not> pfn < sp_start (ss ! mid)" using sm(1) by simp
      have "mid < i" if "pfn < sp_end (ss ! i)" for i
      proof (rule ccontr)
        assume "\<not> mid < i"
        then have "sp_end (ss ! i) \<le> sp_end (ss ! mid)"
          using sm(1) sm(2) [of i] by (cases "i = mid") auto
        then show False using b that by simp
      qed
      then have "(\<exists>i. mid + 1 \<le> i \<and> i < hi \<and> sp_start (ss ! i) \<le> pfn \<and> pfn < sp_end (ss ! i))
          \<longleftrightarrow> (\<exists>i. lo \<le> i \<and> i < hi \<and> sp_start (ss ! i) \<le> pfn \<and> pfn < sp_end (ss ! i))"
        using mid(1) by (metis Suc_eq_plus1 Suc_leI le_trans less_imp_le)
      then show ?thesis using 1(2) [OF True mid_def refl nb b 1(3,4)] eq b nb by simp
    next
      case 3
      then show ?thesis using eq mid by auto
    qed
  qed
qed

lemma pmmPfnValid_iff:
  assumes "spansOk (spans mp)"
  shows "pmmPfnValid mp pfn \<longleftrightarrow> unat pfn \<in> spanned (spans mp)"
proof -
  have "pmmPfnValid mp pfn \<longleftrightarrow> (\<exists>s \<in> set (spans mp). sp_start s \<le> pfn \<and> pfn < sp_end s)"
    using spanSearch_correct [of 0 "unat PMM_HHDM_LIMIT_PFN" "spans mp" "length (spans mp)" pfn 0] assms
    unfolding pmmPfnValid_def spansOk_def by (auto simp: Bex_def in_set_conv_nth)
  then show ?thesis
    by (auto simp: spanned_def cover_def spanExt_def word_less_nat_alt word_le_nat_alt)
qed

section \<open>Alignment\<close>

lemma and_not_mask_10: "(x :: u64) AND NOT 1023 = push_bit 10 (drop_bit 10 x)"
proof -
  have "(1023 :: u64) = mask 10" by (simp add: mask_eq_exp_minus_1)
  then show ?thesis by (simp add: bits_ident bit_eq_iff bit_simps) (auto simp: bit_simps)
qed

lemma unat_and_not_mask_10: "unat ((x :: u64) AND - 1024) = unat x div 1024 * 1024"
proof -
  have n: "(- 1024 :: u64) = NOT 1023" by simp
  have "unat x div 1024 * 1024 < 2 ^ 64"
    using unat_lt_64 [of x] div_times_less_eq_dividend [of "unat x" 1024] by simp
  then show ?thesis
    unfolding n and_not_mask_10 push_bit_eq_mult drop_bit_eq_div
    by (subst unat_mult_nowrap) (simp_all add: unat_div)
qed

lemma alignDownPfn_unat: "unat (alignDownPfn p) = unat p div 1024 * 1024"
  by (simp add: alignDownPfn_def unat_and_not_mask_10)

lemma alignUpPfn_unat:
  assumes "p \<le> PMM_HHDM_LIMIT_PFN"
  shows "unat (alignUpPfn p) = (unat p + 1023) div 1024 * 1024"
proof -
  have "unat (p + 1023) = unat p + 1023"
    using assms by (subst unat_add_nowrap) (auto simp: pfn_limits word_le_nat_alt)
  then show ?thesis by (simp add: alignUpPfn_def unat_and_not_mask_10 add.commute)
qed

lemma align_bounds:
  fixes s e :: nat
  shows "s div 1024 * 1024 \<le> s" "e \<le> (e + 1023) div 1024 * 1024"
    "e \<le> 17179869184 \<Longrightarrow> (e + 1023) div 1024 * 1024 \<le> 17179869184"
proof -
  assume "e \<le> 17179869184"
  then have "(e + 1023) div 1024 \<le> 16777216" using div_le_mono [of "e + 1023" "17179869184 + 1023" 1024] by simp
  then show "(e + 1023) div 1024 * 1024 \<le> 17179869184" by simp
qed linarith+

section \<open>Adding a span\<close>

text \<open>Regions arrive in order, so a new region never starts below the last span.\<close>

lemma pmmAddSpan_ok:
  assumes ok: "spansOk (spans out)" and lt: "s < e" and le: "e \<le> PMM_HHDM_LIMIT_PFN"
    and ord: "\<And>x. x \<in> set (spans out) \<Longrightarrow> sp_start x \<le> s" and r: "pmmAddSpan out s e = Inr out'"
  shows "spansOk (spans out')" "spanned (spans out) \<union> {unat s..<unat e} \<subseteq> spanned (spans out')"
    "\<And>x. x \<in> set (spans out') \<Longrightarrow> sp_start x \<le> s" "out' = out\<lparr>spans := spans out'\<rparr>"
proof -
  define s1 e1 where "s1 = alignDownPfn s" and "e1 = alignUpPfn e"
  have u: "unat s1 = unat s div 1024 * 1024" "unat e1 = (unat e + 1023) div 1024 * 1024"
    using le by (simp_all add: s1_def e1_def alignDownPfn_unat alignUpPfn_unat)
  have b: "unat s1 \<le> unat s" "unat e \<le> unat e1" "unat e1 \<le> 17179869184" "1024 dvd unat s1" "1024 dvd unat e1"
    using le align_bounds [of "unat s"] align_bounds [of "unat e"] unfolding u
    by (auto simp: word_le_nat_alt pfn_limits)
  have se: "unat s < unat e" using lt by (simp add: word_less_nat_alt)
  have out': "spans out' = (if spans out \<noteq> [] \<and> s1 \<le> sp_end (last (spans out))
      then butlast (spans out) @ [(last (spans out))\<lparr>sp_end := max (sp_end (last (spans out))) e1\<rparr>]
      else spans out @ [\<lparr>sp_start = s1, sp_end = e1\<rparr>]) \<and> out' = out\<lparr>spans := spans out'\<rparr>"
    using r lt by (auto simp: pmmAddSpan_def Let_def s1_def [symmetric] e1_def [symmetric] split: if_splits)
  then show "out' = out\<lparr>spans := spans out'\<rparr>" by blast
  have st: "sp_start x \<le> s1" if "x \<in> set (spans out)" for x
  proof -
    have "1024 dvd unat (sp_start x)" "unat (sp_start x) \<le> unat s"
      using ok that ord [OF that] by (auto simp: spansOk_def word_le_nat_alt)
    then have "unat (sp_start x) div 1024 * 1024 \<le> unat s div 1024 * 1024" "unat (sp_start x) div 1024 * 1024 = unat (sp_start x)"
      by (auto intro: div_le_mono)
    then show ?thesis unfolding word_le_nat_alt u by simp
  qed
  have s1s: "s1 \<le> s" using b by (simp add: word_le_nat_alt)
  have "spansOk (spans out') \<and> spanned (spans out) \<union> {unat s..<unat e} \<subseteq> spanned (spans out')
    \<and> (\<forall>x \<in> set (spans out'). sp_start x \<le> s1)"
  proof (cases "spans out \<noteq> [] \<and> s1 \<le> sp_end (last (spans out))")
    case True
    then obtain xs l where xl: "spans out = xs @ [l]" by (metis append_butlast_last_id)
    have o: "spans out' = xs @ [l\<lparr>sp_end := max (sp_end l) e1\<rparr>]" using out' True xl by simp
    have me: "unat (max (sp_end l) e1) = max (unat (sp_end l)) (unat e1)"
      by (simp add: max_def word_le_nat_alt)
    have "unat (sp_start l) \<le> unat s" using ord xl by (simp add: word_le_nat_alt)
    then show ?thesis using ok b st True se unfolding o xl spansOk_def spanned_def
      by (auto simp: exts_ok_append spanExt_def me next_lo_def pfn_limits word_le_nat_alt max_def)
  next
    case False
    then have o: "spans out' = spans out @ [\<lparr>sp_start = s1, sp_end = e1\<rparr>]" using out' by auto
    have "next_lo 0 (spanExts (spans out)) \<le> unat s1"
      using False by (auto simp: next_lo_def last_map spanExt_def word_le_nat_alt)
    then show ?thesis using ok b st se unfolding o spansOk_def spanned_def
      by (auto simp: exts_ok_append spanExt_def pfn_limits)
  qed
  then show "spansOk (spans out')" "spanned (spans out) \<union> {unat s..<unat e} \<subseteq> spanned (spans out')"
    "\<And>x. x \<in> set (spans out') \<Longrightarrow> sp_start x \<le> s" using s1s by force+
qed

section \<open>The scan\<close>

text \<open>The BootInfo contract: regions sorted, disjoint and not wrapping, starting at \<open>lo\<close>.\<close>

fun regionsOk :: "nat \<Rightarrow> BootMemRegion list \<Rightarrow> bool" where
  "regionsOk lo [] = True"
| "regionsOk lo (r # rs) = (lo \<le> unat (base r) \<and> unat (base r) + unat (len r) < 2 ^ 64
     \<and> regionsOk (unat (base r) + unat (len r)) rs)"

definition rangePages :: "PmmSpan list \<Rightarrow> u64" where
  "rangePages us = (\<Sum>u \<leftarrow> us. sp_end u - sp_start u)"

definition usableOk :: "PmmSpan list \<Rightarrow> PmmSpan list \<Rightarrow> bool" where
  "usableOk ss us \<longleftrightarrow> sorted_wrt (\<lambda>x y. sp_end x \<le> sp_start y) us
     \<and> (\<forall>u \<in> set us. PMM_LOW_MEM_LIMIT_PFN \<le> sp_start u \<and> sp_start u < sp_end u \<and> sp_end u \<le> PMM_HHDM_LIMIT_PFN
          \<and> {unat (sp_start u)..<unat (sp_end u)} \<subseteq> spanned ss)"

definition scanInv :: "nat \<Rightarrow> PmmMap \<Rightarrow> bool" where
  "scanInv lo out \<longleftrightarrow> spansOk (spans out) \<and> usableOk (spans out) (usable out)
     \<and> (\<forall>x \<in> set (spans out). 4096 * unat (sp_start x) \<le> lo)
     \<and> (\<forall>u \<in> set (usable out). 4096 * unat (sp_end u) \<le> lo)
     \<and> typePages out BOOT_MEM_USABLE = lowReservedPages out + rangePages (usable out) + unmappedPages out
     \<and> length (spans out) \<le> PMM_MAX_SPANS \<and> length (usable out) \<le> PMM_MAX_USABLE_RANGES
     \<and> length (loaderReclaim out) \<le> PMM_MAX_RECLAIM_RANGES \<and> length (acpiReclaim out) \<le> PMM_MAX_RECLAIM_RANGES"

lemma and_FFF: "(x :: u64) AND 0xFFF = 0 \<longleftrightarrow> 4096 dvd unat x"
proof -
  have m: "(0xFFF :: u64) = mask 12" by (simp add: mask_eq_exp_minus_1)
  have "x AND 0xFFF = 0 \<longleftrightarrow> x mod 4096 = 0" unfolding m by (simp add: take_bit_eq_mask [symmetric] take_bit_eq_mod)
  then show ?thesis by (simp add: unat_mod_eq_0 dvd_eq_mod_eq_0)
qed

lemma unat_drop_12: "unat (drop_bit 12 (x :: u64)) = unat x div 4096"
  by (simp add: drop_bit_eq_div unat_div)

text \<open>The three counted pieces of a usable region add up to it.\<close>

lemma usable_pieces:
  fixes s e lo hi :: u64
  assumes "s \<le> e" "lo \<le> hi"
  shows "(if s < min e lo then min e lo - s else 0) + (if max s lo < min e hi then min e hi - max s lo else 0)
    + (if max s hi < e then e - max s hi else 0) = e - s"
  using assms by (auto simp: min_def max_def)

lemma scanUsable_usable:
  assumes "scanUsable r s e out = Inr out'" "mtype r = BOOT_MEM_USABLE"
  shows "spans out' = spans out \<and> typePages out' = typePages out
    \<and> loaderReclaim out' = loaderReclaim out \<and> acpiReclaim out' = acpiReclaim out
    \<and> usable out' = usable out @ (if max s PMM_LOW_MEM_LIMIT_PFN < min e PMM_HHDM_LIMIT_PFN
         then [\<lparr>sp_start = max s PMM_LOW_MEM_LIMIT_PFN, sp_end = min e PMM_HHDM_LIMIT_PFN\<rparr>] else [])
    \<and> lowReservedPages out' = lowReservedPages out
         + (if s < min e PMM_LOW_MEM_LIMIT_PFN then min e PMM_LOW_MEM_LIMIT_PFN - s else 0)
    \<and> unmappedPages out' = unmappedPages out
         + (if max s PMM_HHDM_LIMIT_PFN < e then e - max s PMM_HHDM_LIMIT_PFN else 0)
    \<and> (length (usable out) \<le> PMM_MAX_USABLE_RANGES \<longrightarrow> length (usable out') \<le> PMM_MAX_USABLE_RANGES)"
  using assms by (simp add: scanUsable_def Let_def split: if_splits) auto

lemma scanRegion_parts:
  assumes "scanRegion r out = Inr out'"
  defines "s \<equiv> drop_bit 12 (base r)" and "e \<equiv> drop_bit 12 (base r + len r)"
  obtains out2 out3 where "4096 dvd unat (base r)" "4096 dvd unat (len r)"
    "scanUsable r s e out2 = Inr out3" "scanSpan r s e out3 = Inr out'"
    "spans out2 = spans out" "usable out2 = usable out" "lowReservedPages out2 = lowReservedPages out"
    "unmappedPages out2 = unmappedPages out"
    "typePages out2 = (typePages out)(mtype r := typePages out (mtype r) + (e - s))"
    "length (loaderReclaim out) \<le> PMM_MAX_RECLAIM_RANGES \<Longrightarrow> length (loaderReclaim out2) \<le> PMM_MAX_RECLAIM_RANGES"
    "length (acpiReclaim out) \<le> PMM_MAX_RECLAIM_RANGES \<Longrightarrow> length (acpiReclaim out2) \<le> PMM_MAX_RECLAIM_RANGES"
proof -
  obtain out2' out3 where l: "scanLoader r (out\<lparr>typePages := (typePages out)(mtype r := typePages out (mtype r) + (e - s))\<rparr>) = Inr out2'"
    and u: "scanUsable r s e (scanAcpi r s e out2') = Inr out3" and p: "scanSpan r s e out3 = Inr out'"
    and a: "base r AND 0xFFF = 0" "len r AND 0xFFF = 0"
    using assms(1) unfolding scanRegion_def Let_def s_def [symmetric] e_def [symmetric]
    by (auto split: if_splits sum.splits)
  show thesis
    by (rule that [OF _ _ u p]) (use l a in \<open>auto simp: scanLoader_def scanAcpi_def and_FFF split: if_splits\<close>)
qed

lemma scanSpan_parts:
  assumes "scanSpan r s e out = Inr out'"
  shows "(if pmmMapTypeIsManaged (mtype r) \<and> s < min e PMM_HHDM_LIMIT_PFN
     then pmmAddSpan out s (min e PMM_HHDM_LIMIT_PFN) = Inr out' else out' = out)"
  using assms by (auto simp: scanSpan_def Let_def split: if_splits)

lemma pmmAddSpan_length:
  "pmmAddSpan out s e = Inr out' \<Longrightarrow> length (spans out) \<le> PMM_MAX_SPANS \<Longrightarrow> length (spans out') \<le> PMM_MAX_SPANS"
  by (auto simp: pmmAddSpan_def Let_def split: if_splits)

definition regionFrames :: "BootMemRegion \<Rightarrow> nat set" where
  "regionFrames r = {unat (base r) div 4096..<(unat (base r) + unat (len r)) div 4096}"

definition managedFrames :: "BootMemRegion \<Rightarrow> nat set" where
  "managedFrames r = (if pmmMapTypeIsManaged (mtype r) then regionFrames r \<inter> {..<unat PMM_HHDM_LIMIT_PFN} else {})"

lemma scanSpan_ok:
  assumes ok: "spansOk (spans out)" and lo: "\<forall>x \<in> set (spans out). sp_start x \<le> s"
    and r: "scanSpan r s e out = Inr out'"
  shows "spansOk (spans out') \<and> (\<forall>x \<in> set (spans out'). sp_start x \<le> s)
    \<and> spanned (spans out) \<subseteq> spanned (spans out') \<and> out' = out\<lparr>spans := spans out'\<rparr>
    \<and> (length (spans out) \<le> PMM_MAX_SPANS \<longrightarrow> length (spans out') \<le> PMM_MAX_SPANS)
    \<and> (pmmMapTypeIsManaged (mtype r) \<longrightarrow> {unat s..<unat (min e PMM_HHDM_LIMIT_PFN)} \<subseteq> spanned (spans out'))"
proof (cases "pmmMapTypeIsManaged (mtype r) \<and> s < min e PMM_HHDM_LIMIT_PFN")
  case True
  then have a: "pmmAddSpan out s (min e PMM_HHDM_LIMIT_PFN) = Inr out'" using scanSpan_parts [OF r] by simp
  have lt: "s < min e PMM_HHDM_LIMIT_PFN" using True by simp
  have l: "\<And>x. x \<in> set (spans out) \<Longrightarrow> sp_start x \<le> s" using lo by blast
  note A = pmmAddSpan_ok [OF ok lt min.cobounded2 l a]
  show ?thesis using A pmmAddSpan_length [OF a] by blast
next
  case False
  then have "out' = out" using scanSpan_parts [OF r] by auto
  then show ?thesis using False ok lo by (auto simp: word_less_nat_alt)
qed

lemma scanUsable_account:
  assumes u: "scanUsable r s e out = Inr out'" and se: "s \<le> e"
  shows "\<exists>new. usable out' = usable out @ new \<and> spans out' = spans out
    \<and> (\<forall>u \<in> set new. mtype r = BOOT_MEM_USABLE \<and> s \<le> sp_start u \<and> PMM_LOW_MEM_LIMIT_PFN \<le> sp_start u
         \<and> sp_start u < sp_end u \<and> sp_end u = min e PMM_HHDM_LIMIT_PFN) \<and> length new \<le> 1
    \<and> lowReservedPages out' + rangePages new + unmappedPages out'
      = lowReservedPages out + unmappedPages out + (if mtype r = BOOT_MEM_USABLE then e - s else 0)
    \<and> typePages out' = typePages out \<and> loaderReclaim out' = loaderReclaim out \<and> acpiReclaim out' = acpiReclaim out
    \<and> (length (usable out) \<le> PMM_MAX_USABLE_RANGES \<longrightarrow> length (usable out') \<le> PMM_MAX_USABLE_RANGES)"
proof (cases "mtype r = BOOT_MEM_USABLE")
  case True
  let ?new = "if max s PMM_LOW_MEM_LIMIT_PFN < min e PMM_HHDM_LIMIT_PFN
    then [\<lparr>sp_start = max s PMM_LOW_MEM_LIMIT_PFN, sp_end = min e PMM_HHDM_LIMIT_PFN\<rparr>] else []"
  have "PMM_LOW_MEM_LIMIT_PFN \<le> PMM_HHDM_LIMIT_PFN" by (simp add: pfn_limits)
  note pc = usable_pieces [OF se this]
  note U = scanUsable_usable [OF u True]
  have rp: "rangePages ?new = (if max s PMM_LOW_MEM_LIMIT_PFN < min e PMM_HHDM_LIMIT_PFN
      then min e PMM_HHDM_LIMIT_PFN - max s PMM_LOW_MEM_LIMIT_PFN else 0)"
    by (simp add: rangePages_def)
  have "lowReservedPages out' + rangePages ?new + unmappedPages out' = lowReservedPages out + unmappedPages out + (e - s)"
    unfolding pc [symmetric] rp using U by (simp only: ac_simps)
  then show ?thesis using U True by (intro exI [of _ ?new]) auto
next
  case False
  then have "out' = out" using u by (simp add: scanUsable_def)
  then show ?thesis using False by (intro exI [of _ "[]"]) (simp add: rangePages_def)
qed

lemma scanRegion_inv:
  assumes i: "scanInv lo out" and lo: "lo \<le> unat (base r)" and nw: "unat (base r) + unat (len r) < 2 ^ 64"
    and r: "scanRegion r out = Inr out'"
  shows "scanInv (unat (base r) + unat (len r)) out'" and "spanned (spans out) \<subseteq> spanned (spans out')"
    and "managedFrames r \<subseteq> spanned (spans out')"
proof -
  define s e where "s = drop_bit 12 (base r)" and "e = drop_bit 12 (base r + len r)"
  obtain out2 out3 where al: "4096 dvd unat (base r)" "4096 dvd unat (len r)"
    and u: "scanUsable r s e out2 = Inr out3" and sp: "scanSpan r s e out3 = Inr out'"
    and o2: "spans out2 = spans out" "usable out2 = usable out" "lowReservedPages out2 = lowReservedPages out"
      "unmappedPages out2 = unmappedPages out"
      "typePages out2 = (typePages out)(mtype r := typePages out (mtype r) + (e - s))"
    and len2: "length (loaderReclaim out) \<le> PMM_MAX_RECLAIM_RANGES \<Longrightarrow> length (loaderReclaim out2) \<le> PMM_MAX_RECLAIM_RANGES"
      "length (acpiReclaim out) \<le> PMM_MAX_RECLAIM_RANGES \<Longrightarrow> length (acpiReclaim out2) \<le> PMM_MAX_RECLAIM_RANGES"
    unfolding s_def e_def by (rule scanRegion_parts [OF r]) blast
  have us: "unat s = unat (base r) div 4096" "unat e = (unat (base r) + unat (len r)) div 4096"
    using nw unat_add_nowrap [of "base r" "len r"] by (simp_all add: s_def e_def unat_drop_12)
  have us4: "4096 * unat s = unat (base r)" "4096 * unat e = unat (base r) + unat (len r)"
    unfolding us using al by (auto simp: dvd_add)
  have se: "s \<le> e" using us4 by (simp add: word_le_nat_alt)
  obtain new where N: "usable out3 = usable out @ new" "spans out3 = spans out" "length new \<le> 1"
    and Nu: "\<And>u. u \<in> set new \<Longrightarrow> mtype r = BOOT_MEM_USABLE \<and> s \<le> sp_start u \<and> PMM_LOW_MEM_LIMIT_PFN \<le> sp_start u
         \<and> sp_start u < sp_end u \<and> sp_end u = min e PMM_HHDM_LIMIT_PFN"
    and acc: "lowReservedPages out3 + rangePages new + unmappedPages out3
      = lowReservedPages out + unmappedPages out + (if mtype r = BOOT_MEM_USABLE then e - s else 0)"
    and o3: "typePages out3 = typePages out2" "loaderReclaim out3 = loaderReclaim out2" "acpiReclaim out3 = acpiReclaim out2"
      "length (usable out) \<le> PMM_MAX_USABLE_RANGES \<Longrightarrow> length (usable out3) \<le> PMM_MAX_USABLE_RANGES"
    using scanUsable_account [OF u se] unfolding o2(1-4) by blast
  have I: "spansOk (spans out)" "usableOk (spans out) (usable out)"
    "\<forall>x \<in> set (spans out). 4096 * unat (sp_start x) \<le> lo" "\<forall>u \<in> set (usable out). 4096 * unat (sp_end u) \<le> lo"
    "typePages out BOOT_MEM_USABLE = lowReservedPages out + rangePages (usable out) + unmappedPages out"
    "length (spans out) \<le> PMM_MAX_SPANS" "length (usable out) \<le> PMM_MAX_USABLE_RANGES"
    "length (loaderReclaim out) \<le> PMM_MAX_RECLAIM_RANGES" "length (acpiReclaim out) \<le> PMM_MAX_RECLAIM_RANGES"
    using i by (auto simp: scanInv_def)
  have ls: "sp_start x \<le> s" if "x \<in> set (spans out)" for x
    using I(3) that lo us4(1) by (force simp: word_le_nat_alt)
  have "\<forall>x \<in> set (spans out3). sp_start x \<le> s" using ls N(2) by simp
  from scanSpan_ok [OF _ this sp] I(1) N(2)
  have S: "spansOk (spans out')" "\<forall>x \<in> set (spans out'). sp_start x \<le> s" "spanned (spans out) \<subseteq> spanned (spans out')"
    "out' = out3\<lparr>spans := spans out'\<rparr>" "length (spans out) \<le> PMM_MAX_SPANS \<longrightarrow> length (spans out') \<le> PMM_MAX_SPANS"
    "pmmMapTypeIsManaged (mtype r) \<longrightarrow> {unat s..<unat (min e PMM_HHDM_LIMIT_PFN)} \<subseteq> spanned (spans out')" by auto
  show "spanned (spans out) \<subseteq> spanned (spans out')" by (rule S(3))
  have mn: "unat (min e PMM_HHDM_LIMIT_PFN) = min (unat e) (unat PMM_HHDM_LIMIT_PFN)"
    by (simp add: min_def word_le_nat_alt)
  show "managedFrames r \<subseteq> spanned (spans out')"
    using S(6) us mn by (auto simp: managedFrames_def regionFrames_def)
  have eq': "usable out' = usable out @ new" "typePages out' = typePages out2" "lowReservedPages out' = lowReservedPages out3"
    "unmappedPages out' = unmappedPages out3" "loaderReclaim out' = loaderReclaim out2" "acpiReclaim out' = acpiReclaim out2"
    by (subst S(4), simp add: N o3)+
  have pos: "4096 * unat (sp_start x) \<le> unat (base r) + unat (len r)" if "x \<in> set (spans out')" for x
    using S(2) that us4(1) by (force simp: word_le_nat_alt)
  have uend: "4096 * unat (sp_end v) \<le> unat (base r) + unat (len r)" if "v \<in> set (usable out @ new)" for v
  proof (cases "v \<in> set new")
    case True
    then show ?thesis using Nu [OF True] mn us4(2) by simp
  next
    case False
    then show ?thesis using I(4) that lo by force
  qed
  have uo: "usableOk (spans out') (usable out @ new)"
    unfolding usableOk_def
  proof (intro conjI ballI)
    have "sp_end x \<le> sp_start y" if "x \<in> set (usable out)" "y \<in> set new" for x y
      using I(4) that(1) lo us4(1) Nu [OF that(2)] by (force simp: word_le_nat_alt)
    moreover have "sorted_wrt (\<lambda>x y. sp_end x \<le> sp_start y) new" using N(3) by (cases new) auto
    ultimately show "sorted_wrt (\<lambda>x y. sp_end x \<le> sp_start y) (usable out @ new)"
      using I(2) by (auto simp: sorted_wrt_append usableOk_def)
  next
    fix v assume v: "v \<in> set (usable out @ new)"
    show "{unat (sp_start v)..<unat (sp_end v)} \<subseteq> spanned (spans out')"
    proof (cases "v \<in> set new")
      case True
      then have "{unat s..<unat (min e PMM_HHDM_LIMIT_PFN)} \<subseteq> spanned (spans out')" "unat s \<le> unat (sp_start v)"
        "unat (sp_end v) = unat (min e PMM_HHDM_LIMIT_PFN)"
        using S(6) Nu [OF True] by (auto simp: pmmMapTypeIsManaged_def word_le_nat_alt)
      then show ?thesis by auto
    next
      case False
      then show ?thesis using I(2) v S(3) by (auto simp: usableOk_def)
    qed
  qed (use I(2) Nu in \<open>auto simp: usableOk_def\<close>)
  have "typePages out' BOOT_MEM_USABLE = lowReservedPages out' + rangePages (usable out') + unmappedPages out'"
  proof -
    have "rangePages (usable out @ new) = rangePages (usable out) + rangePages new" by (simp add: rangePages_def)
    moreover have "typePages out' BOOT_MEM_USABLE = typePages out BOOT_MEM_USABLE + (if mtype r = BOOT_MEM_USABLE then e - s else 0)"
      unfolding eq' o2 by simp
    ultimately show ?thesis unfolding eq' I(5) using acc by (simp add: algebra_simps)
  qed
  then show "scanInv (unat (base r) + unat (len r)) out'"
    unfolding scanInv_def using S(1,5) uo pos uend I(6-9) o3 len2 N eq' by simp
qed

lemma scanLoop_inv:
  assumes "regionsOk lo rs" "scanInv lo out" "scanLoop rs out = Inr out'"
  shows "(\<exists>hi. scanInv hi out') \<and> spanned (spans out) \<subseteq> spanned (spans out')
    \<and> (\<forall>r \<in> set rs. managedFrames r \<subseteq> spanned (spans out'))"
  using assms
proof (induction rs out arbitrary: lo rule: scanLoop.induct)
  case (1 out)
  then show ?case by auto
next
  case (2 r rs out)
  then obtain out1 where r: "scanRegion r out = Inr out1" and l: "scanLoop rs out1 = Inr out'"
    by (auto split: sum.splits)
  note R = scanRegion_inv [OF 2(3) _ _ r]
  have "(\<exists>hi. scanInv hi out') \<and> spanned (spans out1) \<subseteq> spanned (spans out')
    \<and> (\<forall>r \<in> set rs. managedFrames r \<subseteq> spanned (spans out'))"
    using 2(1) [OF r _ _ l] 2(2) R(1) by fastforce
  then show ?case using R(2,3) 2(2) by (simp, blast)
qed

lemma emptyMap_inv: "scanInv 0 emptyMap"
  by (simp add: scanInv_def emptyMap_def spansOk_def usableOk_def rangePages_def)

lemma pmmMapScan_inv:
  assumes ok: "regionsOk 0 rs" and r: "pmmMapScan rs = Inr mp"
  shows "\<exists>hi. scanInv hi mp" and "\<And>r. r \<in> set rs \<Longrightarrow> managedFrames r \<subseteq> spanned (spans mp)"
proof -
  obtain out where l: "scanLoop rs emptyMap = Inr out"
    and mp: "mp = out\<lparr>maxPfn := (if spans out \<noteq> [] then sp_end (last (spans out)) else 0)\<rparr>"
    using r by (auto simp: pmmMapScan_def split: sum.splits)
  note L = scanLoop_inv [OF ok emptyMap_inv l]
  show "\<exists>hi. scanInv hi mp" using L unfolding mp scanInv_def by auto
  show "\<And>r. r \<in> set rs \<Longrightarrow> managedFrames r \<subseteq> spanned (spans mp)" using L unfolding mp by auto
qed

section \<open>Properties\<close>

text \<open>A small map: 1 MiB of low memory, the kernel, and usable memory above it.\<close>

definition demoRegions :: "BootMemRegion list" where
  "demoRegions = [\<lparr>base = 0, len = 0x100000, mtype = BOOT_MEM_USABLE, mreserved = 0\<rparr>,
     \<lparr>base = 0x100000, len = 0x200000, mtype = BOOT_MEM_KERNEL, mreserved = 0\<rparr>,
     \<lparr>base = 0x300000, len = 0x500000, mtype = BOOT_MEM_USABLE, mreserved = 0\<rparr>]"

definition demoMap :: PmmMap where
  "demoMap = \<lparr>spans = [\<lparr>sp_start = 0, sp_end = 0x800\<rparr>], maxPfn = 0x800,
     usable = [\<lparr>sp_start = 0x300, sp_end = 0x800\<rparr>], loaderReclaim = [], acpiReclaim = [],
     acpiReclaimDroppedPages = 0, lowReservedPages = 0x100, unmappedPages = 0,
     typePages = (\<lambda>_. 0)(BOOT_MEM_USABLE := 0x600, BOOT_MEM_KERNEL := 0x200)\<rparr>"

lemmas scan_eval = pmmMapScan_def scanRegion_def scanLoader_def scanAcpi_def scanUsable_def scanSpan_def
  pmmAddSpan_def alignDownPfn_def alignUpPfn_def pmmMapTypeIsManaged_def boot_mem_types pfn_limits Let_def

lemma demo_scan: "pmmMapScan demoRegions = Inr demoMap"
  by (simp add: scan_eval demoRegions_def demoMap_def emptyMap_def drop_bit_eq_div fun_eq_iff)

lemma demo_regionsOk: "regionsOk 0 demoRegions"
  by (simp add: demoRegions_def)

text \<open>
  C16: For a boot memory map that keeps the BootInfo contract (sorted, disjoint, not wrapping), a
  successful scan yields a span table that is sorted, separated, order-10 aligned and inside the
  direct-map window, that covers every frame of a managed region in that window; the usable ranges
  are sorted, disjoint, at or above 1 MiB and backed by spans; and the page counts of the usable
  memory add up: total = low reserved + usable ranges + unmapped.
\<close>

theorem pmmMapScan_correct:
  assumes "regionsOk 0 rs" and "pmmMapScan rs = Inr mp"
  shows "spansOk (spans mp) \<and> usableOk (spans mp) (usable mp)
    \<and> (\<forall>r \<in> set rs. managedFrames r \<subseteq> spanned (spans mp))
    \<and> typePages mp BOOT_MEM_USABLE = lowReservedPages mp + rangePages (usable mp) + unmappedPages mp"
  using pmmMapScan_inv [OF assms] unfolding scanInv_def by blast

theorem pmmMapScan_correct_witness:
  "spansOk (spans demoMap) \<and> managedFrames (demoRegions ! 2) \<subseteq> spanned (spans demoMap)"
  using pmmMapScan_correct [OF demo_regionsOk demo_scan] by (simp add: demoRegions_def)

text \<open>
  C17: On a well-formed span table the binary search of \<open>pmmPfnValid\<close> is membership: it accepts
  exactly the page frame numbers that some span contains.
\<close>

theorem pmmPfnValid_correct:
  assumes "spansOk (spans mp)"
  shows "pmmPfnValid mp pfn \<longleftrightarrow> (\<exists>s \<in> set (spans mp). unat (sp_start s) \<le> unat pfn \<and> unat pfn < unat (sp_end s))"
  using pmmPfnValid_iff [OF assms] by (auto simp: spanned_def cover_def spanExt_def)

theorem pmmPfnValid_correct_witness: "pmmPfnValid demoMap 0x7FF \<and> \<not> pmmPfnValid demoMap 0x800"
proof -
  have "spansOk (spans demoMap)" by (simp add: demoMap_def spansOk_def spanExt_def pfn_limits)
  from pmmPfnValid_correct [OF this] show ?thesis by (simp add: demoMap_def)
qed

end
