(* ===== verification/Early.thy ===== *)
theory Early
  imports Pmm_Map
begin

text \<open>
  The early bump allocator of \<open>kernel/mm/early.c\<close>. Its static variables are the record \<open>Early\<close>;
  \<open>earlyMap\<close> points at the \<open>PmmMap\<close>, which the operations therefore take and return. The cursor and
  original-end arrays hold the entries in use. Physical memory, written through the direct map, is a
  function from the virtual address of a 64-bit word to its value.

  The allocator hands out disjoint runs of frames from the usable ranges, highest range first, zeroes
  them, and after sealing knows exactly which frames it gave away.
\<close>

section \<open>Operations\<close>

type_synonym ram = "u64 \<Rightarrow> u64"

record Early =
  earlyHhdmBase :: u64
  earlyCursor :: "u64 list"
  earlyOriginalEndPfn :: "u64 list"
  earlySealed :: bool
  earlyUsedPages :: u64

definition pmmEarlyInit :: "PmmMap \<Rightarrow> u64 \<Rightarrow> Early" where
  "pmmEarlyInit mp hhdm =
     \<lparr>earlyHhdmBase = hhdm, earlyCursor = map sp_end (usable mp),
      earlyOriginalEndPfn = map sp_end (usable mp), earlySealed = False, earlyUsedPages = 0\<rparr>"

text \<open>The loop \<^verbatim>\<open>for (i = 0; i < words; i++) p[i] = 0;\<close>\<close>

definition zeroWords :: "u64 \<Rightarrow> nat \<Rightarrow> ram \<Rightarrow> ram" where
  "zeroWords p n mem = fold (\<lambda>i m. m(p + 8 * of_nat i := 0)) [0..<n] mem"

definition zeroPhysPages :: "Early \<Rightarrow> u64 \<Rightarrow> u64 \<Rightarrow> ram \<Rightarrow> ram" where
  "zeroPhysPages ea phys cnt mem =
     zeroWords (earlyHhdmBase ea + phys) (unat (push_bit 12 cnt div 8)) mem"

definition earlyFits :: "PmmMap \<Rightarrow> Early \<Rightarrow> u64 \<Rightarrow> nat \<Rightarrow> bool" where
  "earlyFits mp ea cnt i \<longleftrightarrow> earlyCursor ea ! i - sp_start (usable mp ! i) \<ge> cnt"

definition pmmEarlyAllocPages :: "PmmMap \<Rightarrow> u64 \<Rightarrow> Early \<Rightarrow> ram \<Rightarrow> (Status + (u64 \<times> Early \<times> ram)) outcome" where
  "pmmEarlyAllocPages mp cnt ea mem =
     (if earlySealed ea then Panic ''pmm: pmmEarlyAllocPages() called after pmmEarlySeal()''
      else case find (earlyFits mp ea cnt) (map (\<lambda>j. length (usable mp) - 1 - j) [0..<length (usable mp)]) of
        Some i \<Rightarrow>
          (let cur = earlyCursor ea ! i - cnt;
               phys = push_bit 12 cur;
               mem1 = zeroPhysPages ea phys cnt mem;
               ea1 = ea\<lparr>earlyCursor := (earlyCursor ea)[i := cur], earlyUsedPages := earlyUsedPages ea + cnt\<rparr>
           in Ret (Inr (phys, ea1, mem1)))
      | None \<Rightarrow> Ret (Inl STATUS_ERR_NO_MEMORY))"

definition pmmEarlySeal :: "PmmMap \<Rightarrow> Early \<Rightarrow> PmmMap \<times> Early" where
  "pmmEarlySeal mp ea =
     (if earlySealed ea then (mp, ea)
      else (mp\<lparr>usable := map (\<lambda>(u, c). u\<lparr>sp_end := c\<rparr>) (zip (usable mp) (earlyCursor ea))\<rparr>,
            ea\<lparr>earlySealed := True\<rparr>))"

definition pmmEarlyUsedPages :: "Early \<Rightarrow> u64" where
  "pmmEarlyUsedPages ea = earlyUsedPages ea"

definition pmmEarlyWasAllocated :: "PmmMap \<Rightarrow> Early \<Rightarrow> u64 \<Rightarrow> bool outcome" where
  "pmmEarlyWasAllocated mp ea pfn =
     (if \<not> earlySealed ea then Panic ''pmm: pmmEarlyWasAllocated() called before pmmEarlySeal()''
      else Ret (\<exists>i \<in> {0..<length (usable mp)}. pfn \<ge> sp_end (usable mp ! i) \<and> pfn < earlyOriginalEndPfn ea ! i))"

section \<open>Zeroing\<close>

lemma zeroWords_eq: "zeroWords p n mem a = (if \<exists>i < n. a = p + 8 * of_nat i then 0 else mem a)"
  unfolding zeroWords_def by (induction n) (auto simp: less_Suc_eq)

section \<open>Invariant\<close>

text \<open>The frames handed out so far, and the sum of the cursors' movements.\<close>

definition earlyTaken :: "Early \<Rightarrow> nat set" where
  "earlyTaken ea = (\<Union>i < length (earlyCursor ea). {unat (earlyCursor ea ! i)..<unat (earlyOriginalEndPfn ea ! i)})"

definition earlyInv :: "PmmMap \<Rightarrow> Early \<Rightarrow> bool" where
  "earlyInv mp ea \<longleftrightarrow> length (earlyCursor ea) = length (usable mp) \<and> \<not> earlySealed ea
     \<and> earlyOriginalEndPfn ea = map sp_end (usable mp)
     \<and> (\<forall>i < length (usable mp). sp_start (usable mp ! i) \<le> earlyCursor ea ! i \<and> earlyCursor ea ! i \<le> sp_end (usable mp ! i))
     \<and> earlyUsedPages ea = (\<Sum>i < length (usable mp). sp_end (usable mp ! i) - earlyCursor ea ! i)"

definition usableFrames :: "PmmMap \<Rightarrow> nat set" where
  "usableFrames mp = (\<Union>u \<in> set (usable mp). {unat (sp_start u)..<unat (sp_end u)})"

lemma earlyInit_inv:
  assumes "usableOk ss (usable mp)"
  shows "earlyInv mp (pmmEarlyInit mp hhdm)" and "earlyTaken (pmmEarlyInit mp hhdm) = {}"
proof -
  have "\<forall>u \<in> set (usable mp). sp_start u < sp_end u" using assms by (simp add: usableOk_def)
  then show "earlyInv mp (pmmEarlyInit mp hhdm)" "earlyTaken (pmmEarlyInit mp hhdm) = {}"
    by (auto simp: earlyInv_def pmmEarlyInit_def earlyTaken_def less_imp_le)
qed

lemma usable_disjoint:
  assumes "usableOk ss us" "i < length us" "j < length us" "i \<noteq> j"
  shows "{unat (sp_start (us ! i))..<unat (sp_end (us ! i))} \<inter> {unat (sp_start (us ! j))..<unat (sp_end (us ! j))} = {}"
proof -
  have "sp_end (us ! a) \<le> sp_start (us ! b)" if "a < b" "b < length us" for a b
    using assms(1) that by (auto simp: usableOk_def sorted_wrt_iff_nth_less)
  then show ?thesis using assms(2-4) by (cases i j rule: linorder_cases) (force simp: word_le_nat_alt)+
qed

lemma earlyAlloc_cases:
  assumes "pmmEarlyAllocPages mp cnt ea mem = Ret (Inr (phys, ea', mem'))"
  obtains i where "i < length (usable mp)" "earlyFits mp ea cnt i" "\<And>k. i < k \<Longrightarrow> k < length (usable mp) \<Longrightarrow> \<not> earlyFits mp ea cnt k"
    "phys = push_bit 12 (earlyCursor ea ! i - cnt)" "mem' = zeroPhysPages ea phys cnt mem"
    "ea' = ea\<lparr>earlyCursor := (earlyCursor ea)[i := earlyCursor ea ! i - cnt], earlyUsedPages := earlyUsedPages ea + cnt\<rparr>"
proof -
  obtain i where f: "find (earlyFits mp ea cnt) (map (\<lambda>j. length (usable mp) - 1 - j) [0..<length (usable mp)]) = Some i"
    using assms by (auto simp: pmmEarlyAllocPages_def split: if_splits option.splits)
  then obtain j where j: "j < length (usable mp)" "i = length (usable mp) - 1 - j" "earlyFits mp ea cnt i"
    "\<forall>k < j. \<not> earlyFits mp ea cnt (length (usable mp) - 1 - k)"
    by (auto simp: find_Some_iff)
  have "\<not> earlyFits mp ea cnt k" if "i < k" "k < length (usable mp)" for k
    using j(4) [rule_format, of "length (usable mp) - 1 - k"] j(1,2) that by (simp add: Suc_diff_Suc)
  moreover have "i < length (usable mp)" using j by simp
  ultimately show thesis
    using that [of i] assms f j(3) by (auto simp: pmmEarlyAllocPages_def Let_def split: if_splits)
qed

lemma earlyAlloc_effect:
  assumes uo: "usableOk ss (usable mp)" and inv: "earlyInv mp ea"
    and r: "pmmEarlyAllocPages mp cnt ea mem = Ret (Inr (phys, ea', mem'))"
  shows "earlyInv mp ea'" and "earlyTaken ea' = earlyTaken ea \<union> {unat phys div 4096..<unat phys div 4096 + unat cnt}"
    and "earlyTaken ea \<inter> {unat phys div 4096..<unat phys div 4096 + unat cnt} = {}"
    and "{unat phys div 4096..<unat phys div 4096 + unat cnt} \<subseteq> usableFrames mp" and "4096 dvd unat phys"
proof -
  from r obtain i where i: "i < length (usable mp)" "earlyFits mp ea cnt i" "phys = push_bit 12 (earlyCursor ea ! i - cnt)"
    and ea': "ea' = ea\<lparr>earlyCursor := (earlyCursor ea)[i := earlyCursor ea ! i - cnt], earlyUsedPages := earlyUsedPages ea + cnt\<rparr>"
    by (rule earlyAlloc_cases) blast
  define c0 where "c0 = earlyCursor ea ! i"
  define c1 where "c1 = c0 - cnt"
  have I: "length (earlyCursor ea) = length (usable mp)" "\<not> earlySealed ea" "earlyOriginalEndPfn ea = map sp_end (usable mp)"
    "\<And>k. k < length (usable mp) \<Longrightarrow> sp_start (usable mp ! k) \<le> earlyCursor ea ! k \<and> earlyCursor ea ! k \<le> sp_end (usable mp ! k)"
    "earlyUsedPages ea = (\<Sum>k < length (usable mp). sp_end (usable mp ! k) - earlyCursor ea ! k)"
    using inv by (auto simp: earlyInv_def)
  have b: "unat (sp_start (usable mp ! i)) \<le> unat c0" "unat c0 \<le> unat (sp_end (usable mp ! i))"
    using I(4) [OF i(1)] by (auto simp: c0_def word_le_nat_alt)
  have "cnt \<le> c0 - sp_start (usable mp ! i)" using i(2) by (simp add: earlyFits_def c0_def)
  then have cn: "unat cnt \<le> unat c0 - unat (sp_start (usable mp ! i))"
    using b(1) by (simp add: word_le_nat_alt unat_sub_le)
  then have c1: "unat c1 = unat c0 - unat cnt" "unat (sp_start (usable mp ! i)) \<le> unat c1" "unat c1 + unat cnt = unat c0"
    using b by (auto simp: c1_def unat_sub_le)
  have lim: "unat (sp_end (usable mp ! i)) \<le> unat PMM_HHDM_LIMIT_PFN"
    using uo i(1) by (simp add: usableOk_def word_le_nat_alt)
  have ph: "unat phys = unat c1 * 4096"
    using c1 b lim by (simp add: i(3) c0_def [symmetric] c1_def [symmetric] push_bit_eq_mult)
      (subst unat_mult_nowrap; simp add: pfn_limits)
  then show "4096 dvd unat phys" by simp
  have fr: "{unat phys div 4096..<unat phys div 4096 + unat cnt} = {unat c1..<unat c0}" using ph c1 by simp
  have cur: "earlyCursor ea' ! k = (if k = i then c1 else earlyCursor ea ! k)" if "k < length (usable mp)" for k
    using that I(1) by (simp add: ea' c1_def c0_def nth_list_update)
  have lens: "length (earlyCursor ea') = length (usable mp)" "earlyOriginalEndPfn ea' = map sp_end (usable mp)"
    using I by (auto simp: ea')
  have sum: "(\<Sum>k < length (usable mp). sp_end (usable mp ! k) - earlyCursor ea' ! k)
      = (\<Sum>k < length (usable mp). sp_end (usable mp ! k) - earlyCursor ea ! k) + cnt"
  proof -
    have "(\<Sum>k < length (usable mp). sp_end (usable mp ! k) - earlyCursor ea' ! k)
        = (\<Sum>k < length (usable mp). (sp_end (usable mp ! k) - earlyCursor ea ! k) + (if k = i then cnt else 0))"
      by (rule sum.cong) (auto simp: cur c1_def c0_def)
    then show ?thesis using i(1) by (simp add: sum.distrib)
  qed
  show "earlyInv mp ea'"
    unfolding earlyInv_def
  proof (intro conjI allI impI)
    fix k assume k: "k < length (usable mp)"
    show "sp_start (usable mp ! k) \<le> earlyCursor ea' ! k" "earlyCursor ea' ! k \<le> sp_end (usable mp ! k)"
      using I(4) [OF k] cur [OF k] c1 b by (auto simp: word_le_nat_alt)
  qed (use lens I(2,5) sum in \<open>auto simp: ea'\<close>)
  have tk: "earlyTaken x = (\<Union>k < length (usable mp). {unat (earlyCursor x ! k)..<unat (sp_end (usable mp ! k))})"
    if "length (earlyCursor x) = length (usable mp)" "earlyOriginalEndPfn x = map sp_end (usable mp)" for x
    using that by (auto simp: earlyTaken_def)
  show "earlyTaken ea' = earlyTaken ea \<union> {unat phys div 4096..<unat phys div 4096 + unat cnt}"
  proof -
    have "{unat (earlyCursor ea' ! k)..<unat (sp_end (usable mp ! k))}
       = {unat (earlyCursor ea ! k)..<unat (sp_end (usable mp ! k))} \<union> (if k = i then {unat c1..<unat c0} else {})"
      if "k < length (usable mp)" for k
      using cur [OF that] c1 b by (auto simp: c0_def)
    then show ?thesis unfolding tk [OF lens] tk [OF I(1,3)] fr using i(1) by (auto split: if_splits)
  qed
  have sub: "{unat c1..<unat c0} \<subseteq> {unat (sp_start (usable mp ! i))..<unat (sp_end (usable mp ! i))}"
    using c1 b by auto
  then show "{unat phys div 4096..<unat phys div 4096 + unat cnt} \<subseteq> usableFrames mp"
    unfolding fr usableFrames_def using i(1) by (meson UN_upper nth_mem subset_trans)
  have "{unat (earlyCursor ea ! k)..<unat (sp_end (usable mp ! k))} \<inter> {unat c1..<unat c0} = {}"
    if k: "k < length (usable mp)" for k
  proof (cases "k = i")
    case True
    then show ?thesis by (auto simp: c0_def)
  next
    case False
    have "{unat (earlyCursor ea ! k)..<unat (sp_end (usable mp ! k))} \<subseteq> {unat (sp_start (usable mp ! k))..<unat (sp_end (usable mp ! k))}"
      using I(4) [OF k] by (auto simp: word_le_nat_alt)
    then show ?thesis using usable_disjoint [OF uo k i(1) False] sub by blast
  qed
  then show "earlyTaken ea \<inter> {unat phys div 4096..<unat phys div 4096 + unat cnt} = {}"
    unfolding tk [OF I(1,3)] fr by blast
qed

lemma walk_down: "map (\<lambda>j. n - 1 - j) [0..<n] = rev [0..<n]"
  by (rule nth_equalityI) (auto simp: rev_nth)

lemma earlyAlloc_fails:
  assumes "\<not> earlySealed ea"
  shows "pmmEarlyAllocPages mp cnt ea mem = Ret (Inl STATUS_ERR_NO_MEMORY)
    \<longleftrightarrow> (\<forall>i < length (usable mp). \<not> earlyFits mp ea cnt i)"
  using assms unfolding pmmEarlyAllocPages_def walk_down
  by (auto simp: Let_def find_None_iff split: option.splits dest!: find_Some_in)

lemma earlyFits_iff:
  assumes "earlyInv mp ea" "i < length (usable mp)"
  shows "earlyFits mp ea cnt i \<longleftrightarrow> unat (sp_start (usable mp ! i)) + unat cnt \<le> unat (earlyCursor ea ! i)"
proof -
  have "unat (sp_start (usable mp ! i)) \<le> unat (earlyCursor ea ! i)"
    using assms by (simp add: earlyInv_def word_le_nat_alt)
  then show ?thesis by (auto simp: earlyFits_def word_le_nat_alt unat_sub_le)
qed

section \<open>Sealing\<close>

lemma seal_nth:
  assumes "earlyInv mp ea" "i < length (usable mp)"
  shows "usable (fst (pmmEarlySeal mp ea)) ! i = (usable mp ! i)\<lparr>sp_end := earlyCursor ea ! i\<rparr>"
  using assms by (auto simp: pmmEarlySeal_def earlyInv_def)

lemma seal_length:
  assumes "earlyInv mp ea"
  shows "length (usable (fst (pmmEarlySeal mp ea))) = length (usable mp)"
    "earlySealed (snd (pmmEarlySeal mp ea))" "earlyOriginalEndPfn (snd (pmmEarlySeal mp ea)) = map sp_end (usable mp)"
    "earlyUsedPages (snd (pmmEarlySeal mp ea)) = earlyUsedPages ea" "spans (fst (pmmEarlySeal mp ea)) = spans mp"
  using assms by (auto simp: pmmEarlySeal_def earlyInv_def)

lemma rangePages_nth: "rangePages us = (\<Sum>i < length us. sp_end (us ! i) - sp_start (us ! i))"
  unfolding rangePages_def by (subst sum_list_sum_nth) (simp add: atLeast0LessThan)

lemma seal_pages:
  assumes inv: "earlyInv mp ea"
  shows "rangePages (usable (fst (pmmEarlySeal mp ea))) + earlyUsedPages ea = rangePages (usable mp)"
proof -
  let ?mp = "fst (pmmEarlySeal mp ea)"
  have "earlyUsedPages ea = (\<Sum>i < length (usable mp). sp_end (usable mp ! i) - earlyCursor ea ! i)"
    using inv by (simp add: earlyInv_def)
  moreover have "rangePages (usable ?mp) = (\<Sum>i < length (usable mp). earlyCursor ea ! i - sp_start (usable mp ! i))"
    unfolding rangePages_nth seal_length(1) [OF inv] by (rule sum.cong) (auto simp: seal_nth [OF inv])
  ultimately show ?thesis
    unfolding rangePages_nth [of "usable mp"] by (simp add: sum.distrib [symmetric])
qed

lemma usableFrames_nth: "usableFrames mp = (\<Union>i < length (usable mp). {unat (sp_start (usable mp ! i))..<unat (sp_end (usable mp ! i))})"
  unfolding usableFrames_def by (auto simp: in_set_conv_nth) (metis nth_mem)

lemma seal_frames:
  assumes uo: "usableOk ss (usable mp)" and inv: "earlyInv mp ea"
  shows "usableFrames (fst (pmmEarlySeal mp ea)) \<union> earlyTaken ea = usableFrames mp"
    and "usableFrames (fst (pmmEarlySeal mp ea)) \<inter> earlyTaken ea = {}"
proof -
  let ?n = "length (usable mp)"
  define lo c hi where "lo i = unat (sp_start (usable mp ! i))" and "c i = unat (earlyCursor ea ! i)"
    and "hi i = unat (sp_end (usable mp ! i))" for i
  have b: "lo i \<le> c i \<and> c i \<le> hi i" if "i < ?n" for i
    using inv that by (auto simp: earlyInv_def lo_def c_def hi_def word_le_nat_alt)
  have F: "usableFrames (fst (pmmEarlySeal mp ea)) = (\<Union>i < ?n. {lo i..<c i})"
    unfolding usableFrames_nth seal_length(1) [OF inv] by (auto simp: seal_nth [OF inv] lo_def c_def)
  have T: "earlyTaken ea = (\<Union>i < ?n. {c i..<hi i})"
    using inv by (auto simp: earlyTaken_def earlyInv_def c_def hi_def)
  have U: "usableFrames mp = (\<Union>i < ?n. {lo i..<hi i})" by (simp add: usableFrames_nth lo_def hi_def)
  have "{lo i..<c i} \<union> {c i..<hi i} = {lo i..<hi i}" if "i < ?n" for i using b [OF that] by auto
  then show "usableFrames (fst (pmmEarlySeal mp ea)) \<union> earlyTaken ea = usableFrames mp"
    unfolding F T U by (simp add: UN_Un_distrib [symmetric])
  have "{lo i..<c i} \<inter> {c j..<hi j} = {}" if "i < ?n" "j < ?n" for i j
  proof (cases "i = j")
    case False
    then show ?thesis
      using usable_disjoint [OF uo that False] b [OF that(1)] b [OF that(2)] by (fastforce simp: lo_def hi_def)
  qed auto
  then show "usableFrames (fst (pmmEarlySeal mp ea)) \<inter> earlyTaken ea = {}" unfolding F T by blast
qed

section \<open>Properties\<close>

lemma demo_usableOk: "usableOk (spans demoMap) (usable demoMap)"
  by (simp add: demoMap_def usableOk_def pfn_limits spanned_def spanExt_def)

definition demoEarly :: Early where
  "demoEarly = \<lparr>earlyHhdmBase = 0, earlyCursor = [0x7FF], earlyOriginalEndPfn = [0x800], earlySealed = False, earlyUsedPages = 1\<rparr>"

lemma demo_early_alloc:
  "pmmEarlyAllocPages demoMap 1 (pmmEarlyInit demoMap 0) mem = Ret (Inr (0x7FF000, demoEarly, zeroWords 0x7FF000 512 mem))"
  by (simp add: pmmEarlyAllocPages_def pmmEarlyInit_def demoMap_def earlyFits_def demoEarly_def zeroPhysPages_def Let_def push_bit_eq_mult unat_div)

text \<open>
  C18: In every state the bump allocator can be in before sealing, a successful allocation returns a
  page-aligned run of the requested length inside the usable frames that no earlier allocation got,
  records exactly that run as taken, and zeroes its memory; it fails only when no usable range has
  that many frames left.
\<close>

theorem pmmEarlyAllocPages_correct:
  assumes "usableOk ss (usable mp)" and "earlyInv mp ea"
  shows "case pmmEarlyAllocPages mp cnt ea mem of
      Panic _ \<Rightarrow> False
    | Ret (Inl err) \<Rightarrow> err = STATUS_ERR_NO_MEMORY
        \<and> (\<forall>i < length (usable mp). unat (earlyCursor ea ! i) < unat (sp_start (usable mp ! i)) + unat cnt)
    | Ret (Inr (phys, ea', mem')) \<Rightarrow>
        (let run = {unat phys div 4096..<unat phys div 4096 + unat cnt}
         in earlyInv mp ea' \<and> 4096 dvd unat phys \<and> run \<subseteq> usableFrames mp \<and> earlyTaken ea \<inter> run = {}
          \<and> earlyTaken ea' = earlyTaken ea \<union> run
          \<and> (\<forall>i < unat (push_bit 12 cnt div 8). mem' (earlyHhdmBase ea + phys + 8 * of_nat i) = 0))"
proof (cases "pmmEarlyAllocPages mp cnt ea mem")
  case (Panic x)
  then show ?thesis using assms(2) by (auto simp: pmmEarlyAllocPages_def earlyInv_def Let_def split: if_splits option.splits)
next
  case (Ret r)
  show ?thesis
  proof (cases r)
    case (Inl err)
    then have e: "err = STATUS_ERR_NO_MEMORY"
      using Ret by (auto simp: pmmEarlyAllocPages_def Let_def split: if_splits option.splits)
    have "\<not> earlySealed ea" using assms(2) by (simp add: earlyInv_def)
    then show ?thesis using earlyAlloc_fails [of ea mp cnt mem] earlyFits_iff [OF assms(2)] Ret Inl e by (auto simp: not_le)
  next
    case (Inr x)
    obtain phys ea' mem' where x: "x = (phys, ea', mem')" by (metis prod_cases3)
    have r: "pmmEarlyAllocPages mp cnt ea mem = Ret (Inr (phys, ea', mem'))" using Ret Inr x by simp
    then have "mem' = zeroPhysPages ea phys cnt mem" by (rule earlyAlloc_cases)
    then have "\<forall>i < unat (push_bit 12 cnt div 8). mem' (earlyHhdmBase ea + phys + 8 * of_nat i) = 0"
      by (auto simp: zeroPhysPages_def zeroWords_eq)
    then show ?thesis using r earlyAlloc_effect [OF assms r] by (simp add: Let_def)
  qed
qed

theorem pmmEarlyAllocPages_correct_witness: "earlyTaken demoEarly = {0x7FF}"
proof -
  have "unat (0x7FF000 :: u64) = 0x7FF000" by simp
  then show ?thesis
    using pmmEarlyAllocPages_correct [OF demo_usableOk earlyInit_inv(1) [OF demo_usableOk], of 0 1 "\<lambda>_. 0"]
      earlyInit_inv(2) [OF demo_usableOk, of 0]
    by (simp add: demo_early_alloc Let_def)
qed

text \<open>
  C19: Sealing splits the usable frames into the ranges left for the buddy allocator and the frames
  the bump allocator took, with nothing lost or shared, in sets and in the page counters; and
  afterwards \<open>pmmEarlyWasAllocated\<close> answers exactly for the frames taken.
\<close>

theorem pmmEarlySeal_correct:
  assumes "usableOk ss (usable mp)" and "earlyInv mp ea" and "pmmEarlySeal mp ea = (mp', ea')"
  shows "usableFrames mp' \<union> earlyTaken ea = usableFrames mp \<and> usableFrames mp' \<inter> earlyTaken ea = {}
    \<and> rangePages (usable mp') + pmmEarlyUsedPages ea' = rangePages (usable mp)
    \<and> pmmEarlyWasAllocated mp' ea' pfn = Ret (unat pfn \<in> earlyTaken ea)"
proof -
  have mp': "mp' = fst (pmmEarlySeal mp ea)" and ea': "ea' = snd (pmmEarlySeal mp ea)" using assms(3) by auto
  have "pmmEarlyWasAllocated mp' ea' pfn = Ret (unat pfn \<in> earlyTaken ea)"
    unfolding pmmEarlyWasAllocated_def mp' ea' seal_length [OF assms(2)] earlyTaken_def
    using assms(2) seal_length(2) [OF assms(2)]
    by (auto simp: seal_nth [OF assms(2)] earlyInv_def word_le_nat_alt word_less_nat_alt)
  then show ?thesis
    using seal_frames [OF assms(1,2)] seal_pages [OF assms(2)] seal_length [OF assms(2)]
    unfolding mp' ea' pmmEarlyUsedPages_def by simp
qed

theorem pmmEarlySeal_correct_witness:
  "case pmmEarlySeal demoMap demoEarly of (mp', ea') \<Rightarrow> pmmEarlyWasAllocated mp' ea' 0x7FF = Ret True"
proof -
  have "earlyInv demoMap demoEarly"
    by (simp add: earlyInv_def demoMap_def demoEarly_def)
  from pmmEarlySeal_correct [OF demo_usableOk this, of _ _ "0x7FF"] show ?thesis
    by (auto simp: earlyTaken_def demoEarly_def split: prod.splits)
qed

end
