(* ===== verification/Allocator.thy ===== *)
theory Allocator
  imports Prelude
begin

text \<open>
  The contract every allocator of the kernel offers its clients. A client keeps a ledger of the
  handles it holds; a handle stands for a set of resources (addresses, page frames, slots). The
  locale states what the allocator promises about its free set, and its lemmas show once for all
  allocators that ledgers built by allocations and releases stay consistent with it: handles
  never overlap, and a held handle can always be given back. How a state records the handles
  that are out (a count, or the marks on its blocks) is the provider's \<open>held\<close> predicate.
\<close>

definition ledger_ok :: "('h \<Rightarrow> 'r set) \<Rightarrow> 'r set \<Rightarrow> 'r set \<Rightarrow> 'h set \<Rightarrow> bool" where
  "ledger_ok ext whole free L \<longleftrightarrow> (\<forall>x \<in> L. \<forall>y \<in> L. x \<noteq> y \<longrightarrow> ext x \<inter> ext y = {})
     \<and> free \<inter> \<Union>(ext ` L) = {} \<and> free \<union> \<Union>(ext ` L) = whole"

lemma ledger_okD:
  assumes "ledger_ok ext whole free L"
  shows "\<And>x y. x \<in> L \<Longrightarrow> y \<in> L \<Longrightarrow> x \<noteq> y \<Longrightarrow> ext x \<inter> ext y = {}"
    "free \<inter> \<Union>(ext ` L) = {}" "free \<union> \<Union>(ext ` L) = whole"
  using assms by (auto simp: ledger_ok_def)

locale ledger_allocator =
  fixes wf :: "'s \<Rightarrow> bool"
    and whole :: "'s \<Rightarrow> 'r set"
    and free :: "'s \<Rightarrow> 'r set"
    and held :: "'s \<Rightarrow> 'h set \<Rightarrow> bool"
    and entry :: "'h \<Rightarrow> bool"
    and ext :: "'h \<Rightarrow> 'r set"
    and alloc :: "'s \<Rightarrow> 'q \<Rightarrow> ('s \<times> 'h) option"
    and release :: "'s \<Rightarrow> 'h \<Rightarrow> 's option"
  assumes alloc_wf: "wf s \<Longrightarrow> alloc s q = Some (s', h) \<Longrightarrow> wf s' \<and> whole s' = whole s"
    and alloc_entry: "wf s \<Longrightarrow> alloc s q = Some (s', h) \<Longrightarrow> entry h"
    and alloc_held: "wf s \<Longrightarrow> held s L \<Longrightarrow> h \<notin> L \<Longrightarrow> alloc s q = Some (s', h) \<Longrightarrow> held s' (insert h L)"
    and alloc_free: "wf s \<Longrightarrow> alloc s q = Some (s', h) \<Longrightarrow> ext h \<subseteq> free s \<and> free s' = free s - ext h"
    and entry_nonempty: "entry h \<Longrightarrow> ext h \<noteq> {}"
    and release_accepts: "wf s \<Longrightarrow> held s L \<Longrightarrow> ledger_ok ext (whole s) (free s) L \<Longrightarrow> \<forall>x \<in> L. entry x \<Longrightarrow>
        h \<in> L \<Longrightarrow> \<exists>s'. release s h = Some s'"
    and release_wf: "wf s \<Longrightarrow> held s L \<Longrightarrow> h \<in> L \<Longrightarrow> entry h \<Longrightarrow> release s h = Some s' \<Longrightarrow> wf s' \<and> whole s' = whole s"
    and release_free: "wf s \<Longrightarrow> held s L \<Longrightarrow> h \<in> L \<Longrightarrow> entry h \<Longrightarrow> release s h = Some s' \<Longrightarrow> free s' = free s \<union> ext h"
    and release_held: "wf s \<Longrightarrow> held s L \<Longrightarrow> h \<in> L \<Longrightarrow> entry h \<Longrightarrow> release s h = Some s' \<Longrightarrow> held s' (L - {h})"
begin

inductive reach :: "'s \<Rightarrow> 's \<Rightarrow> 'h set \<Rightarrow> bool" for s0 :: 's where
  start: "reach s0 s0 {}"
| take: "reach s0 s L \<Longrightarrow> alloc s q = Some (s', h) \<Longrightarrow> reach s0 s' (insert h L)"
| give: "reach s0 s L \<Longrightarrow> h \<in> L \<Longrightarrow> release s h = Some s' \<Longrightarrow> reach s0 s' (L - {h})"

lemma ledger_alloc:
  assumes l: "ledger_ok ext (whole s) (free s) L" and w: "wf s" and hd: "held s L" and a: "alloc s q = Some (s', h)"
  shows "ledger_ok ext (whole s') (free s') (insert h L)" and "held s' (insert h L)"
proof -
  have f: "ext h \<subseteq> free s" "free s' = free s - ext h" and s: "whole s' = whole s"
    using alloc_free [OF w a] alloc_wf [OF w a] by auto
  note L = ledger_okD [OF l]
  have d: "\<And>x. x \<in> L \<Longrightarrow> ext x \<inter> ext h = {}" using f(1) L(2) by blast
  have "h \<notin> L" using d entry_nonempty [OF alloc_entry [OF w a]] by blast
  then show "held s' (insert h L)" by (rule alloc_held [OF w hd _ a])
  have "ext x \<inter> ext y = {}" if "x \<in> insert h L" "y \<in> insert h L" "x \<noteq> y" for x y
    using that d L(1) by (metis inf_commute insertE)
  moreover have "free s' \<inter> \<Union>(ext ` insert h L) = {}"
    using f(2) L(2) by auto
  moreover have "free s' \<union> \<Union>(ext ` insert h L) = whole s'"
    using f L(3) s by auto
  ultimately show "ledger_ok ext (whole s') (free s') (insert h L)" unfolding ledger_ok_def by simp
qed

lemma ledger_release:
  assumes l: "ledger_ok ext (whole s) (free s) L" and w: "wf s" and hd: "held s L" and m: "h \<in> L"
    and e: "entry h" and r: "release s h = Some s'"
  shows "ledger_ok ext (whole s') (free s') (L - {h})"
proof -
  note L = ledger_okD [OF l]
  have f: "free s' = free s \<union> ext h" "whole s' = whole s"
    using release_free [OF w hd m e r] release_wf [OF w hd m e r] by auto
  have d: "ext h \<inter> \<Union>(ext ` (L - {h})) = {}" using L(1) m by blast
  have u: "\<Union>(ext ` L) = ext h \<union> \<Union>(ext ` (L - {h}))" using m by blast
  have "ext x \<inter> ext y = {}" if "x \<in> L - {h}" "y \<in> L - {h}" "x \<noteq> y" for x y
    using that L(1) by (metis DiffD1)
  moreover have "free s' \<inter> \<Union>(ext ` (L - {h})) = {}"
    unfolding f(1) using L(2) [unfolded u] d by blast
  moreover have "free s' \<union> \<Union>(ext ` (L - {h})) = whole s'"
    unfolding f L(3) [symmetric] u by (simp only: Un_assoc)
  ultimately show ?thesis unfolding ledger_ok_def by simp
qed

lemma reach_inv:
  assumes "reach s0 s L" "wf s0" "free s0 = whole s0" "held s0 {}"
  shows "wf s \<and> whole s = whole s0 \<and> (\<forall>x \<in> L. entry x) \<and> held s L \<and> ledger_ok ext (whole s) (free s) L"
  using assms
proof (induction rule: reach.induct)
  case start
  then show ?case by (simp add: ledger_ok_def)
next
  case (take s L q s' h)
  then have h: "wf s" "whole s = whole s0" "\<forall>x \<in> L. entry x" "held s L" "ledger_ok ext (whole s) (free s) L"
    by blast+
  show ?case
    using alloc_wf [OF h(1) take.hyps(2)] alloc_entry [OF h(1) take.hyps(2)]
      ledger_alloc [OF h(5,1,4) take.hyps(2)] h(2,3) by simp
next
  case (give s L h s')
  then have h: "wf s" "whole s = whole s0" "\<forall>x \<in> L. entry x" "held s L" "ledger_ok ext (whole s) (free s) L"
    by blast+
  have e: "entry h" using h(3) give.hyps(2) by blast
  show ?case
    using release_wf [OF h(1,4) give.hyps(2) e give.hyps(3)] h(2,3)
      release_held [OF h(1,4) give.hyps(2) e give.hyps(3)]
      ledger_release [OF h(5,1,4) give.hyps(2) e give.hyps(3)] by simp
qed

lemma reach_disjoint:
  assumes "reach s0 s L" "wf s0" "free s0 = whole s0" "held s0 {}" "x \<in> L"
  shows "ext x \<subseteq> whole s0 \<and> ext x \<inter> free s = {} \<and> (\<forall>y \<in> L. y \<noteq> x \<longrightarrow> ext x \<inter> ext y = {})"
proof -
  have w: "whole s = whole s0" and l: "ledger_ok ext (whole s) (free s) L"
    using reach_inv [OF assms(1-4)] by blast+
  have "ext x \<subseteq> \<Union>(ext ` L)" using assms(5) by (rule UN_upper)
  then show ?thesis using l assms(5) w unfolding ledger_ok_def by blast
qed

lemma reach_release:
  assumes "reach s0 s L" "wf s0" "free s0 = whole s0" "held s0 {}" "h \<in> L"
  shows "\<exists>s'. release s h = Some s' \<and> reach s0 s' (L - {h})"
proof -
  obtain s' where "release s h = Some s'"
    using release_accepts [of s L h] reach_inv [OF assms(1-4)] assms(5) by blast
  then show ?thesis using give [OF assms(1,5)] by blast
qed

end

end
