(* ===== verification/Pmm.thy ===== *)
theory Pmm
  imports Buddy Early Allocator
begin

text \<open>
  The physical memory manager of \<open>kernel/mm/pmm.c\<close>: the per-CPU page cache, \<open>pmmAllocPages\<close>,
  \<open>pmmFreePages\<close> with its validation, \<open>pmmAddFreeRange\<close>, the reclaim functions and the
  statistics, on top of the buddy allocator and the scanned memory map. This is the release build
  (no poisoning), and the calls are taken one after the other, as the lock of the source makes them.
  A call that ends in \<open>pmmBug\<close> returns the kind of bug and the frame it names.
\<close>

section \<open>State\<close>

datatype PmmBugKind =
    PMM_BUG_NONE
  | PMM_BUG_INVALID_PAGE
  | PMM_BUG_BAD_ORDER
  | PMM_BUG_MISALIGNED
  | PMM_BUG_ORDER_MISMATCH
  | PMM_BUG_DOUBLE_FREE
  | PMM_BUG_NOT_HEAD
  | PMM_BUG_RESERVED_FRAME
  | PMM_BUG_CORRUPT_STATE
  | PMM_BUG_POISON
  | PMM_BUG_OWNED_PAGE

record Pmm =
  mem :: Mem
  pmmMap :: PmmMap
  early :: Early
  physRam :: ram
  pmmHhdmBaseValue :: u64
  pmmPageArrayPages :: u64
  pmmPageTablePages :: u64
  pmmReclaimedPagesValue :: u64
  pmmAcpiReclaimedPagesValue :: u64
  loaderReclaimDone :: bool
  acpiReclaimDone :: bool

abbreviation PMM_PCP_BATCH :: nat where "PMM_PCP_BATCH \<equiv> 32"
abbreviation PMM_PCP_HIGH :: nat where "PMM_PCP_HIGH \<equiv> 192"

definition PMM_FLAG_DMA32 :: u32 where "PMM_FLAG_DMA32 = 1"
definition PMM_FLAG_ZERO :: u32 where "PMM_FLAG_ZERO = 2"
definition PMM_FLAGS_VALID :: u32 where "PMM_FLAGS_VALID = PMM_FLAG_DMA32 OR PMM_FLAG_ZERO"

section \<open>Operations\<close>

definition pmmCacheInitAll :: "Mem \<Rightarrow> Mem" where
  "pmmCacheInitAll m =
     fold (\<lambda>z m. setPcpCount z 0 (setLinks (listInit (PcpHead z)) m)) [PMM_ZONE_DMA32, PMM_ZONE_NORMAL] m"

definition pmmPhysToPage :: "PmmMap \<Rightarrow> u64 \<Rightarrow> u64" where
  "pmmPhysToPage mp phys =
     (let pfn = drop_bit 12 phys in if pmmPfnValid mp pfn then pageFromPfn (unat pfn) else 0)"

definition pmmPhysIsEarlyAlloc :: "Pmm \<Rightarrow> u64 \<Rightarrow> bool outcome" where
  "pmmPhysIsEarlyAlloc st phys = pmmEarlyWasAllocated (pmmMap st) (early st) (drop_bit 12 phys)"

text \<open>The scan for a free block that covers a tail page.\<close>

definition tailIsFree :: "(nat \<Rightarrow> Page) \<Rightarrow> nat \<Rightarrow> bool" where
  "tailIsFree pg pfn \<longleftrightarrow> (\<exists>k \<in> set [0..<PMM_MAX_ORDER + 1].
     (let headPfn = pfn div 2 ^ k * 2 ^ k
      in state (pg headPfn) = PAGE_STATE_BUDDY \<and> order (pg headPfn) \<ge> k))"

definition pmmValidateForFree :: "Pmm \<Rightarrow> u64 \<Rightarrow> nat \<Rightarrow> (PmmBugKind \<times> nat) + nat" where
  "pmmValidateForFree st page ord =
     (if page = 0 then Inl (PMM_BUG_INVALID_PAGE, 0)
      else if page < VM_PAGE_ARRAY_BASE \<or> (page - VM_PAGE_ARRAY_BASE) mod 64 \<noteq> 0 then Inl (PMM_BUG_INVALID_PAGE, 0)
      else let pfn = pageToPfn page; pg = pages (mem st)
        in if \<not> pmmPfnValid (pmmMap st) (of_nat pfn) then Inl (PMM_BUG_INVALID_PAGE, pfn)
           else if ord > PMM_MAX_ORDER then Inl (PMM_BUG_BAD_ORDER, pfn)
           else if pfn mod 2 ^ ord \<noteq> 0 then Inl (PMM_BUG_MISALIGNED, pfn)
           else case state (pg pfn) of
               PAGE_STATE_ALLOCATED \<Rightarrow>
                 if order (pg pfn) \<noteq> ord then Inl (PMM_BUG_ORDER_MISMATCH, pfn)
                 else (case find (\<lambda>p. flags (pg p) AND PAGE_F_OWNER_MASK \<noteq> 0) [pfn..<pfn + 2 ^ ord] of
                         Some p \<Rightarrow> Inl (PMM_BUG_OWNED_PAGE, p)
                       | None \<Rightarrow> Inr pfn)
             | PAGE_STATE_BUDDY \<Rightarrow> Inl (PMM_BUG_DOUBLE_FREE, pfn)
             | PAGE_STATE_PCP \<Rightarrow> Inl (PMM_BUG_DOUBLE_FREE, pfn)
             | PAGE_STATE_TAIL \<Rightarrow>
                 if tailIsFree pg pfn then Inl (PMM_BUG_DOUBLE_FREE, pfn) else Inl (PMM_BUG_NOT_HEAD, pfn)
             | PAGE_STATE_RESERVED \<Rightarrow> Inl (PMM_BUG_RESERVED_FRAME, pfn)
             | PAGE_STATE_OTHER _ \<Rightarrow> Inl (PMM_BUG_CORRUPT_STATE, pfn))"

definition pmmZeroBlock :: "Pmm \<Rightarrow> nat \<Rightarrow> nat \<Rightarrow> ram \<Rightarrow> ram" where
  "pmmZeroBlock st pfn ord rm =
     zeroWords (pmmHhdmBaseValue st + push_bit 12 (of_nat pfn)) (2 ^ ord * 4096 div 8) rm"

definition pmmZoneListFor :: "u32 \<Rightarrow> PmmZoneId list" where
  "pmmZoneListFor fl = (if fl AND PMM_FLAG_DMA32 \<noteq> 0 then [PMM_ZONE_DMA32] else [PMM_ZONE_NORMAL, PMM_ZONE_DMA32])"

text \<open>Putting a page at the head of the cache, and the refill loop of at most \<open>n\<close> rounds.\<close>

definition pcpPush :: "PmmZoneId \<Rightarrow> nat \<Rightarrow> (Page \<Rightarrow> Page) \<Rightarrow> Mem \<Rightarrow> Mem" where
  "pcpPush z pfn f m =
     (let m1 = setPage pfn f m;
          m2 = setLinks (listPushHead (PcpHead z) (Lru pfn)) m1
      in setPcpCount z (pcpCount m2 z + 1) m2)"

primrec pcpRefill :: "nat \<Rightarrow> PmmZoneId \<Rightarrow> Mem \<Rightarrow> Mem" where
  "pcpRefill 0 z m = m"
| "pcpRefill (Suc n) z m =
     (case buddyAllocBlock z 0 m of
        None \<Rightarrow> m
      | Some (m1, pfn) \<Rightarrow> pcpRefill n z (pcpPush z pfn (\<lambda>p. p\<lparr>state := PAGE_STATE_PCP\<rparr>) m1))"

definition pmmCacheAllocLocked :: "PmmZoneId \<Rightarrow> Mem \<Rightarrow> Mem \<times> nat option" where
  "pmmCacheAllocLocked z m =
     (let m1 = (if pcpCount m z = 0 then pcpRefill PMM_PCP_BATCH z m else m)
      in if pcpCount m z = 0 \<and> pcpCount m1 z = 0 then (m1, None)
         else case listPopHead (PcpHead z) (links m1) of
             (Some nd, l) \<Rightarrow> (setPcpCount z (pcpCount m1 z - 1) (m1\<lparr>links := l\<rparr>), Some (lruPfn nd))
           | (None, _) \<Rightarrow> (m1, None))"

text \<open>Returning up to \<open>n\<close> pages from the tail of the cache to the buddy allocator.\<close>

definition pcpRelease :: "PmmZoneId \<Rightarrow> nat \<Rightarrow> Mem \<Rightarrow> Mem" where
  "pcpRelease z pfn m =
     (let m1 = setPcpCount z (pcpCount m z - 1) m;
          m2 = setPage pfn (\<lambda>p. p\<lparr>state := PAGE_STATE_TAIL\<rparr>) m1
      in buddyFreeBlock z pfn 0 m2)"

primrec pcpTrim :: "nat \<Rightarrow> PmmZoneId \<Rightarrow> Mem \<Rightarrow> Mem" where
  "pcpTrim 0 z m = m"
| "pcpTrim (Suc n) z m =
     (case listPopTail (PcpHead z) (links m) of
        (None, _) \<Rightarrow> m
      | (Some nd, l) \<Rightarrow> pcpTrim n z (pcpRelease z (lruPfn nd) (m\<lparr>links := l\<rparr>)))"

definition pmmCacheFreeLocked :: "PmmZoneId \<Rightarrow> nat \<Rightarrow> Mem \<Rightarrow> Mem" where
  "pmmCacheFreeLocked z pfn m =
     (let m1 = pcpPush z pfn (\<lambda>p. p\<lparr>state := PAGE_STATE_PCP, order := 0, refcount := 0\<rparr>) m
      in if pcpCount m1 z > PMM_PCP_HIGH then pcpTrim PMM_PCP_BATCH z m1 else m1)"

text \<open>
  \<open>pmmDrainLocalCache\<close>: the loop pops until the list is empty; \<open>None\<close> would be a loop that never
  ends.
\<close>

partial_function (option) pcpDrain :: "PmmZoneId \<Rightarrow> Mem \<Rightarrow> Mem option" where
  "pcpDrain z m =
     (case listPopHead (PcpHead z) (links m) of
        (None, _) \<Rightarrow> Some m
      | (Some nd, l) \<Rightarrow> pcpDrain z (pcpRelease z (lruPfn nd) (m\<lparr>links := l\<rparr>)))"

definition pmmDrainLocalCache :: "Pmm \<Rightarrow> Pmm option" where
  "pmmDrainLocalCache st =
     (case pcpDrain PMM_ZONE_DMA32 (mem st) of
        None \<Rightarrow> None
      | Some m1 \<Rightarrow> (case pcpDrain PMM_ZONE_NORMAL m1 of None \<Rightarrow> None | Some m2 \<Rightarrow> Some (st\<lparr>mem := m2\<rparr>)))"

definition allocIn :: "nat \<Rightarrow> PmmZoneId \<Rightarrow> Mem \<Rightarrow> Mem \<times> nat option" where
  "allocIn ord z m =
     (if ord = 0 then pmmCacheAllocLocked z m
      else case buddyAllocBlock z ord m of None \<Rightarrow> (m, None) | Some (m1, pfn) \<Rightarrow> (m1, Some pfn))"

fun allocZones :: "nat \<Rightarrow> PmmZoneId list \<Rightarrow> Mem \<Rightarrow> Mem \<times> nat option" where
  "allocZones ord [] m = (m, None)"
| "allocZones ord (z # zs) m =
     (case allocIn ord z m of
        (m1, Some pfn) \<Rightarrow> (m1, Some pfn)
      | (m1, None) \<Rightarrow> allocZones ord zs m1)"

definition markAllocated :: "nat \<Rightarrow> Page \<Rightarrow> Page" where
  "markAllocated ord p = p\<lparr>state := PAGE_STATE_ALLOCATED, order := ord, refcount := 1, mapcount := 0,
     object := 0, objectIndex := 0, privateWord := 0\<rparr>"

definition pmmAllocPages :: "nat \<Rightarrow> u32 \<Rightarrow> bool \<Rightarrow> Pmm \<Rightarrow> Pmm \<times> (Status + u64)" where
  "pmmAllocPages ord fl outNull st =
     (if outNull then (st, Inl STATUS_ERR_INVALID)
      else if ord > PMM_MAX_ORDER \<or> fl AND NOT PMM_FLAGS_VALID \<noteq> 0 then (st, Inl STATUS_ERR_INVALID)
      else case allocZones ord (pmmZoneListFor fl) (mem st) of
          (m1, None) \<Rightarrow> (st\<lparr>mem := m1\<rparr>, Inl STATUS_ERR_NO_MEMORY)
        | (m1, Some pfn) \<Rightarrow>
            (let m2 = setPage pfn (markAllocated ord) m1;
                 rm = (if fl AND PMM_FLAG_ZERO \<noteq> 0 then pmmZeroBlock st pfn ord (physRam st) else physRam st)
             in (st\<lparr>mem := m2, physRam := rm\<rparr>, Inr (pageFromPfn pfn))))"

definition pmmFreePages :: "u64 \<Rightarrow> nat \<Rightarrow> Pmm \<Rightarrow> (PmmBugKind \<times> nat) + Pmm" where
  "pmmFreePages page ord st =
     (case pmmValidateForFree st page ord of
        Inl bug \<Rightarrow> Inl bug
      | Inr pfn \<Rightarrow>
          if ord = 0 then Inr (st\<lparr>mem := pmmCacheFreeLocked (pmmZoneOfPfn pfn) pfn (mem st)\<rparr>)
          else let m1 = setPage pfn (\<lambda>p. p\<lparr>state := PAGE_STATE_TAIL, order := 0, refcount := 0\<rparr>) (mem st)
            in Inr (st\<lparr>mem := buddyFreeBlock (pmmZoneOfPfn pfn) pfn ord m1\<rparr>))"

subsection \<open>Memory entering the allocator\<close>

function ctz :: "nat \<Rightarrow> nat" where
  "ctz n = (if n = 0 \<or> odd n then 0 else Suc (ctz (n div 2)))"
  by pat_completeness auto
termination by (relation "measure id") auto

declare ctz.simps [simp del]

text \<open>The loop that lowers the order until the block fits into what is left.\<close>

primrec fitOrder :: "nat \<Rightarrow> nat \<Rightarrow> nat" where
  "fitOrder 0 room = 0"
| "fitOrder (Suc k) room = (if 2 ^ Suc k > room then fitOrder k room else Suc k)"

definition rangeOrder :: "nat \<Rightarrow> nat \<Rightarrow> nat" where
  "rangeOrder pfn room = fitOrder (min (if pfn = 0 then PMM_MAX_ORDER else ctz pfn) PMM_MAX_ORDER) room"

definition markTail :: "nat \<Rightarrow> nat \<Rightarrow> Mem \<Rightarrow> Mem" where
  "markTail p n m = fold (\<lambda>q m. setPage q (\<lambda>x. x\<lparr>state := PAGE_STATE_TAIL\<rparr>) m) [p..<p + n] m"

definition addBlock :: "nat \<Rightarrow> nat \<Rightarrow> Mem \<Rightarrow> Mem" where
  "addBlock pfn ord m =
     (let z = pmmZoneOfPfn pfn;
          m1 = markTail pfn (2 ^ ord) m;
          m2 = setZone z (\<lambda>zn. zn\<lparr>managedPages := managedPages zn + 2 ^ ord\<rparr>) m1
      in buddyFreeBlock z pfn ord m2)"

function addBlocks :: "nat \<Rightarrow> nat \<Rightarrow> Mem \<Rightarrow> Mem" where
  "addBlocks pfn e m =
     (if pfn < e then let ord = rangeOrder pfn (e - pfn) in addBlocks (pfn + 2 ^ ord) e (addBlock pfn ord m) else m)"
  by pat_completeness auto
termination
  by (relation "measure (\<lambda>(pfn, e, m). e - pfn)") (auto intro!: diff_less_mono2)

declare addBlocks.simps [simp del]

definition frameReserved :: "Pmm \<Rightarrow> nat \<Rightarrow> bool" where
  "frameReserved st p \<longleftrightarrow> pmmPfnValid (pmmMap st) (of_nat p) \<and> state (pages (mem st) p) = PAGE_STATE_RESERVED"

definition pmmAddFreeRange :: "u64 \<Rightarrow> u64 \<Rightarrow> Pmm \<Rightarrow> Status + Pmm" where
  "pmmAddFreeRange physBase length' st =
     (if (physBase OR length') AND 0xFFF \<noteq> 0 then Inl STATUS_ERR_INVALID
      else if length' = 0 then Inr st
      else let s = unat (drop_bit 12 physBase); e = unat (drop_bit 12 physBase + drop_bit 12 length')
        in if e \<le> s then Inl STATUS_ERR_INVALID
           else if \<not> list_all (frameReserved st) [s..<e] then Inl STATUS_ERR_INVALID
           else Inr (st\<lparr>mem := addBlocks s e (mem st)\<rparr>))"

definition pmmZeroRange :: "u64 \<Rightarrow> u64 \<Rightarrow> Pmm \<Rightarrow> Pmm" where
  "pmmZeroRange physBase length' st =
     st\<lparr>physRam := zeroWords (pmmHhdmBaseValue st + physBase) (unat (length' div 8)) (physRam st)\<rparr>"

definition pmmRangeAllReserved :: "u64 \<Rightarrow> u64 \<Rightarrow> Pmm \<Rightarrow> bool" where
  "pmmRangeAllReserved b length' st =
     list_all (frameReserved st) [unat (drop_bit 12 b)..<unat (drop_bit 12 b + drop_bit 12 length')]"

definition pmmReclaimPiece :: "u64 \<Rightarrow> u64 \<Rightarrow> Pmm \<Rightarrow> (Pmm \<times> u64) outcome" where
  "pmmReclaimPiece b length' st =
     (if length' = 0 then Ret (st, 0)
      else if \<not> pmmRangeAllReserved b length' st then Panic ''pmm: reclaim: range is not entirely PAGE_STATE_RESERVED''
      else case pmmAddFreeRange b length' (pmmZeroRange b length' st) of
          Inl _ \<Rightarrow> Panic ''pmm: reclaim: pmmAddFreeRange failed''
        | Inr st1 \<Rightarrow> Ret (st1, drop_bit 12 length'))"

fun pmmReclaimRanges :: "PmmReclaimRange list \<Rightarrow> Pmm \<Rightarrow> (Pmm \<times> u64) outcome" where
  "pmmReclaimRanges [] st = Ret (st, 0)"
| "pmmReclaimRanges (r # rs) st =
     (case pmmReclaimClip r of
        None \<Rightarrow> pmmReclaimRanges rs st
      | Some (b, e) \<Rightarrow>
          bindO (pmmReclaimPiece b (e - b) st) (\<lambda>(st1, n).
            bindO (pmmReclaimRanges rs st1) (\<lambda>(st2, k). Ret (st2, n + k))))"

definition pmmReclaimLoaderMemory :: "bool \<Rightarrow> Pmm \<Rightarrow> Pmm outcome" where
  "pmmReclaimLoaderMemory tablesActive st =
     (if loaderReclaimDone st then Panic ''pmm: pmmReclaimLoaderMemory: called twice''
      else if \<not> tablesActive then Panic ''pmm: pmmReclaimLoaderMemory: called before the kernel's own page tables are active''
      else bindO (pmmReclaimRanges (loaderReclaim (pmmMap st)) (st\<lparr>loaderReclaimDone := True\<rparr>)) (\<lambda>(st1, n).
        if n > typePages (pmmMap st1) BOOT_MEM_LOADER_RECLAIM then Panic ''pmm: reclaim: more than ever recorded''
        else Ret (st1\<lparr>pmmReclaimedPagesValue := pmmReclaimedPagesValue st1 + n\<rparr>)))"

definition pmmReclaimAcpiMemory :: "bool \<Rightarrow> Pmm \<Rightarrow> Pmm outcome" where
  "pmmReclaimAcpiMemory tablesActive st =
     (if acpiReclaimDone st then Panic ''pmm: pmmReclaimAcpiMemory: called twice''
      else if \<not> tablesActive then Panic ''pmm: pmmReclaimAcpiMemory: called before the kernel's own page tables are active''
      else bindO (pmmReclaimRanges (acpiReclaim (pmmMap st)) (st\<lparr>acpiReclaimDone := True\<rparr>)) (\<lambda>(st1, n).
        if n > typePages (pmmMap st1) BOOT_MEM_ACPI_RECLAIM then Panic ''pmm: reclaim: more than ever recorded''
        else Ret (st1\<lparr>pmmReclaimedPagesValue := pmmReclaimedPagesValue st1 + n, pmmAcpiReclaimedPagesValue := n\<rparr>)))"

subsection \<open>Statistics\<close>

record PmmStats =
  st_usablePages :: u64
  st_managedPages :: u64
  st_freePages :: u64
  st_cachedPages :: u64
  st_allocatedPages :: u64
  st_earlyPages :: u64
  st_pageArrayPages :: u64
  st_pageTablePages :: u64
  st_lowReservedPages :: u64
  st_unmappedPages :: u64
  st_reclaimedPages :: u64
  st_acpiReclaimedPages :: u64
  st_zoneManagedPages :: "PmmZoneId \<Rightarrow> u64"
  st_zoneFreePages :: "PmmZoneId \<Rightarrow> u64"
  st_typePages :: "u32 \<Rightarrow> u64"

definition pmmGetStats :: "Pmm \<Rightarrow> PmmStats" where
  "pmmGetStats st =
     (let zs = [PMM_ZONE_DMA32, PMM_ZONE_NORMAL];
          zfree = (\<lambda>z. of_nat (freePages (zones (mem st) z)) + of_nat (pcpCount (mem st) z));
          zman = (\<lambda>z. of_nat (managedPages (zones (mem st) z)));
          managed = (\<Sum>z \<leftarrow> zs. zman z);
          free = (\<Sum>z \<leftarrow> zs. zfree z)
      in \<lparr>st_usablePages = typePages (pmmMap st) BOOT_MEM_USABLE,
          st_managedPages = managed, st_freePages = free,
          st_cachedPages = (\<Sum>z \<leftarrow> zs. of_nat (pcpCount (mem st) z)),
          st_allocatedPages = managed - free,
          st_earlyPages = pmmEarlyUsedPages (early st),
          st_pageArrayPages = pmmPageArrayPages st, st_pageTablePages = pmmPageTablePages st,
          st_lowReservedPages = lowReservedPages (pmmMap st), st_unmappedPages = unmappedPages (pmmMap st),
          st_reclaimedPages = pmmReclaimedPagesValue st, st_acpiReclaimedPages = pmmAcpiReclaimedPagesValue st,
          st_zoneManagedPages = zman, st_zoneFreePages = zfree,
          st_typePages = typePages (pmmMap st)\<rparr>)"

text \<open>The self-check at the end of \<open>pmmPrintMeminfo\<close>.\<close>

definition meminfoCheck :: "PmmStats \<Rightarrow> bool" where
  "meminfoCheck s \<longleftrightarrow> st_managedPages s + st_earlyPages s + st_lowReservedPages s + st_unmappedPages s
     = st_usablePages s + st_reclaimedPages s"

section \<open>Views of the page array\<close>

definition allocs :: "(nat \<Rightarrow> Page) \<Rightarrow> (nat \<times> nat) set" where
  "allocs pg = {(p, k). state (pg p) = PAGE_STATE_ALLOCATED \<and> order (pg p) = k}"

definition cached :: "(nat \<Rightarrow> Page) \<Rightarrow> PmmZoneId \<Rightarrow> nat set" where
  "cached pg z = {p. state (pg p) = PAGE_STATE_PCP \<and> pmmZoneOfPfn p = z}"

definition unowned :: "(nat \<Rightarrow> Page) \<Rightarrow> nat set" where
  "unowned pg = {p. \<not> free_or_tail (state (pg p)) \<and> state (pg p) \<noteq> PAGE_STATE_PCP \<and> state (pg p) \<noteq> PAGE_STATE_ALLOCATED}"

definition avail :: "(nat \<Rightarrow> Page) \<Rightarrow> PmmZoneId \<Rightarrow> nat set" where
  "avail pg z = freeSet pg z \<union> cached pg z"

lemma allocs_upd: "allocs (pg(p := P)) = {x \<in> allocs pg. fst x \<noteq> p} \<union> (if state P = PAGE_STATE_ALLOCATED then {(p, order P)} else {})"
  by (auto simp: allocs_def split: if_splits)

lemma cached_upd: "cached (pg(p := P)) z = cached pg z - {p} \<union> (if state P = PAGE_STATE_PCP \<and> pmmZoneOfPfn p = z then {p} else {})"
  by (auto simp: cached_def split: if_splits)

lemma unowned_upd:
  assumes "p \<notin> unowned pg" "p \<notin> unowned (\<lambda>_. P)"
  shows "unowned (pg(p := P)) = unowned pg"
  using assms by (auto simp: unowned_def split: if_splits)

lemma pages_step_views:
  assumes "pages_step pg pg'"
  shows "allocs pg' = allocs pg" "cached pg' = cached pg" "unowned pg' = unowned pg" "flags (pg' q) = flags (pg q)"
proof -
  have st: "state (pg' q) = state (pg q) \<and> order (pg' q) = order (pg q)
      \<or> free_or_tail (state (pg q)) \<and> free_or_tail (state (pg' q))" for q
    using assms unfolding pages_step_def by metis
  show "allocs pg' = allocs pg" "cached pg' = cached pg" "unowned pg' = unowned pg"
    unfolding allocs_def cached_def unowned_def fun_eq_iff using st by (auto simp: free_or_tail_def) (metis PageState.distinct)+
  have "flags (body (pg' q)) = flags (body (pg q))" using assms unfolding pages_step_def by metis
  then show "flags (pg' q) = flags (pg q)" by (simp add: body_def)
qed

section \<open>Memory invariant\<close>

definition memInv :: "Mem \<Rightarrow> nat set \<Rightarrow> bool" where
  "memInv m F \<longleftrightarrow> (\<exists>L. binv m L) \<and> loose (pages m) = F \<and> (\<forall>z. zoneFree m z = card (freeSet (pages m) z))"

text \<open>Everything a step of the buddy allocator leaves alone.\<close>

definition frame :: "Mem \<Rightarrow> Mem \<Rightarrow> bool" where
  "frame m m' \<longleftrightarrow> allocs (pages m') = allocs (pages m) \<and> cached (pages m') = cached (pages m)
     \<and> unowned (pages m') = unowned (pages m) \<and> (\<forall>q. flags (pages m' q) = flags (pages m q))
     \<and> pcpCount m' = pcpCount m \<and> (\<forall>z. managedPages (zones m' z) = managedPages (zones m z))"

lemma bstep_frame: "bstep m L m' L' \<Longrightarrow> frame m m'"
  unfolding bstep_def frame_def using pages_step_views by simp

lemma freeSet_card_add:
  assumes i: "binv m L" and b: "blk p k \<subseteq> loose (pages m)"
  shows "card (freeSet (pages m) z \<union> blk p k) = card (freeSet (pages m) z) + 2 ^ k"
  using freeSet_finite [OF i, of z] freeSet_loose [of "pages m" z] b
  by (subst card_Un_disjoint) auto

lemma mem_free:
  assumes m: "memInv m F" and b: "blk p k \<subseteq> F" and a: "2 ^ k dvd p" "k \<le> PMM_MAX_ORDER" and z: "pmmZoneOfPfn p = z"
  shows "memInv (buddyFreeBlock z p k m) (F - blk p k)" and "frame m (buddyFreeBlock z p k m)"
    and "freeSet (pages (buddyFreeBlock z p k m)) y = freeSet (pages m) y \<union> (if z = y then blk p k else {})"
proof -
  obtain L where i: "binv m L" and F: "loose (pages m) = F" and c: "\<And>z. zoneFree m z = card (freeSet (pages m) z)"
    using m by (auto simp: memInv_def)
  note st = buddyFreeBlock_step [OF i b [folded F] a z]
  show "freeSet (pages (buddyFreeBlock z p k m)) y = freeSet (pages m) y \<union> (if z = y then blk p k else {})"
    by (rule st(3))
  show "frame m (buddyFreeBlock z p k m)" using st(1) bstep_frame by blast
  have "zoneFree (buddyFreeBlock z p k m) y = card (freeSet (pages (buddyFreeBlock z p k m)) y)" for y
    unfolding st(3) st(4) using freeSet_card_add [OF i b [folded F]] c by auto
  then show "memInv (buddyFreeBlock z p k m) (F - blk p k)"
    using st(1,2) F by (auto simp: memInv_def bstep_def)
qed

lemma mem_alloc:
  assumes m: "memInv m F" and o: "k \<le> PMM_MAX_ORDER" and r: "buddyAllocBlock z k m = Some (m', p)"
  shows "memInv m' (F \<union> blk p k)" and "frame m m'" and "blk p k \<inter> F = {}"
    and "freeSet (pages m) y = freeSet (pages m') y \<union> (if z = y then blk p k else {})"
    and "freeSet (pages m') y \<inter> blk p k = {}"
    and "2 ^ k dvd p" "pmmZoneOfPfn p = z" "state (pages m' p) = PAGE_STATE_TAIL" "order (pages m' p) = 0"
proof -
  obtain L where i: "binv m L" and F: "loose (pages m) = F" and c: "\<And>z. zoneFree m z = card (freeSet (pages m) z)"
    using m by (auto simp: memInv_def)
  note st = buddyAllocBlock_step [OF i o r]
  show fs: "freeSet (pages m) y = freeSet (pages m') y \<union> (if z = y then blk p k else {})" for y by (rule st(3))
  show "frame m m'" using st(1) bstep_frame by blast
  show "2 ^ k dvd p" "pmmZoneOfPfn p = z" using st by auto
  show "state (pages m' p) = PAGE_STATE_TAIL" "order (pages m' p) = 0" using buddyAllocBlock_page [OF i o r] by auto
  show "blk p k \<inter> F = {}" using st(3) [of z] freeSet_loose [of "pages m" z] F by auto
  obtain L' where i': "binv m' L'" using st(1) by (auto simp: bstep_def)
  have b: "blk p k \<subseteq> loose (pages m')" using st(2) by simp
  show "freeSet (pages m') y \<inter> blk p k = {}" using freeSet_loose [of "pages m'" y] b by blast
  have "zoneFree m' y = card (freeSet (pages m') y)" for y
    using st(3) [of y] freeSet_card_add [OF i' b, of y] c [of y] unfolding st(4) by auto
  then show "memInv m' (F \<union> blk p k)" using i' st(2) F by (auto simp: memInv_def)
qed

section \<open>Heads that change owner\<close>

lemma freeSet_nonbuddy:
  "state (pg p) \<noteq> PAGE_STATE_BUDDY \<Longrightarrow> state P \<noteq> PAGE_STATE_BUDDY \<Longrightarrow> freeSet (pg(p := P)) = freeSet pg"
  using freeSet_other by blast

lemma mem_pcpPush:
  assumes m: "memInv m F" and p: "p \<in> F" and z: "pmmZoneOfPfn p = z"
    and f: "state (f (pages m p)) = PAGE_STATE_PCP" "order (f (pages m p)) = 0"
  shows "memInv (pcpPush z p f m) (F - {p})"
proof -
  obtain L where i: "binv m L" and F: "loose (pages m) = F" and c: "\<And>z. zoneFree m z = card (freeSet (pages m) z)"
    using m by (auto simp: memInv_def)
  let ?m = "pcpPush z p f m" and ?P = "f (pages m p)"
  have pt: "state (pages m p) = PAGE_STATE_TAIL" using p F loose_in(1) by blast
  have pg: "pages ?m = (pages m)(p := ?P)" "links ?m = listPushHead (PcpHead z) (Lru p) (links m)"
    by (auto simp: pcpPush_def set_defs Let_def)
  have ct: "counter ?m g = (if g = PcpHead z then counter m (PcpHead z) + 1 else counter m g)" for g
    by (cases g) (auto simp: pcpPush_def set_defs Let_def)
  have b: "blk p 0 \<subseteq> loose (pages m)" using p F by simp
  have co: "classOf p ?P = Some (PcpHead z)" using f z by (simp add: classOf_def)
  note bd = bind_head [OF i b _ _ co f(2) _ _ pg ct]
  have "binv ?m (L(PcpHead z := p # L (PcpHead z)))" "loose (pages ?m) = loose (pages m) - blk p 0"
    using bd f by auto
  moreover have "zoneFree ?m = zoneFree m" by (auto simp: pcpPush_def set_defs Let_def zoneFree_def fun_eq_iff)
  moreover have "freeSet (pages ?m) = freeSet (pages m)" unfolding pg by (rule freeSet_nonbuddy) (use pt f in auto)
  ultimately show ?thesis using c F by (auto simp: memInv_def)
qed

lemma pcpPush_views:
  assumes "p \<notin> unowned (pages m)" "state (pages m p) \<noteq> PAGE_STATE_BUDDY" "state (f (pages m p)) = PAGE_STATE_PCP"
    "flags (f (pages m p)) = flags (pages m p)" "pmmZoneOfPfn p = z"
  shows "allocs (pages (pcpPush z p f m)) = {x \<in> allocs (pages m). fst x \<noteq> p}"
    "cached (pages (pcpPush z p f m)) y = cached (pages m) y \<union> (if z = y then {p} else {})"
    "unowned (pages (pcpPush z p f m)) = unowned (pages m)" "freeSet (pages (pcpPush z p f m)) = freeSet (pages m)"
    "flags (pages (pcpPush z p f m) q) = flags (pages m q)" "zones (pcpPush z p f m) = zones m"
    "pcpCount (pcpPush z p f m) = (pcpCount m)(z := pcpCount m z + 1)"
proof -
  have pg: "pages (pcpPush z p f m) = (pages m)(p := f (pages m p))" by (auto simp: pcpPush_def set_defs Let_def)
  show "allocs (pages (pcpPush z p f m)) = {x \<in> allocs (pages m). fst x \<noteq> p}"
    "unowned (pages (pcpPush z p f m)) = unowned (pages m)"
    "flags (pages (pcpPush z p f m) q) = flags (pages m q)"
    unfolding pg using assms by (auto simp: allocs_upd unowned_def split: if_splits)
  show "freeSet (pages (pcpPush z p f m)) = freeSet (pages m)"
    unfolding pg by (rule freeSet_nonbuddy) (use assms in auto)
  show "cached (pages (pcpPush z p f m)) y = cached (pages m) y \<union> (if z = y then {p} else {})"
    unfolding pg using assms by (auto simp: cached_def split: if_splits)
  show "zones (pcpPush z p f m) = zones m" "pcpCount (pcpPush z p f m) = (pcpCount m)(z := pcpCount m z + 1)"
    by (auto simp: pcpPush_def set_defs Let_def)
qed

lemma classOf_pcp: "classOf p P = Some (PcpHead z) \<longleftrightarrow> state P = PAGE_STATE_PCP \<and> pmmZoneOfPfn p = z"
  by (cases "state P") (auto simp: classOf_def)

text \<open>The cache list holds exactly the cached pages.\<close>

lemma binv_pcp:
  assumes i: "binv m L"
  shows "set (L (PcpHead z)) = cached (pages m) z" "distinct (L (PcpHead z))" "pcpCount m z = card (cached (pages m) z)"
proof -
  have h: "PcpHead z \<in> listHeads" by (simp add: listHeads_def)
  show s: "set (L (PcpHead z)) = cached (pages m) z"
    using binvD(2) [OF i h] by (simp add: classOf_pcp cached_def)
  show d: "distinct (L (PcpHead z))"
    using rings_ring [OF binvD(1) [OF i] h] by (simp add: ring_def distinct_map)
  show "pcpCount m z = card (cached (pages m) z)"
    using binvD(3) [OF i h] distinct_card [OF d] s by simp
qed

lemma memInv_count: "memInv m F \<Longrightarrow> pcpCount m z = card (cached (pages m) z)"
  using binv_pcp(3) by (auto simp: memInv_def)

definition detach :: "nat \<Rightarrow> Mem \<Rightarrow> Mem" where
  "detach p m = setPage p (\<lambda>x. x\<lparr>state := PAGE_STATE_TAIL\<rparr>) m"

text \<open>Taking a cached page off its list, whichever end it comes from.\<close>

lemma mem_pcp_take:
  assumes m: "memInv m F" and p: "p \<in> cached (pages m) z"
  shows "memInv (detach p (setPcpCount z (pcpCount m z - 1) (m\<lparr>links := listRemove (Lru p) (links m)\<rparr>))) (insert p F)"
    (is "memInv ?m _")
proof -
  obtain L where i: "binv m L" and F: "loose (pages m) = F" and c: "\<And>z. zoneFree m z = card (freeSet (pages m) z)"
    using m by (auto simp: memInv_def)
  let ?P = "(pages m p)\<lparr>state := PAGE_STATE_TAIL\<rparr>"
  have ps: "state (pages m p) = PAGE_STATE_PCP" "pmmZoneOfPfn p = z" using p by (auto simp: cached_def)
  have co: "classOf p (pages m p) = Some (PcpHead z)" using ps by (simp add: classOf_def)
  have pg: "pages ?m = (pages m)(p := ?P)" "links ?m = listRemove (Lru p) (links m)"
    by (auto simp: detach_def set_defs)
  have ct: "counter ?m g = (if g = PcpHead z then counter m (PcpHead z) - 1 else counter m g)" for g
    by (cases g) (auto simp: detach_def set_defs)
  have tl: "state ?P = PAGE_STATE_TAIL" by simp
  note ub = unbind_head [OF i co tl pg ct]
  have "order (pages m p) = 0" using binvD(6) [OF i ps(1)] .
  then have "loose (pages ?m) = insert p F" using ub(2) F by simp
  moreover have "zoneFree ?m = zoneFree m" by (auto simp: detach_def set_defs zoneFree_def fun_eq_iff)
  moreover have "freeSet (pages ?m) = freeSet (pages m)" unfolding pg by (rule freeSet_nonbuddy) (use ps in auto)
  ultimately show ?thesis using ub(1) c by (auto simp: memInv_def)
qed

lemma pcp_pop_head:
  assumes m: "memInv m F"
  shows "if cached (pages m) z = {} then listPopHead (PcpHead z) (links m) = (None, links m)
    else \<exists>p \<in> cached (pages m) z. listPopHead (PcpHead z) (links m) = (Some (Lru p), listRemove (Lru p) (links m))"
proof -
  obtain L where i: "binv m L" using m by (auto simp: memInv_def)
  have h: "PcpHead z \<in> listHeads" by (simp add: listHeads_def)
  show ?thesis using rings_pop_head(1) [OF binvD(1) [OF i] h] binv_pcp(1) [OF i, of z]
    by (cases "L (PcpHead z)") auto
qed

lemma pcp_pop_tail:
  assumes m: "memInv m F"
  shows "if cached (pages m) z = {} then listPopTail (PcpHead z) (links m) = (None, links m)
    else \<exists>p \<in> cached (pages m) z. listPopTail (PcpHead z) (links m) = (Some (Lru p), listRemove (Lru p) (links m))"
proof -
  obtain L where i: "binv m L" using m by (auto simp: memInv_def)
  have h: "PcpHead z \<in> listHeads" by (simp add: listHeads_def)
  show ?thesis using rings_pop_tail(1) [OF binvD(1) [OF i] h] binv_pcp(1) [OF i, of z]
    by (cases "L (PcpHead z)" rule: rev_cases) auto
qed

text \<open>Allocated heads are on no list.\<close>

lemma unlisted_head:
  assumes i: "binv m L" and P: "classOf p (pages m p) = None" "classOf p P = None" "state P \<noteq> PAGE_STATE_PCP"
    "state P \<noteq> PAGE_STATE_BUDDY" and t: "tiling ((pages m)(p := P))"
  shows "binv (m\<lparr>pages := (pages m)(p := P)\<rparr>) L"
proof -
  let ?m = "m\<lparr>pages := (pages m)(p := P)\<rparr>"
  have ct: "counter ?m g = counter m g" for g by (cases g) auto
  have "{q. classOf q (((pages m)(p := P)) q) = Some h} = {q. classOf q (pages m q) = Some h}" for h
    using P by auto
  moreover have "coalesced ((pages m)(p := P))"
    using binvD(5) [OF i] P(4) by (auto simp: coalesced_def isFreeBuddy_def)
  ultimately show ?thesis
    unfolding binv_def using binvD [OF i] ct t P(3) by auto
qed

lemma mem_mark:
  assumes m: "memInv m F" and b: "blk p k \<subseteq> F" and a: "2 ^ k dvd p" "k \<le> PMM_MAX_ORDER"
    and f: "state (f (pages m p)) = PAGE_STATE_ALLOCATED" "order (f (pages m p)) = k"
  shows "memInv (setPage p f m) (F - blk p k)"
proof -
  obtain L where i: "binv m L" and F: "loose (pages m) = F" and c: "\<And>z. zoneFree m z = card (freeSet (pages m) z)"
    using m by (auto simp: memInv_def)
  let ?P = "f (pages m p)"
  have pt: "state (pages m p) = PAGE_STATE_TAIL" using b F loose_in(1) blk_self by blast
  have "is_head (state ?P)" using f by simp
  note mk = make_head [OF binvD(4) [OF i] b [folded F] a this f(2)]
  have "binv (m\<lparr>pages := (pages m)(p := ?P)\<rparr>) L"
    by (rule unlisted_head [OF i]) (use pt f mk in \<open>auto simp: classOf_def\<close>)
  moreover have "freeSet ((pages m)(p := ?P)) = freeSet (pages m)" by (rule freeSet_nonbuddy) (use pt f in auto)
  ultimately show ?thesis using mk(2) F c by (auto simp: memInv_def setPage_def zoneFree_def)
qed

lemma mem_unmark:
  assumes m: "memInv m F" and p: "(p, k) \<in> allocs (pages m)"
    and f: "state (f (pages m p)) = PAGE_STATE_TAIL"
  shows "memInv (setPage p f m) (F \<union> blk p k)"
proof -
  obtain L where i: "binv m L" and F: "loose (pages m) = F" and c: "\<And>z. zoneFree m z = card (freeSet (pages m) z)"
    using m by (auto simp: memInv_def)
  let ?P = "f (pages m p)"
  have ps: "state (pages m p) = PAGE_STATE_ALLOCATED" "order (pages m p) = k" using p by (auto simp: allocs_def)
  have h: "is_head (state (pages m p))" using ps by simp
  note dh = drop_head [OF binvD(4) [OF i] h f]
  have "binv (m\<lparr>pages := (pages m)(p := ?P)\<rparr>) L"
    by (rule unlisted_head [OF i]) (use ps f dh in \<open>auto simp: classOf_def\<close>)
  moreover have "freeSet ((pages m)(p := ?P)) = freeSet (pages m)" by (rule freeSet_nonbuddy) (use ps f in auto)
  ultimately show ?thesis using dh(2) F c ps by (auto simp: memInv_def setPage_def zoneFree_def)
qed

lemma alloc_block:
  assumes m: "memInv m F" and p: "(p, k) \<in> allocs (pages m)"
  shows "2 ^ k dvd p" "k \<le> PMM_MAX_ORDER" "blk p k \<inter> F = {}"
    "\<And>z. blk p k \<inter> avail (pages m) z = {}"
    "\<And>q j. (q, j) \<in> allocs (pages m) \<Longrightarrow> (q, j) \<noteq> (p, k) \<Longrightarrow> blk p k \<inter> blk q j = {}"
proof -
  have t: "tiling (pages m)" and F: "loose (pages m) = F" using m by (auto simp: memInv_def binv_def)
  have ps: "state (pages m p) = PAGE_STATE_ALLOCATED" "order (pages m p) = k" using p by (auto simp: allocs_def)
  then show "2 ^ k dvd p" "k \<le> PMM_MAX_ORDER" using tilingD [OF t, of p] by auto
  have cv: "covers (pages m) p x" if "x \<in> blk p k" for x using that ps by (simp add: covers_def)
  show "blk p k \<inter> F = {}" using cv loose_in(2) unfolding F [symmetric] by blast
  show "blk p k \<inter> avail (pages m) z = {}" for z
  proof -
    have "r = p" if "x \<in> blk p k" "is_head (state (pages m r))" "x \<in> blk r (order (pages m r))" for x r
      using cover_unique [OF t _ cv [OF that(1)]] that(2,3) by (simp add: covers_def)
    moreover have "order (pages m x) = 0" if "state (pages m x) = PAGE_STATE_PCP" for x
      using that m by (auto simp: memInv_def binv_def)
    ultimately show ?thesis
      using ps unfolding avail_def freeSet_def cached_def by (force simp: is_head_def)
  qed
  show "blk p k \<inter> blk q j = {}" if q: "(q, j) \<in> allocs (pages m)" "(q, j) \<noteq> (p, k)" for q j
  proof -
    have "state (pages m q) = PAGE_STATE_ALLOCATED" "order (pages m q) = j" using q by (auto simp: allocs_def)
    then have "q = p" if "x \<in> blk p k" "x \<in> blk q j" for x
      using cover_unique [OF t _ cv [OF that(1)], of q] that(2) by (simp add: covers_def)
    moreover have "q \<noteq> p" using q p by (auto simp: allocs_def)
    ultimately show ?thesis by blast
  qed
qed

section \<open>The page cache\<close>

text \<open>Moving pages between the cache and the free lists changes nothing a caller can see.\<close>

definition cframe :: "Mem \<Rightarrow> Mem \<Rightarrow> bool" where
  "cframe m m' \<longleftrightarrow> allocs (pages m') = allocs (pages m) \<and> unowned (pages m') = unowned (pages m)
     \<and> (\<forall>q. flags (pages m' q) = flags (pages m q)) \<and> (\<forall>z. avail (pages m') z = avail (pages m) z)
     \<and> (\<forall>z. managedPages (zones m' z) = managedPages (zones m z))"

lemma cframe_refl [simp]: "cframe m m"
  by (simp add: cframe_def)

lemma cframe_trans: "cframe m m1 \<Longrightarrow> cframe m1 m2 \<Longrightarrow> cframe m m2"
  by (simp add: cframe_def)

lemma refill_step:
  assumes m: "memInv m F" and r: "buddyAllocBlock z 0 m = Some (m1, p)"
  defines "m2 \<equiv> pcpPush z p (\<lambda>x. x\<lparr>state := PAGE_STATE_PCP\<rparr>) m1"
  shows "memInv m2 F" "cframe m m2" "pcpCount m2 = (pcpCount m)(z := pcpCount m z + 1)"
proof -
  have o: "(0::nat) \<le> PMM_MAX_ORDER" by simp
  note A = mem_alloc [OF m o r]
  have f: "state ((\<lambda>x. x\<lparr>state := PAGE_STATE_PCP\<rparr>) (pages m1 p)) = PAGE_STATE_PCP"
    "order ((\<lambda>x. x\<lparr>state := PAGE_STATE_PCP\<rparr>) (pages m1 p)) = 0" using A(9) by auto
  have "memInv m2 (F \<union> blk p 0 - {p})"
    unfolding m2_def by (rule mem_pcpPush [OF A(1) _ A(7)]) (use f in auto)
  then show "memInv m2 F" using A(3) by simp
  have v: "p \<notin> unowned (pages m1)" "state (pages m1 p) \<noteq> PAGE_STATE_BUDDY" using A(8) by (auto simp: unowned_def)
  have fl: "flags ((\<lambda>x. x\<lparr>state := PAGE_STATE_PCP\<rparr>) (pages m1 p)) = flags (pages m1 p)" by simp
  note V = pcpPush_views [where f = "\<lambda>x. x\<lparr>state := PAGE_STATE_PCP\<rparr>", OF v f(1) fl A(7), folded m2_def]
  have fr: "allocs (pages m1) = allocs (pages m)" "cached (pages m1) = cached (pages m)" "unowned (pages m1) = unowned (pages m)"
    "\<And>q. flags (pages m1 q) = flags (pages m q)" "pcpCount m1 = pcpCount m" "\<And>z. managedPages (zones m1 z) = managedPages (zones m z)"
    using A(2) by (auto simp: frame_def)
  have "{x \<in> allocs (pages m1). fst x \<noteq> p} = allocs (pages m1)" using A(8) by (auto simp: allocs_def)
  moreover have "avail (pages m2) y = avail (pages m) y" for y
    using V(2) [of y] V(4) A(4) [of y] fr by (auto simp: avail_def)
  ultimately show "cframe m m2" using V fr by (simp add: cframe_def)
  show "pcpCount m2 = (pcpCount m)(z := pcpCount m z + 1)" using V(7) fr by simp
qed

lemma mem_refill:
  assumes "memInv m F"
  shows "memInv (pcpRefill n z m) F \<and> cframe m (pcpRefill n z m)
    \<and> (\<forall>y. y \<noteq> z \<longrightarrow> pcpCount (pcpRefill n z m) y = pcpCount m y)
    \<and> pcpCount m z \<le> pcpCount (pcpRefill n z m) z \<and> pcpCount (pcpRefill n z m) z \<le> pcpCount m z + n
    \<and> (0 < n \<longrightarrow> pcpCount (pcpRefill n z m) z = pcpCount m z \<longrightarrow> buddyAllocBlock z 0 m = None \<and> pcpRefill n z m = m)"
  using assms
proof (induction n arbitrary: m)
  case 0
  then show ?case by simp
next
  case (Suc n)
  show ?case
  proof (cases "buddyAllocBlock z 0 m")
    case None
    then show ?thesis using Suc.prems by simp
  next
    case (Some r)
    obtain m1 p where r: "buddyAllocBlock z 0 m = Some (m1, p)" using Some by (cases r) auto
    note st = refill_step [OF Suc.prems r]
    show ?thesis using Suc.IH [OF st(1)] st r cframe_trans [OF st(2)] by auto
  qed
qed

lemma detach_views:
  assumes p: "state (pages m p) = PAGE_STATE_PCP"
  shows "allocs (pages (detach p m)) = allocs (pages m)" "unowned (pages (detach p m)) = unowned (pages m)"
    "flags (pages (detach p m) q) = flags (pages m q)" "freeSet (pages (detach p m)) = freeSet (pages m)"
    "cached (pages (detach p m)) y = cached (pages m) y - {p}"
    "zones (detach p m) = zones m" "pcpCount (detach p m) = pcpCount m"
proof -
  have pg: "pages (detach p m) = (pages m)(p := (pages m p)\<lparr>state := PAGE_STATE_TAIL\<rparr>)" by (simp add: detach_def setPage_def)
  show "freeSet (pages (detach p m)) = freeSet (pages m)"
    unfolding pg by (rule freeSet_nonbuddy) (use p in auto)
  show "allocs (pages (detach p m)) = allocs (pages m)" "unowned (pages (detach p m)) = unowned (pages m)"
    "flags (pages (detach p m) q) = flags (pages m q)" "cached (pages (detach p m)) y = cached (pages m) y - {p}"
    unfolding pg using p by (auto simp: allocs_def unowned_def cached_def split: if_splits)
  show "zones (detach p m) = zones m" "pcpCount (detach p m) = pcpCount m" by (auto simp: detach_def setPage_def)
qed

lemma release_step:
  assumes m: "memInv m F" and p: "p \<in> cached (pages m) z"
  defines "m2 \<equiv> pcpRelease z p (m\<lparr>links := listRemove (Lru p) (links m)\<rparr>)"
  shows "memInv m2 F" "cframe m m2" "pcpCount m2 = (pcpCount m)(z := pcpCount m z - 1)"
proof -
  let ?m0 = "setPcpCount z (pcpCount m z - 1) (m\<lparr>links := listRemove (Lru p) (links m)\<rparr>)"
  let ?m1 = "detach p ?m0"
  have ps: "state (pages m p) = PAGE_STATE_PCP" "pmmZoneOfPfn p = z" using p by (auto simp: cached_def)
  have m2: "m2 = buddyFreeBlock z p 0 ?m1" by (simp add: m2_def pcpRelease_def detach_def Let_def)
  have i1: "memInv ?m1 (insert p F)" by (rule mem_pcp_take [OF m p])
  have pF: "p \<notin> F" using m ps loose_in(1) [of p "pages m"] by (auto simp: memInv_def)
  have b: "blk p 0 \<subseteq> insert p F" by simp
  note fr = mem_free [OF i1 b _ _ ps(2), folded m2]
  have ps0: "state (pages ?m0 p) = PAGE_STATE_PCP" using ps by (simp add: set_defs)
  note dv = detach_views [OF ps0]
  have eq0: "pages ?m0 = pages m" "zones ?m0 = zones m" "pcpCount ?m0 = (pcpCount m)(z := pcpCount m z - 1)" by (auto simp: set_defs)
  show "memInv m2 F" using fr(1) pF by simp
  have F2: "frame ?m1 m2" using fr(2) by simp
  have "avail (pages m2) y = avail (pages m) y" for y
    using fr(3) [of y] F2 dv(4) dv(5) [of y] eq0 p ps(2) by (auto simp: avail_def frame_def cached_def)
  then show "cframe m m2" using F2 dv eq0 by (simp add: cframe_def frame_def)
  show "pcpCount m2 = (pcpCount m)(z := pcpCount m z - 1)" using F2 dv eq0 by (simp add: frame_def)
qed

lemma mem_trim:
  assumes "memInv m F"
  shows "memInv (pcpTrim n z m) F \<and> cframe m (pcpTrim n z m)
    \<and> pcpCount (pcpTrim n z m) = (pcpCount m)(z := pcpCount m z - n)"
  using assms
proof (induction n arbitrary: m)
  case 0
  then show ?case by simp
next
  case (Suc n)
  show ?case
  proof (cases "cached (pages m) z = {}")
    case True
    then have "pcpTrim (Suc n) z m = m" "pcpCount m z = 0"
      using pcp_pop_tail [OF Suc.prems, of z] memInv_count [OF Suc.prems, of z] by auto
    then show ?thesis using Suc.prems by (auto simp: fun_eq_iff)
  next
    case False
    then obtain p where p: "p \<in> cached (pages m) z"
      and pop: "listPopTail (PcpHead z) (links m) = (Some (Lru p), listRemove (Lru p) (links m))"
      using pcp_pop_tail [OF Suc.prems, of z] by auto
    note st = release_step [OF Suc.prems p]
    show ?thesis using Suc.IH [OF st(1)] st cframe_trans [OF st(2)] pop by (auto simp: fun_eq_iff)
  qed
qed

lemma mem_drain:
  assumes "memInv m F"
  shows "\<exists>m'. pcpDrain z m = Some m' \<and> memInv m' F \<and> cframe m m' \<and> pcpCount m' = (pcpCount m)(z := 0)"
  using assms
proof (induction "pcpCount m z" arbitrary: m)
  case 0
  have "finite (cached (pages m) z)" using 0(2) binv_pcp(1) by (metis List.finite_set memInv_def)
  then have "cached (pages m) z = {}" using memInv_count [OF 0(2), of z] 0(1) by simp
  then have "pcpDrain z m = Some m" using pcp_pop_head [OF 0(2), of z] by (simp add: pcpDrain.simps)
  then show ?case using 0 by (auto simp: fun_eq_iff)
next
  case (Suc n)
  have "cached (pages m) z \<noteq> {}" using memInv_count [OF Suc(3), of z] Suc(2) by auto
  then obtain p where p: "p \<in> cached (pages m) z"
    and pop: "listPopHead (PcpHead z) (links m) = (Some (Lru p), listRemove (Lru p) (links m))"
    using pcp_pop_head [OF Suc(3), of z] by auto
  note st = release_step [OF Suc(3) p]
  let ?m = "pcpRelease z p (m\<lparr>links := listRemove (Lru p) (links m)\<rparr>)"
  have "n = pcpCount ?m z" using st(3) Suc(2) by simp
  from Suc(1) [OF this st(1)] obtain m' where "pcpDrain z ?m = Some m'" "memInv m' F" "cframe ?m m'" "pcpCount m' = (pcpCount ?m)(z := 0)"
    by blast
  then show ?case using pop st cframe_trans [OF st(2)] by (subst pcpDrain.simps) auto
qed

text \<open>
  Allocation from one zone: the frame \<open>pfn\<close> is off every list; with its head marked as a tail page
  (the cache leaves it marked cached) the block is loose.
\<close>

lemma mem_cacheAlloc:
  assumes m: "memInv m F"
  shows "case pmmCacheAllocLocked z m of
      (m', None) \<Rightarrow> m' = m \<and> avail (pages m) z = {}
    | (m', Some p) \<Rightarrow> memInv (detach p m') (insert p F) \<and> p \<in> avail (pages m) z \<and> p \<notin> F
        \<and> pmmZoneOfPfn p = z \<and> state (pages m' p) = PAGE_STATE_PCP
        \<and> cframe m m'
        \<and> (\<forall>y. y \<noteq> z \<longrightarrow> pcpCount m' y = pcpCount m y) \<and> pcpCount m' z \<le> max (pcpCount m z) PMM_PCP_BATCH"
proof -
  define m1 where "m1 = (if pcpCount m z = 0 then pcpRefill PMM_PCP_BATCH z m else m)"
  note R = mem_refill [OF m, of PMM_PCP_BATCH z]
  have m1: "memInv m1 F" "cframe m m1" "\<forall>y. y \<noteq> z \<longrightarrow> pcpCount m1 y = pcpCount m y"
    "pcpCount m1 z \<le> max (pcpCount m z) PMM_PCP_BATCH"
    using m R by (auto simp: m1_def)
  have fin: "finite (cached (pages m1) z)" using m1(1) binv_pcp(1) by (metis List.finite_set memInv_def)
  show ?thesis
  proof (cases "pcpCount m1 z = 0")
    case True
    then have 0: "pcpCount m z = 0" by (auto simp: m1_def split: if_splits)
    then have n: "buddyAllocBlock z 0 m = None" "m1 = m" using R True by (auto simp: m1_def)
    obtain L where i: "binv m L" using m by (auto simp: memInv_def)
    have "freeSet (pages m) z = {}" using buddyAllocBlock_None [OF i, of 0 z] n(1) by auto
    moreover have "cached (pages m) z = {}" using fin n(2) 0 memInv_count [OF m, of z] by simp
    moreover have "pmmCacheAllocLocked z m = (m, None)"
      using 0 n(2) by (simp add: pmmCacheAllocLocked_def Let_def m1_def)
    ultimately show ?thesis by (simp add: avail_def)
  next
    case False
    then have "cached (pages m1) z \<noteq> {}" using memInv_count [OF m1(1), of z] by auto
    then obtain p where p: "p \<in> cached (pages m1) z"
      and pop: "listPopHead (PcpHead z) (links m1) = (Some (Lru p), listRemove (Lru p) (links m1))"
      using pcp_pop_head [OF m1(1), of z] by auto
    let ?m = "setPcpCount z (pcpCount m1 z - 1) (m1\<lparr>links := listRemove (Lru p) (links m1)\<rparr>)"
    have eq: "pmmCacheAllocLocked z m = (?m, Some p)"
      using False pop by (simp add: pmmCacheAllocLocked_def Let_def m1_def [symmetric])
    have "memInv (detach p ?m) (insert p F)" by (rule mem_pcp_take [OF m1(1) p])
    moreover have "cframe m1 ?m" by (simp add: cframe_def set_defs)
    moreover have "p \<in> avail (pages m) z" using p m1(2) by (auto simp: avail_def cframe_def)
    moreover have "p \<notin> F" using m1(1) p loose_in(1) [of p "pages m1"] by (auto simp: memInv_def cached_def)
    ultimately show ?thesis
      unfolding eq using p m1 cframe_trans by (auto simp: cached_def set_defs)
  qed
qed

section \<open>Allocation\<close>

lemma detach_tail: "state (pages m p) = PAGE_STATE_TAIL \<Longrightarrow> detach p m = m"
  by (cases m, cases "pages m p") (simp add: detach_def setPage_def fun_upd_idem_iff)

lemma mark_detach: "setPage p (markAllocated k) (detach p m) = setPage p (markAllocated k) m"
  by (simp add: detach_def setPage_def markAllocated_def)

text \<open>The effect of turning a loose block into an allocated one.\<close>

definition took :: "Mem \<Rightarrow> nat \<Rightarrow> nat \<Rightarrow> Mem \<Rightarrow> bool" where
  "took m p k m' \<longleftrightarrow> memInv m' {} \<and> 2 ^ k dvd p \<and> blk p k \<subseteq> avail (pages m) (pmmZoneOfPfn p)
     \<and> (\<forall>y. avail (pages m') y = avail (pages m) y - blk p k)
     \<and> allocs (pages m') = insert (p, k) (allocs (pages m)) \<and> unowned (pages m') = unowned (pages m)
     \<and> (\<forall>q. flags (pages m' q) = flags (pages m q))
     \<and> (\<forall>z. managedPages (zones m' z) = managedPages (zones m z))"

lemma loose_not_avail:
  assumes "memInv m F" shows "F \<inter> avail (pages m) y = {}"
  using assms freeSet_loose [of "pages m" y] loose_in(1) unfolding memInv_def avail_def cached_def by auto

lemma mark_took:
  assumes D: "memInv (detach p m1) (blk p k)" and a: "2 ^ k dvd p" "k \<le> PMM_MAX_ORDER" and z: "pmmZoneOfPfn p = z"
    and ps: "state (pages m1 p) = PAGE_STATE_TAIL \<or> state (pages m1 p) = PAGE_STATE_PCP"
    and av: "\<And>y. avail (pages m) y = avail (pages (detach p m1)) y \<union> (if z = y then blk p k else {})"
    and fr: "allocs (pages m1) = allocs (pages m)" "unowned (pages m1) = unowned (pages m)"
      "\<And>q. flags (pages m1 q) = flags (pages m q)" "\<And>z. managedPages (zones m1 z) = managedPages (zones m z)"
  shows "took m p k (setPage p (markAllocated k) m1)"
proof -
  let ?M = "setPage p (markAllocated k) m1"
  have "memInv (setPage p (markAllocated k) (detach p m1)) (blk p k - blk p k)"
    by (rule mem_mark [OF D _ a]) (auto simp: markAllocated_def)
  then have i: "memInv ?M {}" by (simp add: mark_detach)
  have pg: "pages ?M = (pages (detach p m1))(p := markAllocated k (pages m1 p))"
    "pages ?M = (pages m1)(p := markAllocated k (pages m1 p))"
    by (auto simp: setPage_def detach_def markAllocated_def)
  have dt: "state (pages (detach p m1) p) = PAGE_STATE_TAIL" by (simp add: detach_def setPage_def)
  have "freeSet (pages ?M) = freeSet (pages (detach p m1))"
    unfolding pg(1) by (rule freeSet_nonbuddy) (use dt in \<open>auto simp: markAllocated_def\<close>)
  moreover have "cached (pages ?M) y = cached (pages (detach p m1)) y" for y
    unfolding pg(1) using dt by (auto simp: cached_def markAllocated_def)
  ultimately have aM: "avail (pages ?M) y = avail (pages (detach p m1)) y" for y by (simp add: avail_def)
  then have "avail (pages ?M) y = avail (pages m) y - blk p k" for y
    using av [of y] loose_not_avail [OF D, of y] by auto
  moreover have "blk p k \<subseteq> avail (pages m) (pmmZoneOfPfn p)" using av [of z] z by auto
  moreover have "{x \<in> allocs (pages m1). fst x \<noteq> p} = allocs (pages m1)" using ps by (auto simp: allocs_def)
  then have "allocs (pages ?M) = insert (p, k) (allocs (pages m))"
    using fr(1) unfolding pg(2) allocs_upd by (simp add: markAllocated_def)
  moreover have "unowned (pages ?M) = unowned (pages m)"
    unfolding pg(2) fr(2) [symmetric] by (rule unowned_upd) (use ps in \<open>auto simp: unowned_def markAllocated_def\<close>)
  moreover have "flags (pages ?M q) = flags (pages m q)" for q using fr(3) [of q] unfolding pg(2) by (auto simp: markAllocated_def)
  moreover have "managedPages (zones ?M z) = managedPages (zones m z)" for z using fr(4) by (simp add: setPage_def)
  ultimately show ?thesis using i a(1) by (simp add: took_def)
qed

definition noBlock :: "nat \<Rightarrow> (nat \<Rightarrow> Page) \<Rightarrow> PmmZoneId \<Rightarrow> bool" where
  "noBlock k pg z \<longleftrightarrow> (if k = 0 then avail pg z = {} else (\<nexists>p. 2 ^ k dvd p \<and> blk p k \<subseteq> freeSet pg z))"

lemma mem_allocIn:
  assumes m: "memInv m {}" and k: "k \<le> PMM_MAX_ORDER"
  shows "case allocIn k z m of
      (m', None) \<Rightarrow> m' = m \<and> noBlock k (pages m) z
    | (m', Some p) \<Rightarrow> took m p k (setPage p (markAllocated k) m') \<and> pmmZoneOfPfn p = z
        \<and> (\<forall>y. pcpCount m' y \<le> max (pcpCount m y) PMM_PCP_BATCH)"
proof (cases "k = 0")
  case True
  note C = mem_cacheAlloc [OF m, of z]
  obtain m' r where r: "pmmCacheAllocLocked z m = (m', r)" by fastforce
  show ?thesis
  proof (cases r)
    case None
    then show ?thesis using C r True by (simp add: allocIn_def noBlock_def)
  next
    case (Some p)
    then have c: "memInv (detach p m') {p}" "p \<in> avail (pages m) z" "pmmZoneOfPfn p = z" "state (pages m' p) = PAGE_STATE_PCP"
      "cframe m m'" "\<forall>y. y \<noteq> z \<longrightarrow> pcpCount m' y = pcpCount m y" "pcpCount m' z \<le> max (pcpCount m z) PMM_PCP_BATCH"
      using C r by auto
    have b: "memInv (detach p m') (blk p k)" using c(1) True by simp
    have al: "2 ^ k dvd p" using True by simp
    have "took m p k (setPage p (markAllocated k) m')"
    proof (rule mark_took [OF b al k c(3)])
      show "avail (pages m) y = avail (pages (detach p m')) y \<union> (if z = y then blk p k else {})" for y
        using detach_views(4) [OF c(4)] detach_views(5) [OF c(4), of y] c(2-5) True
        by (auto simp: avail_def cframe_def cached_def)
    qed (use c(4,5) in \<open>auto simp: cframe_def\<close>)
    moreover have "\<forall>y. pcpCount m' y \<le> max (pcpCount m y) PMM_PCP_BATCH"
      using c(6,7) by (metis max.cobounded1)
    ultimately show ?thesis using r Some True c(3) by (simp add: allocIn_def)
  qed
next
  case False
  obtain L where i: "binv m L" using m by (auto simp: memInv_def)
  show ?thesis
  proof (cases "buddyAllocBlock z k m")
    case None
    then show ?thesis using buddyAllocBlock_None [OF i k, of z] False by (simp add: allocIn_def noBlock_def)
  next
    case (Some r)
    obtain m' p where r: "buddyAllocBlock z k m = Some (m', p)" using Some by (cases r) auto
    note A = mem_alloc [OF m k r]
    have d: "detach p m' = m'" by (rule detach_tail [OF A(8)])
    have b: "memInv (detach p m') (blk p k)" using A(1) d by simp
    have fr: "cached (pages m') = cached (pages m)" "pcpCount m' = pcpCount m" using A(2) by (auto simp: frame_def)
    have "took m p k (setPage p (markAllocated k) m')"
    proof (rule mark_took [OF b A(6) k A(7)])
      show "avail (pages m) y = avail (pages (detach p m')) y \<union> (if z = y then blk p k else {})" for y
        unfolding d avail_def fr A(4) [of y] by auto
    qed (use A(2,8) in \<open>auto simp: frame_def\<close>)
    then show ?thesis using r False A(7) fr by (simp add: allocIn_def)
  qed
qed

lemma mem_allocZones:
  assumes m: "memInv m {}" and k: "k \<le> PMM_MAX_ORDER"
  shows "case allocZones k zs m of
      (m', None) \<Rightarrow> m' = m \<and> (\<forall>z \<in> set zs. noBlock k (pages m) z)
    | (m', Some p) \<Rightarrow> took m p k (setPage p (markAllocated k) m') \<and> pmmZoneOfPfn p \<in> set zs
        \<and> (\<forall>y. pcpCount m' y \<le> max (pcpCount m y) PMM_PCP_BATCH)"
proof (induction zs)
  case (Cons z zs)
  note A = mem_allocIn [OF m k, of z]
  obtain m' r where r: "allocIn k z m = (m', r)" by fastforce
  show ?case
  proof (cases r)
    case None
    then have "m' = m" "noBlock k (pages m) z" using A r by auto
    then show ?thesis using Cons None r by (auto split: prod.splits option.splits)
  next
    case (Some p)
    then show ?thesis using A r by auto
  qed
qed simp

section \<open>The manager's invariant\<close>

definition managed :: "Pmm \<Rightarrow> nat set" where
  "managed st = - unowned (pages (mem st))"

definition pmmFree :: "Pmm \<Rightarrow> nat set" where
  "pmmFree st = (\<Union>z. avail (pages (mem st)) z)"

definition pmmAllocs :: "Pmm \<Rightarrow> (nat \<times> nat) set" where
  "pmmAllocs st = allocs (pages (mem st))"

definition pmmWf :: "Pmm \<Rightarrow> bool" where
  "pmmWf st \<longleftrightarrow> memInv (mem st) {} \<and> spansOk (spans (pmmMap st)) \<and> managed st \<subseteq> spanned (spans (pmmMap st))
     \<and> (\<forall>z. managedPages (zones (mem st) z) = card {p \<in> managed st. pmmZoneOfPfn p = z})
     \<and> (\<forall>z. pcpCount (mem st) z \<le> PMM_PCP_HIGH)"

lemma zone_UNIV: "(\<Union>z. f z) = f PMM_ZONE_DMA32 \<union> f PMM_ZONE_NORMAL"
  by (auto, metis PmmZoneId.exhaust)

text \<open>Every managed frame is free or in exactly one allocated block.\<close>

lemma managed_split:
  assumes m: "memInv (mem st) {}"
  shows "pmmFree st \<union> (\<Union>(p, k) \<in> pmmAllocs st. blk p k) = managed st"
    and "pmmFree st \<inter> (\<Union>(p, k) \<in> pmmAllocs st. blk p k) = {}"
proof -
  define pg where "pg = pages (mem st)"
  have t: "tiling pg" and lo: "loose pg = {}" and p0: "\<And>p. state (pg p) = PAGE_STATE_PCP \<Longrightarrow> order (pg p) = 0"
    using m by (auto simp: memInv_def binv_def pg_def)
  have cov: "q \<in> pmmFree st \<union> (\<Union>(p, k) \<in> pmmAllocs st. blk p k) \<longleftrightarrow> (\<exists>p. covers pg p q)" for q
    using p0 unfolding pmmFree_def pmmAllocs_def pg_def [symmetric] avail_def freeSet_def cached_def allocs_def covers_def is_head_def
    by auto
  have "(\<exists>p. covers pg p q) \<longleftrightarrow> q \<in> managed st" for q
  proof
    assume "\<exists>p. covers pg p q"
    then obtain p where p: "is_head (state (pg p))" "q \<in> blk p (order (pg p))" by (auto simp: covers_def)
    then have "q = p \<or> state (pg q) = PAGE_STATE_TAIL" using tilingD(3) [OF t p(1)] by blast
    then show "q \<in> managed st" using p(1) by (auto simp: managed_def unowned_def pg_def is_head_def)
  next
    assume "q \<in> managed st"
    then have "state (pg q) = PAGE_STATE_TAIL \<or> is_head (state (pg q))"
      by (auto simp: managed_def unowned_def pg_def is_head_def free_or_tail_def)
    then show "\<exists>p. covers pg p q" using lo by (auto simp: loose_def covers_def)
  qed
  then show "pmmFree st \<union> (\<Union>(p, k) \<in> pmmAllocs st. blk p k) = managed st" using cov by blast
  show "pmmFree st \<inter> (\<Union>(p, k) \<in> pmmAllocs st. blk p k) = {}"
    using alloc_block(4) [OF m] unfolding pmmFree_def pmmAllocs_def by blast
qed

end
