(* ===== verification/Pmm_Spec.thy ===== *)
theory Pmm_Spec
  imports Pmm
begin

text \<open>
  What the physical memory manager promises its callers: allocation and release move exactly one
  block between the free frames and the allocated blocks and keep the manager's invariant, misuse of
  \<open>pmmFreePages\<close> is caught and named before anything changes, held blocks never overlap, memory
  enters all or nothing, and the statistics account for every managed frame. The manager is an
  instance of the ledger contract of \<open>Allocator\<close>.
\<close>

section \<open>Page pointers\<close>

lemma page_ptr_unat:
  assumes "p < 2 ^ 39"
  shows "unat (pageFromPfn p) = 0xFFFFE00000000000 + p * 64"
proof -
  have p: "unat (of_nat p :: u64) = p" using assms by (simp add: unat_of_nat_eq)
  have m: "unat (of_nat p * 64 :: u64) = p * 64" using assms p by (subst unat_mult_nowrap) auto
  show ?thesis unfolding pageFromPfn_def VM_PAGE_ARRAY_BASE_def
    using assms m by (subst unat_add_nowrap) auto
qed

lemma page_ptr:
  assumes "p < 2 ^ 39"
  shows "pageToPfn (pageFromPfn p) = p" "pageFromPfn p \<noteq> 0" "\<not> pageFromPfn p < VM_PAGE_ARRAY_BASE"
    "(pageFromPfn p - VM_PAGE_ARRAY_BASE) mod 64 = 0"
proof -
  note u = page_ptr_unat [OF assms]
  have b: "unat VM_PAGE_ARRAY_BASE = 0xFFFFE00000000000" by (simp add: VM_PAGE_ARRAY_BASE_def)
  show n: "\<not> pageFromPfn p < VM_PAGE_ARRAY_BASE" using u b by (simp add: word_less_nat_alt)
  have d: "unat (pageFromPfn p - VM_PAGE_ARRAY_BASE) = p * 64" using u b by (simp add: unat_sub_le)
  then show "pageToPfn (pageFromPfn p) = p" by (simp add: pageToPfn_def)
  show "(pageFromPfn p - VM_PAGE_ARRAY_BASE) mod 64 = 0" using d by (simp add: unat_mod_eq_0)
  show "pageFromPfn p \<noteq> 0" using u by auto
qed

lemma page_ptr_back:
  assumes "\<not> page < VM_PAGE_ARRAY_BASE" "(page - VM_PAGE_ARRAY_BASE) mod 64 = 0"
  shows "pageFromPfn (pageToPfn page) = page" "pageToPfn page < 2 ^ 39"
proof -
  define d where "d = page - VM_PAGE_ARRAY_BASE"
  have d: "unat d mod 64 = 0" using assms(2) by (simp add: d_def unat_mod_eq_0)
  then have e: "unat d div 64 * 64 = unat d" by presburger
  have "unat (of_nat (unat d div 64) :: u64) = unat d div 64"
    using unat_lt_64 [of d] by (intro unat_of_nat_eq) simp
  then have "unat (of_nat (unat d div 64) * 64 :: u64) = unat d"
    using e unat_lt_64 [of d] by (subst unat_mult_nowrap) simp_all
  then have "(of_nat (unat d div 64) * 64 :: u64) = d" by simp
  then show "pageFromPfn (pageToPfn page) = page" by (simp add: pageFromPfn_def pageToPfn_def d_def)
  have "unat d = unat page - unat VM_PAGE_ARRAY_BASE"
    using assms(1) by (simp add: d_def unat_sub_le word_less_nat_alt)
  then have "unat d < 2 ^ 45" using unat_lt_64 [of page] by (simp add: VM_PAGE_ARRAY_BASE_def)
  then show "pageToPfn page < 2 ^ 39" by (simp add: pageToPfn_def d_def less_mult_imp_div_less)
qed

lemma spanned_small: "spansOk ss \<Longrightarrow> p \<in> spanned ss \<Longrightarrow> p < 17179869184"
  using exts_ok_cover_lo [of 0 "unat PMM_HHDM_LIMIT_PFN"] by (auto simp: spansOk_def spanned_def pfn_limits)

lemma managed_small: "pmmWf st \<Longrightarrow> p \<in> managed st \<Longrightarrow> p < 17179869184"
  using spanned_small by (auto simp: pmmWf_def)

lemma valid_pfn:
  assumes "pmmWf st" "p < 2 ^ 64"
  shows "pmmPfnValid (pmmMap st) (of_nat p) \<longleftrightarrow> p \<in> spanned (spans (pmmMap st))"
  using pmmPfnValid_iff [of "pmmMap st" "of_nat p"] assms by (simp add: pmmWf_def unat_of_nat_eq)

section \<open>Allocation\<close>

definition flagsOk :: "u32 \<Rightarrow> bool" where
  "flagsOk fl \<longleftrightarrow> fl AND NOT PMM_FLAGS_VALID = 0"

lemma took_wf:
  assumes w: "pmmWf st" and t: "took (mem st) p k (mem st')" and mp: "pmmMap st' = pmmMap st"
    and c: "\<And>y. pcpCount (mem st') y \<le> max (pcpCount (mem st) y) PMM_PCP_BATCH"
  shows "pmmWf st'" "managed st' = managed st" "pmmAllocs st' = insert (p, k) (pmmAllocs st)"
    "pmmFree st' = pmmFree st - blk p k" "blk p k \<subseteq> pmmFree st" "p \<in> managed st"
proof -
  show mg: "managed st' = managed st" using t by (simp add: took_def managed_def)
  have pc: "pcpCount (mem st) z \<le> PMM_PCP_HIGH" for z using w by (simp add: pmmWf_def)
  have "pcpCount (mem st') z \<le> PMM_PCP_HIGH" for z using c [of z] pc [of z] by simp
  then show "pmmWf st'" using w t mp mg by (simp add: pmmWf_def took_def)
  show "pmmAllocs st' = insert (p, k) (pmmAllocs st)" using t by (simp add: took_def pmmAllocs_def)
  show "pmmFree st' = pmmFree st - blk p k" using t by (auto simp: took_def pmmFree_def)
  show b: "blk p k \<subseteq> pmmFree st" using t by (auto simp: took_def pmmFree_def)
  have "memInv (mem st) {}" using w by (simp add: pmmWf_def)
  from managed_split(1) [OF this] show "p \<in> managed st" using b blk_self by blast
qed

lemma pmmAlloc_ok:
  assumes w: "pmmWf st" and r: "pmmAllocPages ord fl outNull st = (st', Inr page)"
  obtains p where "\<not> outNull" "ord \<le> PMM_MAX_ORDER" "flagsOk fl" "page = pageFromPfn p" "p < 17179869184"
    "took (mem st) p ord (mem st')" "pmmZoneOfPfn p \<in> set (pmmZoneListFor fl)" "pmmMap st' = pmmMap st" "early st' = early st"
    "\<And>y. pcpCount (mem st') y \<le> max (pcpCount (mem st) y) PMM_PCP_BATCH"
    "physRam st' = (if fl AND PMM_FLAG_ZERO \<noteq> 0 then pmmZeroBlock st p ord (physRam st) else physRam st)"
proof -
  have m: "memInv (mem st) {}" using w by (simp add: pmmWf_def)
  have g: "\<not> outNull" "ord \<le> PMM_MAX_ORDER" "flagsOk fl"
    using r by (auto simp: pmmAllocPages_def flagsOk_def split: if_splits)
  obtain m1 x where z: "allocZones ord (pmmZoneListFor fl) (mem st) = (m1, x)" by fastforce
  then obtain p where x: "x = Some p"
    using r g by (cases x) (auto simp: pmmAllocPages_def flagsOk_def)
  have st': "st' = st\<lparr>mem := setPage p (markAllocated ord) m1,
      physRam := (if fl AND PMM_FLAG_ZERO \<noteq> 0 then pmmZeroBlock st p ord (physRam st) else physRam st)\<rparr>" "page = pageFromPfn p"
    using r g z x by (auto simp: pmmAllocPages_def flagsOk_def Let_def)
  note A = mem_allocZones [OF m g(2), of "pmmZoneListFor fl", unfolded z x, simplified]
  have t: "took (mem st) p ord (mem st')" using A st' by simp
  have c: "pcpCount (mem st') y \<le> max (pcpCount (mem st) y) PMM_PCP_BATCH" for y
    using A st' by (simp add: setPage_def)
  have "pmmMap st' = pmmMap st" using st' by simp
  from took_wf(6) [OF w t this c] have "p < 17179869184" by (rule managed_small [OF w])
  then show thesis using that [of p] g st' t c A by simp
qed

lemma pmmAlloc_fail:
  assumes w: "pmmWf st" and g: "\<not> outNull" "ord \<le> PMM_MAX_ORDER" "flagsOk fl" and r: "pmmAllocPages ord fl outNull st = (st', Inl e)"
  shows "e = STATUS_ERR_NO_MEMORY \<and> st' = st \<and> (\<forall>z \<in> set (pmmZoneListFor fl). noBlock ord (pages (mem st)) z)"
proof -
  have m: "memInv (mem st) {}" using w by (simp add: pmmWf_def)
  obtain m1 x where z: "allocZones ord (pmmZoneListFor fl) (mem st) = (m1, x)" by fastforce
  then have x: "x = None" using r g by (cases x) (auto simp: pmmAllocPages_def flagsOk_def Let_def)
  have "st' = st\<lparr>mem := m1\<rparr>" "e = STATUS_ERR_NO_MEMORY" using r g z x by (auto simp: pmmAllocPages_def flagsOk_def)
  then show ?thesis using mem_allocZones [OF m g(2), of "pmmZoneListFor fl", unfolded z x] by simp
qed

section \<open>Release\<close>

definition gave :: "Mem \<Rightarrow> nat \<Rightarrow> nat \<Rightarrow> Mem \<Rightarrow> bool" where
  "gave m p k m' \<longleftrightarrow> memInv m' {}
     \<and> (\<forall>y. avail (pages m') y = avail (pages m) y \<union> (if pmmZoneOfPfn p = y then blk p k else {}))
     \<and> allocs (pages m') = allocs (pages m) - {(p, k)} \<and> unowned (pages m') = unowned (pages m)
     \<and> (\<forall>q. flags (pages m' q) = flags (pages m q))
     \<and> (\<forall>z. managedPages (zones m' z) = managedPages (zones m z))"

lemma unmark_views:
  assumes p: "(p, k) \<in> allocs (pages m)" and f: "state (f (pages m p)) = PAGE_STATE_TAIL" "flags (f (pages m p)) = flags (pages m p)"
  shows "allocs (pages (setPage p f m)) = allocs (pages m) - {(p, k)}" "unowned (pages (setPage p f m)) = unowned (pages m)"
    "avail (pages (setPage p f m)) y = avail (pages m) y" "flags (pages (setPage p f m) q) = flags (pages m q)"
proof -
  have ps: "state (pages m p) = PAGE_STATE_ALLOCATED" "order (pages m p) = k" using p by (auto simp: allocs_def)
  have pg: "pages (setPage p f m) = (pages m)(p := f (pages m p))" by (simp add: setPage_def)
  have "freeSet (pages (setPage p f m)) = freeSet (pages m)" unfolding pg by (rule freeSet_nonbuddy) (use ps f in auto)
  moreover have "cached (pages (setPage p f m)) y = cached (pages m) y" unfolding pg using ps f by (auto simp: cached_def)
  ultimately show "avail (pages (setPage p f m)) y = avail (pages m) y" by (simp add: avail_def)
  show "allocs (pages (setPage p f m)) = allocs (pages m) - {(p, k)}" "flags (pages (setPage p f m) q) = flags (pages m q)"
    unfolding pg using ps f by (auto simp: allocs_def split: if_splits)
  show "unowned (pages (setPage p f m)) = unowned (pages m)"
    unfolding pg by (rule unowned_upd) (use ps f in \<open>auto simp: unowned_def\<close>)
qed

lemma mem_give_block:
  assumes m: "memInv m {}" and p: "(p, k) \<in> allocs (pages m)"
  defines "m' \<equiv> buddyFreeBlock (pmmZoneOfPfn p) p k
      (setPage p (\<lambda>x. x\<lparr>state := PAGE_STATE_TAIL, order := 0, refcount := 0\<rparr>) m)"
  shows "gave m p k m'" and "pcpCount m' = pcpCount m"
proof -
  let ?f = "\<lambda>x. x\<lparr>state := PAGE_STATE_TAIL, order := 0, refcount := 0\<rparr>"
  have f: "state (?f (pages m p)) = PAGE_STATE_TAIL" "flags (?f (pages m p)) = flags (pages m p)" by simp_all
  have "memInv (setPage p ?f m) ({} \<union> blk p k)" by (rule mem_unmark [OF m p]) simp
  then have i: "memInv (setPage p ?f m) (blk p k)" by simp
  note a = alloc_block [OF m p]
  note F = mem_free [OF i subset_refl a(1,2) refl, folded m'_def]
  note V = unmark_views [where f = ?f, OF p f]
  have av: "avail (pages m') y = avail (pages m) y \<union> (if pmmZoneOfPfn p = y then blk p k else {})" for y
    using F(2) F(3) [of y] V(3) [of y] by (auto simp: avail_def frame_def)
  then show "gave m p k m'" using F(1,2) V by (simp add: gave_def frame_def setPage_def)
  show "pcpCount m' = pcpCount m" using F(2) by (simp add: frame_def setPage_def)
qed

lemma mem_give_page:
  assumes m: "memInv m {}" and p: "(p, 0) \<in> allocs (pages m)"
  defines "m' \<equiv> pmmCacheFreeLocked (pmmZoneOfPfn p) p m"
  shows "gave m p 0 m'" "pcpCount m y \<le> PMM_PCP_HIGH \<Longrightarrow> pcpCount m' y \<le> PMM_PCP_HIGH"
proof -
  let ?g = "\<lambda>x :: Page. x\<lparr>state := PAGE_STATE_TAIL\<rparr>" and ?f = "\<lambda>x :: Page. x\<lparr>state := PAGE_STATE_PCP, order := 0, refcount := 0\<rparr>"
  let ?z = "pmmZoneOfPfn p" and ?m0 = "setPage p (\<lambda>x :: Page. x\<lparr>state := PAGE_STATE_TAIL\<rparr>) m"
  let ?m1 = "pcpPush ?z p ?f m"
  have eq: "?m1 = pcpPush ?z p ?f ?m0" by (simp add: pcpPush_def set_defs Let_def)
  have "memInv ?m0 ({} \<union> blk p 0)" by (rule mem_unmark [OF m p]) simp
  then have i0: "memInv ?m0 {p}" by simp
  have "memInv ?m1 ({p} - {p})" unfolding eq by (rule mem_pcpPush [OF i0]) (auto simp: setPage_def)
  then have i1: "memInv ?m1 {}" by simp
  have "state (?g (pages m p)) = PAGE_STATE_TAIL" "flags (?g (pages m p)) = flags (pages m p)" by simp_all
  note V0 = unmark_views [where f = ?g, OF p this]
  have t0: "state (pages ?m0 p) = PAGE_STATE_TAIL" by (simp add: setPage_def)
  have "p \<notin> unowned (pages ?m0)" "state (pages ?m0 p) \<noteq> PAGE_STATE_BUDDY" "state (?f (pages ?m0 p)) = PAGE_STATE_PCP"
    "flags (?f (pages ?m0 p)) = flags (pages ?m0 p)" using t0 by (auto simp: unowned_def)
  note V1 = pcpPush_views [where f = ?f, OF this refl, folded eq]
  have al: "{x \<in> allocs (pages ?m0). fst x \<noteq> p} = allocs (pages ?m0)" using t0 by (auto simp: allocs_def)
  have av: "avail (pages ?m1) y = avail (pages m) y \<union> (if ?z = y then {p} else {})" for y
    using V1(2) [of y] V1(4) V0(3) [of y] by (auto simp: avail_def)
  have g1: "gave m p 0 ?m1" using i1 av V0 V1 al by (simp add: gave_def setPage_def)
  have c1: "pcpCount ?m1 = (pcpCount m)(?z := pcpCount m ?z + 1)" using V1(7) by (simp add: setPage_def)
  note T = mem_trim [OF i1, of PMM_PCP_BATCH ?z]
  have m': "m' = (if pcpCount ?m1 ?z > PMM_PCP_HIGH then pcpTrim PMM_PCP_BATCH ?z ?m1 else ?m1)"
    by (simp add: m'_def pmmCacheFreeLocked_def Let_def)
  show "gave m p 0 m'" using g1 T by (auto simp: m' gave_def cframe_def)
  show "pcpCount m y \<le> PMM_PCP_HIGH \<Longrightarrow> pcpCount m' y \<le> PMM_PCP_HIGH" using T c1 by (auto simp: m')
qed

lemma validate_ok:
  assumes w: "pmmWf st"
  shows "pmmValidateForFree st page ord = Inr p \<longleftrightarrow> page = pageFromPfn p \<and> p < 2 ^ 39 \<and> (p, ord) \<in> pmmAllocs st
     \<and> (\<forall>q \<in> blk p ord. flags (pages (mem st) q) AND PAGE_F_OWNER_MASK = 0)" (is "?L \<longleftrightarrow> ?R")
proof
  assume L: ?L
  then have g: "\<not> page < VM_PAGE_ARRAY_BASE" "(page - VM_PAGE_ARRAY_BASE) mod 64 = 0" "p = pageToPfn page"
    "state (pages (mem st) p) = PAGE_STATE_ALLOCATED" "order (pages (mem st) p) = ord"
    "find (\<lambda>p. flags (pages (mem st) p) AND PAGE_F_OWNER_MASK \<noteq> 0) [p..<p + 2 ^ ord] = None"
    by (auto simp: pmmValidateForFree_def Let_def split: if_splits PageState.splits option.splits)
  then show ?R using page_ptr_back [OF g(1,2)] by (auto simp: pmmAllocs_def allocs_def find_None_iff blk_def)
next
  assume R: ?R
  note pp = page_ptr [OF conjunct1 [OF conjunct2 [OF R]]]
  have m: "memInv (mem st) {}" using w by (simp add: pmmWf_def)
  have a: "(p, ord) \<in> allocs (pages (mem st))" using R by (simp add: pmmAllocs_def)
  have ps: "state (pages (mem st) p) = PAGE_STATE_ALLOCATED" "order (pages (mem st) p) = ord" using a by (auto simp: allocs_def)
  have "p \<in> managed st" using ps by (simp add: managed_def unowned_def)
  then have sp: "p \<in> spanned (spans (pmmMap st))" using w by (auto simp: pmmWf_def)
  have v: "pmmPfnValid (pmmMap st) (of_nat p)" using sp R valid_pfn [OF w, of p] by simp
  have fn: "find (\<lambda>p. flags (pages (mem st) p) AND PAGE_F_OWNER_MASK \<noteq> 0) [p..<p + 2 ^ ord] = None"
    using R by (auto simp: find_None_iff blk_def)
  have "p mod 2 ^ ord = 0" "ord \<le> PMM_MAX_ORDER" using alloc_block(1,2) [OF m a] by auto
  then show ?L using R pp v ps fn by (simp add: pmmValidateForFree_def Let_def)
qed

lemma gave_wf:
  assumes w: "pmmWf st" and g: "gave (mem st) p k (mem st')" and mp: "pmmMap st' = pmmMap st"
    and c: "\<And>y. pcpCount (mem st') y \<le> PMM_PCP_HIGH"
  shows "pmmWf st'" "managed st' = managed st" "pmmAllocs st' = pmmAllocs st - {(p, k)}"
    "pmmFree st' = pmmFree st \<union> blk p k"
proof -
  show mg: "managed st' = managed st" using g by (simp add: gave_def managed_def)
  show "pmmWf st'" using w g mp mg c by (simp add: pmmWf_def gave_def)
  show "pmmAllocs st' = pmmAllocs st - {(p, k)}" using g by (simp add: gave_def pmmAllocs_def)
  show "pmmFree st' = pmmFree st \<union> blk p k" using g by (auto simp: gave_def pmmFree_def split: if_splits)
qed

lemma pmmFree_ok:
  assumes w: "pmmWf st" and r: "pmmFreePages page ord st = Inr st'"
  obtains p where "page = pageFromPfn p" "p < 2 ^ 39" "(p, ord) \<in> pmmAllocs st" "pmmWf st'" "managed st' = managed st"
    "pmmAllocs st' = pmmAllocs st - {(p, ord)}" "pmmFree st' = pmmFree st \<union> blk p ord"
    "\<And>q. flags (pages (mem st') q) = flags (pages (mem st) q)" "pmmMap st' = pmmMap st" "early st' = early st"
    "\<forall>q \<in> blk p ord. flags (pages (mem st) q) AND PAGE_F_OWNER_MASK = 0"
proof -
  have m: "memInv (mem st) {}" using w by (simp add: pmmWf_def)
  obtain p where v: "pmmValidateForFree st page ord = Inr p" using r by (auto simp: pmmFreePages_def split: sum.splits)
  note R = validate_ok [THEN iffD1, OF w v]
  have a: "(p, ord) \<in> allocs (pages (mem st))" using R by (simp add: pmmAllocs_def)
  have c0: "pcpCount (mem st) y \<le> PMM_PCP_HIGH" for y using w by (simp add: pmmWf_def)
  have st: "pmmMap st' = pmmMap st" "early st' = early st" using r v by (auto simp: pmmFreePages_def Let_def split: if_splits)
  have G: "gave (mem st) p ord (mem st') \<and> (\<forall>y. pcpCount (mem st') y \<le> PMM_PCP_HIGH)"
  proof (cases "ord = 0")
    case True
    then have "mem st' = pmmCacheFreeLocked (pmmZoneOfPfn p) p (mem st)" using r v by (auto simp: pmmFreePages_def)
    then show ?thesis using mem_give_page [OF m, of p] a True c0 by simp
  next
    case False
    then have "mem st' = buddyFreeBlock (pmmZoneOfPfn p) p ord
      (setPage p (\<lambda>x. x\<lparr>state := PAGE_STATE_TAIL, order := 0, refcount := 0\<rparr>) (mem st))"
      using r v by (auto simp: pmmFreePages_def Let_def)
    then show ?thesis using mem_give_block [OF m a] c0 by simp
  qed
  then have c: "pcpCount (mem st') y \<le> PMM_PCP_HIGH" for y by blast
  show thesis using that [of p] gave_wf [OF w conjunct1 [OF G] st(1) c] R st G by (simp add: gave_def)
qed

section \<open>Misuse of release\<close>

lemma tailIsFree_iff:
  assumes t: "tiling pg"
  shows "tailIsFree pg p \<longleftrightarrow> (\<exists>r. state (pg r) = PAGE_STATE_BUDDY \<and> p \<in> blk r (order (pg r)))" (is "?L \<longleftrightarrow> ?R")
proof
  assume ?L
  then obtain k where k: "state (pg (p div 2 ^ k * 2 ^ k)) = PAGE_STATE_BUDDY" "k \<le> order (pg (p div 2 ^ k * 2 ^ k))"
    by (auto simp: tailIsFree_def Let_def)
  have "p < p div 2 ^ k * 2 ^ k + 2 ^ k" using dividend_less_div_times [of "2 ^ k" p] by (simp add: add.commute)
  then have "p \<in> blk (p div 2 ^ k * 2 ^ k) k" by (simp add: blk_def div_times_less_eq_dividend)
  then show ?R using k blk_mono [OF k(2)] by blast
next
  assume ?R
  then obtain r where r: "state (pg r) = PAGE_STATE_BUDDY" "p \<in> blk r (order (pg r))" by blast
  define j where "j = order (pg r)"
  have j: "j \<le> PMM_MAX_ORDER" "2 ^ j dvd r" using tilingD [OF t, of r] r by (auto simp: j_def)
  obtain c where c: "r = 2 ^ j * c" using j(2) by blast
  have "r \<le> p" "p < r + 2 ^ j" using r(2) by (auto simp: blk_def j_def [symmetric])
  then have "2 ^ j * c \<le> p" "p < 2 ^ j * Suc c" using c by simp_all
  then have "p div 2 ^ j = c" by (intro div_nat_eqI) simp_all
  then have pr: "p div 2 ^ j * 2 ^ j = r" using c by simp
  have "j \<in> set [0..<PMM_MAX_ORDER + 1]" using j(1) by simp
  moreover have "state (pg (p div 2 ^ j * 2 ^ j)) = PAGE_STATE_BUDDY \<and> j \<le> order (pg (p div 2 ^ j * 2 ^ j))"
    unfolding pr using r(1) by (simp add: j_def)
  ultimately show ?L unfolding tailIsFree_def Let_def by blast
qed

lemma head_of_free:
  assumes w: "pmmWf st"
  shows "p \<in> pmmFree st \<longleftrightarrow> state (pages (mem st) p) = PAGE_STATE_PCP
    \<or> (\<exists>r. state (pages (mem st) r) = PAGE_STATE_BUDDY \<and> p \<in> blk r (order (pages (mem st) r)))"
  by (auto simp: pmmFree_def avail_def freeSet_def cached_def)

definition inAlloc :: "Pmm \<Rightarrow> nat \<Rightarrow> bool" where
  "inAlloc st p \<longleftrightarrow> (\<exists>q k. (q, k) \<in> pmmAllocs st \<and> p \<in> blk q k)"

lemma validate_bug:
  assumes w: "pmmWf st" and p: "p \<in> spanned (spans (pmmMap st))" and o: "ord \<le> PMM_MAX_ORDER" "2 ^ ord dvd p"
  shows "p \<in> pmmFree st \<Longrightarrow> pmmValidateForFree st (pageFromPfn p) ord = Inl (PMM_BUG_DOUBLE_FREE, p)"
    and "(p, k) \<in> pmmAllocs st \<Longrightarrow> k \<noteq> ord \<Longrightarrow> pmmValidateForFree st (pageFromPfn p) ord = Inl (PMM_BUG_ORDER_MISMATCH, p)"
    and "inAlloc st p \<Longrightarrow> \<forall>k. (p, k) \<notin> pmmAllocs st \<Longrightarrow> pmmValidateForFree st (pageFromPfn p) ord = Inl (PMM_BUG_NOT_HEAD, p)"
    and "state (pages (mem st) p) = PAGE_STATE_RESERVED \<Longrightarrow>
      pmmValidateForFree st (pageFromPfn p) ord = Inl (PMM_BUG_RESERVED_FRAME, p)"
proof -
  define pg where "pg = pages (mem st)"
  have m: "memInv (mem st) {}" and so: "spansOk (spans (pmmMap st))" using w by (auto simp: pmmWf_def)
  have t: "tiling pg" using m by (auto simp: memInv_def binv_def pg_def)
  have sm: "p < 17179869184" by (rule spanned_small [OF so p])
  have "p < 2 ^ 39" "p < 2 ^ 64" using sm by auto
  note pp = page_ptr [OF this(1)] and v = valid_pfn [OF w this(2)]
  have eq: "pmmValidateForFree st (pageFromPfn p) ord =
    (case state (pg p) of
       PAGE_STATE_ALLOCATED \<Rightarrow>
         if order (pg p) \<noteq> ord then Inl (PMM_BUG_ORDER_MISMATCH, p)
         else (case find (\<lambda>p. flags (pg p) AND PAGE_F_OWNER_MASK \<noteq> 0) [p..<p + 2 ^ ord] of
                 Some q \<Rightarrow> Inl (PMM_BUG_OWNED_PAGE, q) | None \<Rightarrow> Inr p)
     | PAGE_STATE_BUDDY \<Rightarrow> Inl (PMM_BUG_DOUBLE_FREE, p)
     | PAGE_STATE_PCP \<Rightarrow> Inl (PMM_BUG_DOUBLE_FREE, p)
     | PAGE_STATE_TAIL \<Rightarrow> if tailIsFree pg p then Inl (PMM_BUG_DOUBLE_FREE, p) else Inl (PMM_BUG_NOT_HEAD, p)
     | PAGE_STATE_RESERVED \<Rightarrow> Inl (PMM_BUG_RESERVED_FRAME, p)
     | PAGE_STATE_OTHER _ \<Rightarrow> Inl (PMM_BUG_CORRUPT_STATE, p))"
    unfolding pmmValidateForFree_def Let_def pg_def pp(1) using pp(2-4) v p o by simp
  show "pmmValidateForFree st (pageFromPfn p) ord = Inl (PMM_BUG_DOUBLE_FREE, p)" if f: "p \<in> pmmFree st"
  proof (cases "state (pg p) = PAGE_STATE_PCP \<or> state (pg p) = PAGE_STATE_BUDDY")
    case True
    then show ?thesis unfolding eq by auto
  next
    case False
    then obtain r where r: "state (pg r) = PAGE_STATE_BUDDY" "p \<in> blk r (order (pg r))"
      using f head_of_free [OF w] by (auto simp: pg_def)
    then have "state (pg p) = PAGE_STATE_TAIL" using tilingD(3) [OF t, of r p] False by auto
    moreover have "tailIsFree pg p" using tailIsFree_iff [OF t] r by blast
    ultimately show ?thesis unfolding eq by simp
  qed
  show "pmmValidateForFree st (pageFromPfn p) ord = Inl (PMM_BUG_ORDER_MISMATCH, p)" if "(p, k) \<in> pmmAllocs st" "k \<noteq> ord"
    unfolding eq using that by (auto simp: pmmAllocs_def allocs_def pg_def)
  show "pmmValidateForFree st (pageFromPfn p) ord = Inl (PMM_BUG_NOT_HEAD, p)" if a: "inAlloc st p" "\<forall>k. (p, k) \<notin> pmmAllocs st"
  proof -
    obtain q k where q: "(q, k) \<in> pmmAllocs st" "p \<in> blk q k" using a(1) by (auto simp: inAlloc_def)
    have qs: "state (pg q) = PAGE_STATE_ALLOCATED" "order (pg q) = k" using q(1) by (auto simp: pmmAllocs_def allocs_def pg_def)
    have "q \<noteq> p" using a(2) q(1) by blast
    then have "state (pg p) = PAGE_STATE_TAIL" using tilingD(3) [OF t, of q p] qs q(2) by auto
    moreover have "\<not> tailIsFree pg p"
      using managed_split(2) [OF m] q head_of_free [OF w, of p] tailIsFree_iff [OF t, of p] by (auto simp: pg_def)
    ultimately show ?thesis unfolding eq by simp
  qed
  show "state (pages (mem st) p) = PAGE_STATE_RESERVED \<Longrightarrow>
      pmmValidateForFree st (pageFromPfn p) ord = Inl (PMM_BUG_RESERVED_FRAME, p)" unfolding eq pg_def by simp
qed

section \<open>Memory entering\<close>

lemma ctz_dvd: "2 ^ ctz n dvd n"
proof (induction n rule: ctz.induct)
  case (1 n)
  show ?case
  proof (cases "n = 0 \<or> odd n")
    case True
    then show ?thesis by (subst ctz.simps) auto
  next
    case False
    then have "2 ^ ctz (n div 2) dvd n div 2" using 1 by simp
    then have "2 * 2 ^ ctz (n div 2) dvd 2 * (n div 2)" by (rule mult_dvd_mono [OF dvd_refl])
    then show ?thesis using False by (subst ctz.simps) auto
  qed
qed

lemma fitOrder_le: "fitOrder k room \<le> k"
  by (induction k) auto

lemma fitOrder_room: "0 < room \<Longrightarrow> 2 ^ fitOrder k room \<le> room"
  by (induction k) auto

lemma rangeOrder_props:
  assumes "0 < room"
  shows "2 ^ rangeOrder p room dvd p" "rangeOrder p room \<le> PMM_MAX_ORDER" "2 ^ rangeOrder p room \<le> room"
proof -
  let ?k = "min (if p = 0 then PMM_MAX_ORDER else ctz p) PMM_MAX_ORDER"
  have le: "rangeOrder p room \<le> ?k" unfolding rangeOrder_def by (rule fitOrder_le)
  then show "rangeOrder p room \<le> PMM_MAX_ORDER" by simp
  show "2 ^ rangeOrder p room dvd p"
  proof (cases "p = 0")
    case False
    then have "rangeOrder p room \<le> ctz p" using le by simp
    then show ?thesis using ctz_dvd [of p] by (meson dvd_trans le_imp_power_dvd)
  qed simp
  show "2 ^ rangeOrder p room \<le> room" unfolding rangeOrder_def by (rule fitOrder_room [OF assms])
qed

text \<open>Reserved frames turn loose; the tiling and the lists do not see them.\<close>

lemma markTail_pages:
  "pages (markTail p n m) = (\<lambda>q. if q \<in> {p..<p + n} then (pages m q)\<lparr>state := PAGE_STATE_TAIL\<rparr> else pages m q)"
  "links (markTail p n m) = links m" "zones (markTail p n m) = zones m" "pcpCount (markTail p n m) = pcpCount m"
  unfolding markTail_def by (induction n) (auto simp: setPage_def fun_eq_iff less_Suc_eq)

lemma mem_markTail:
  assumes m: "memInv m {}" and r: "B \<subseteq> unowned (pages m)"
    and pg: "pages m' = (\<lambda>q. if q \<in> B then (pages m q)\<lparr>state := PAGE_STATE_TAIL\<rparr> else pages m q)"
    and eq: "links m' = links m" "\<And>z. freeBlocks (zones m' z) = freeBlocks (zones m z)"
      "\<And>z. freePages (zones m' z) = freePages (zones m z)" "pcpCount m' = pcpCount m"
  shows "memInv m' B" "allocs (pages m') = allocs (pages m)" "\<And>y. avail (pages m') y = avail (pages m) y"
    "unowned (pages m') = unowned (pages m) - B" "flags (pages m' q) = flags (pages m q)"
proof -
  obtain L where i: "binv m L" and lo: "loose (pages m) = {}" and c: "\<And>z. zoneFree m z = card (freeSet (pages m) z)"
    using m by (auto simp: memInv_def)
  have un: "\<not> is_head (state (pages m q))" "state (pages m q) \<noteq> PAGE_STATE_TAIL" if "q \<in> B" for q
    using subsetD [OF r that] by (auto simp: unowned_def is_head_def free_or_tail_def)
  have st: "state (pages m' q) = (if q \<in> B then PAGE_STATE_TAIL else state (pages m q))" "order (pages m' q) = order (pages m q)" for q
    by (auto simp: pg)
  have hd: "is_head (state (pages m' q)) = is_head (state (pages m q))" for q using un st by auto
  have cl: "classOf q (pages m' q) = classOf q (pages m q)" for q
    using un(1) [of q] unfolding pg classOf_def by (auto simp: is_head_def split: PageState.splits)
  have cv: "covers (pages m') a q = covers (pages m) a q" for a q using hd st by (simp add: covers_def)
  have sc: "state (pages m' q) = s \<longleftrightarrow> state (pages m q) = s" if "is_head s" for q s
    using un(1) [of q] st that by auto
  have t: "tiling (pages m')"
    using binvD(4) [OF i] hd st unfolding tiling_def by simp
  have ct: "counter m' g = counter m g" for g using eq by (cases g) auto
  have co: "coalesced (pages m')"
    using binvD(5) [OF i] sc [of PAGE_STATE_BUDDY] st by (simp add: coalesced_def isFreeBuddy_def)
  have "binv m' L"
    unfolding binv_def using binvD [OF i] eq(1) cl ct t co sc [of PAGE_STATE_PCP] st by simp
  moreover have fs: "freeSet (pages m') = freeSet (pages m)"
    using sc [of PAGE_STATE_BUDDY] st by (auto simp: freeSet_def fun_eq_iff)
  moreover have "loose (pages m') = B"
  proof -
    have "\<not> covers (pages m) a q" if "q \<in> B" for a q
      using tilingD(3) [OF binvD(4) [OF i], of a q] un [OF that] by (auto simp: covers_def)
    then show ?thesis using lo cv st un by (auto simp: loose_def)
  qed
  moreover have "zoneFree m' = zoneFree m" using eq by (simp add: zoneFree_def fun_eq_iff)
  ultimately show "memInv m' B" using c by (auto simp: memInv_def)
  show "allocs (pages m') = allocs (pages m)" using sc [of PAGE_STATE_ALLOCATED] st by (simp add: allocs_def)
  show "avail (pages m') y = avail (pages m) y" for y
    using sc [of PAGE_STATE_PCP] fs by (simp add: avail_def cached_def)
  show "unowned (pages m') = unowned (pages m) - B" using st by (auto simp: unowned_def)
  show "flags (pages m' q) = flags (pages m q)" by (simp add: pg)
qed

text \<open>What adding the frames \<open>B\<close> does.\<close>

definition added :: "Mem \<Rightarrow> nat set \<Rightarrow> Mem \<Rightarrow> bool" where
  "added m B m' \<longleftrightarrow> memInv m' {} \<and> (\<forall>y. avail (pages m') y = avail (pages m) y \<union> {q \<in> B. pmmZoneOfPfn q = y})
     \<and> allocs (pages m') = allocs (pages m) \<and> unowned (pages m') = unowned (pages m) - B
     \<and> (\<forall>q. flags (pages m' q) = flags (pages m q)) \<and> pcpCount m' = pcpCount m
     \<and> (\<forall>z. managedPages (zones m' z) = managedPages (zones m z) + card {q \<in> B. pmmZoneOfPfn q = z})"

lemma mem_addBlock:
  assumes m: "memInv m {}" and a: "2 ^ k dvd p" "k \<le> PMM_MAX_ORDER" and r: "blk p k \<subseteq> unowned (pages m)"
  shows "added m (blk p k) (addBlock p k m)"
proof -
  let ?z = "pmmZoneOfPfn p"
  define m2 where "m2 = setZone ?z (\<lambda>zn. zn\<lparr>managedPages := managedPages zn + 2 ^ k\<rparr>) (markTail p (2 ^ k) m)"
  have eq: "addBlock p k m = buddyFreeBlock ?z p k m2" by (simp add: addBlock_def m2_def Let_def)
  have pg: "pages m2 = (\<lambda>q. if q \<in> blk p k then (pages m q)\<lparr>state := PAGE_STATE_TAIL\<rparr> else pages m q)"
    by (simp add: m2_def setZone_def markTail_pages blk_def)
  have o: "links m2 = links m" "\<And>z. freeBlocks (zones m2 z) = freeBlocks (zones m z)"
    "\<And>z. freePages (zones m2 z) = freePages (zones m z)" "pcpCount m2 = pcpCount m"
    by (auto simp: m2_def setZone_def markTail_pages)
  have mg: "managedPages (zones m2 z) = managedPages (zones m z) + (if ?z = z then 2 ^ k else 0)" for z
    by (auto simp: m2_def setZone_def markTail_pages)
  note M = mem_markTail [OF m r pg o]
  note F = mem_free [OF M(1) subset_refl a refl, folded eq]
  have "{q \<in> B. pmmZoneOfPfn q = y} = (if z = y then B else {})" if "\<forall>q \<in> B. pmmZoneOfPfn q = z" for B z y
    using that by auto
  then have zs: "{q \<in> blk p k. pmmZoneOfPfn q = y} = (if ?z = y then blk p k else {})" for y
    using blk_zone [OF a] by blast
  have "avail (pages (addBlock p k m)) y = avail (pages m) y \<union> {q \<in> blk p k. pmmZoneOfPfn q = y}" for y
    using F(2) F(3) [of y] M(3) [of y] unfolding zs by (auto simp: avail_def frame_def)
  then show ?thesis using F(1,2) M mg o zs by (simp add: added_def frame_def)
qed

lemma added_trans:
  assumes "added m A m1" "added m1 B m2" "A \<inter> B = {}" "finite A" "finite B"
  shows "added m (A \<union> B) m2"
proof -
  have u: "{q \<in> A \<union> B. pmmZoneOfPfn q = z} = {q \<in> A. pmmZoneOfPfn q = z} \<union> {q \<in> B. pmmZoneOfPfn q = z}" for z by auto
  have "card {q \<in> A \<union> B. pmmZoneOfPfn q = z} = card {q \<in> A. pmmZoneOfPfn q = z} + card {q \<in> B. pmmZoneOfPfn q = z}" for z
    unfolding u using assms(3-5) by (intro card_Un_disjoint) auto
  then show ?thesis using assms(1,2) by (auto simp: added_def u)
qed

lemma mem_addBlocks:
  assumes "memInv m {}" "p \<le> e" "{p..<e} \<subseteq> unowned (pages m)"
  shows "added m {p..<e} (addBlocks p e m)"
  using assms
proof (induction p e m rule: addBlocks.induct)
  case (1 p e m)
  show ?case
  proof (cases "p < e")
    case False
    then show ?thesis using 1(2,3) by (subst addBlocks.simps) (simp add: added_def)
  next
    case True
    let ?k = "rangeOrder p (e - p)"
    have "0 < e - p" using True by simp
    note R = rangeOrder_props [OF this, of p]
    have le: "p + 2 ^ ?k \<le> e" using R(3) True by linarith
    have b: "blk p ?k \<subseteq> unowned (pages m)" using 1(4) le by (auto simp: blk_def)
    note A = mem_addBlock [OF 1(2) R(1,2) b]
    have "{p + 2 ^ ?k..<e} \<subseteq> unowned (pages (addBlock p ?k m))"
      using A 1(4) le by (auto simp: added_def blk_def)
    then have B: "added (addBlock p ?k m) {p + 2 ^ ?k..<e} (addBlocks (p + 2 ^ ?k) e (addBlock p ?k m))"
      using 1(1) [OF True refl] A le by (simp add: added_def)
    have d: "blk p ?k \<inter> {p + 2 ^ ?k..<e} = {}" by (auto simp: blk_def)
    have u: "blk p ?k \<union> {p + 2 ^ ?k..<e} = {p..<e}" using le by (auto simp: blk_def)
    show ?thesis using added_trans [OF A B d] u True by (subst addBlocks.simps) (simp add: Let_def)
  qed
qed

lemma aligned_or: "((a :: u64) OR b) AND 0xFFF = 0 \<longleftrightarrow> 4096 dvd unat a \<and> 4096 dvd unat b"
proof -
  have "(a OR b) AND 0xFFF = 0 \<longleftrightarrow> a AND 0xFFF = 0 \<and> b AND 0xFFF = 0"
    by (auto simp: bit_eq_iff bit_simps)
  then show ?thesis by (simp add: and_FFF)
qed

lemma range_pfns:
  "unat (drop_bit 12 (a :: u64) + drop_bit 12 b) = unat a div 4096 + unat b div 4096"
  using unat_lt_64 [of a] unat_lt_64 [of b] by (subst unat_add_nowrap) (simp_all add: unat_drop_12)

lemma added_wf:
  assumes w: "pmmWf st" and a: "added (mem st) B (mem st')" and mp: "pmmMap st' = pmmMap st"
    and B: "B \<subseteq> spanned (spans (pmmMap st))" "B \<inter> managed st = {}"
  shows "pmmWf st'" "managed st' = managed st \<union> B" "pmmFree st' = pmmFree st \<union> B" "pmmAllocs st' = pmmAllocs st"
proof -
  show mg: "managed st' = managed st \<union> B" using a by (auto simp: added_def managed_def)
  show "pmmFree st' = pmmFree st \<union> B" using a by (auto simp: added_def pmmFree_def)
  show "pmmAllocs st' = pmmAllocs st" using a by (simp add: added_def pmmAllocs_def)
  have so: "spansOk (spans (pmmMap st))" and ms: "managed st \<subseteq> spanned (spans (pmmMap st))" using w by (auto simp: pmmWf_def)
  have "spanned (spans (pmmMap st)) \<subseteq> {..<17179869184}" using spanned_small [OF so] by blast
  then have fin: "finite (spanned (spans (pmmMap st)))" by (rule finite_subset) simp
  have "card {p \<in> managed st \<union> B. pmmZoneOfPfn p = z} = card {p \<in> managed st. pmmZoneOfPfn p = z} + card {p \<in> B. pmmZoneOfPfn p = z}" for z
  proof -
    have "{p \<in> managed st \<union> B. pmmZoneOfPfn p = z} = {p \<in> managed st. pmmZoneOfPfn p = z} \<union> {p \<in> B. pmmZoneOfPfn p = z}" by auto
    then show ?thesis
      using B(2) finite_subset [OF ms fin] finite_subset [OF B(1) fin] by (simp, intro card_Un_disjoint) auto
  qed
  then show "pmmWf st'" using w a mp mg B(1) by (simp add: pmmWf_def added_def)
qed

lemma pmmAdd_ok:
  assumes w: "pmmWf st" and r: "pmmAddFreeRange b n st = Inr st'"
  defines "B \<equiv> {unat b div 4096..<unat b div 4096 + unat n div 4096}"
  shows "4096 dvd unat b" "4096 dvd unat n" "n \<noteq> 0 \<Longrightarrow> B \<subseteq> spanned (spans (pmmMap st)) \<and> B \<inter> managed st = {}"
    "n \<noteq> 0 \<Longrightarrow> st' = st\<lparr>mem := mem st'\<rparr> \<and> added (mem st) B (mem st')" "n = 0 \<Longrightarrow> st' = st"
proof -
  show al: "4096 dvd unat b" "4096 dvd unat n"
    using r aligned_or [of b n] by (auto simp: pmmAddFreeRange_def Let_def split: if_splits)
  show "n = 0 \<Longrightarrow> st' = st" using r by (auto simp: pmmAddFreeRange_def split: if_splits)
  have m: "memInv (mem st) {}" and so: "spansOk (spans (pmmMap st))" using w by (auto simp: pmmWf_def)
  assume n: "n \<noteq> 0"
  have r': "list_all (frameReserved st) [unat b div 4096..<unat b div 4096 + unat n div 4096]"
    "st' = st\<lparr>mem := addBlocks (unat b div 4096) (unat b div 4096 + unat n div 4096) (mem st)\<rparr>"
    using r n unfolding pmmAddFreeRange_def Let_def range_pfns unat_drop_12 by (auto split: if_splits)
  have fr: "q \<in> spanned (spans (pmmMap st))" "q \<in> unowned (pages (mem st))" if "q \<in> B" for q
  proof -
    have f: "frameReserved st q" using r'(1) that by (simp add: list_all_iff B_def)
    have "q < 2 ^ 64" using that unat_lt_64 [of b] unat_lt_64 [of n] unfolding B_def atLeastLessThan_iff by simp linarith
    then show "q \<in> spanned (spans (pmmMap st))" using f valid_pfn [OF w] by (simp add: frameReserved_def)
    show "q \<in> unowned (pages (mem st))" using f by (simp add: frameReserved_def unowned_def)
  qed
  then show "B \<subseteq> spanned (spans (pmmMap st)) \<and> B \<inter> managed st = {}" by (auto simp: managed_def)
  have "B \<subseteq> unowned (pages (mem st))" using fr(2) by blast
  then show "st' = st\<lparr>mem := mem st'\<rparr> \<and> added (mem st) B (mem st')"
    using mem_addBlocks [OF m le_add1, of "unat b div 4096" "unat n div 4096"] r'(2)
    unfolding B_def by simp
qed

section \<open>Initial state\<close>

text \<open>The zone and cache set-up of \<open>pmmInit\<close>.\<close>

definition pmmZonesInit :: "u64 \<Rightarrow> Mem \<Rightarrow> Mem" where
  "pmmZonesInit maxp m =
     pmmCacheInitAll
       (buddyZoneInit PMM_ZONE_NORMAL ''NORMAL'' PMM_ZONE_DMA32_END_PFN (unat maxp)
         (buddyZoneInit PMM_ZONE_DMA32 ''DMA32'' 0 PMM_ZONE_DMA32_END_PFN m))"

definition zeroPage :: Page where
  "zeroPage = \<lparr>state = PAGE_STATE_RESERVED, order = 0, flags = 0, reserved0 = 0, refcount = 0, mapcount = 0,
     object = 0, objectIndex = 0, privateWord = 0, reserved1 = 0\<rparr>"

lemma zoneInit_links:
  "links (buddyZoneInit z nm s e m) = fold (\<lambda>k l. listInit (FreeHead z k) l) [0..<PMM_ORDER_COUNT] (links m)"
  "pages (buddyZoneInit z nm s e m) = pages m" "pcpCount (buddyZoneInit z nm s e m) = pcpCount m"
proof -
  have *: "links (fold (\<lambda>k m. setZone z (setFreeBlocks k 0) (setLinks (listInit (FreeHead z k)) m)) ks m)
      = fold (\<lambda>k l. listInit (FreeHead z k) l) ks (links m)
    \<and> pages (fold (\<lambda>k m. setZone z (setFreeBlocks k 0) (setLinks (listInit (FreeHead z k)) m)) ks m) = pages m
    \<and> pcpCount (fold (\<lambda>k m. setZone z (setFreeBlocks k 0) (setLinks (listInit (FreeHead z k)) m)) ks m) = pcpCount m" for ks
    by (induction ks arbitrary: m) (auto simp: setZone_def setLinks_def)
  show "links (buddyZoneInit z nm s e m) = fold (\<lambda>k l. listInit (FreeHead z k) l) [0..<PMM_ORDER_COUNT] (links m)"
    "pages (buddyZoneInit z nm s e m) = pages m" "pcpCount (buddyZoneInit z nm s e m) = pcpCount m"
    unfolding buddyZoneInit_def Let_def using * by (auto simp: setZone_def [of z "\<lambda>zn. zn\<lparr>freePages := _, managedPages := _, startPfn := _, endPfn := _, name := _\<rparr>"])
qed

lemma zoneInit_zones:
  "zones (buddyZoneInit z nm s e m) y = (if y = z then (zones m z)\<lparr>freeBlocks := (\<lambda>k. if k < PMM_ORDER_COUNT then 0 else freeBlocks (zones m z) k),
     freePages := 0, managedPages := 0, startPfn := s, endPfn := e, name := nm\<rparr> else zones m y)"
proof -
  define F where "F n = fold (\<lambda>k m. setZone z (setFreeBlocks k 0) (setLinks (listInit (FreeHead z k)) m)) [0..<n] m" for n
  have "zones (F n) y = (if y = z then (zones m z)\<lparr>freeBlocks := (\<lambda>k. if k < n then 0 else freeBlocks (zones m z) k)\<rparr> else zones m y)"
    for n y by (induction n) (auto simp: F_def setZone_def setLinks_def setFreeBlocks_def less_Suc_eq fun_eq_iff)
  then show ?thesis unfolding buddyZoneInit_def Let_def F_def [symmetric] by (simp add: setZone_def)
qed

lemma fold_listInit:
  "nxt (fold (\<lambda>k l. listInit (f k) l) ks l) h = (if h \<in> f ` set ks then h else nxt l h)"
  "prv (fold (\<lambda>k l. listInit (f k) l) ks l) h = (if h \<in> f ` set ks then h else prv l h)"
  by (induction ks arbitrary: l) (auto simp: listInit_def setNext_def setPrev_def)

lemma pmmZonesInit_props:
  fixes m :: Mem and mx :: u64
  defines "m' \<equiv> pmmZonesInit mx m"
  shows "pages m' = pages m" "h \<in> listHeads \<Longrightarrow> nxt (links m') h = h \<and> prv (links m') h = h"
    "k \<le> PMM_MAX_ORDER \<Longrightarrow> freeBlocks (zones m' z) k = 0" "freePages (zones m' z) = 0" "managedPages (zones m' z) = 0"
    "pcpCount m' z = 0"
proof -
  show "pages m' = pages m" by (simp add: m'_def pmmZonesInit_def pmmCacheInitAll_def set_defs zoneInit_links)
  have l: "links m' = listInit (PcpHead PMM_ZONE_NORMAL) (listInit (PcpHead PMM_ZONE_DMA32)
      (fold (\<lambda>k l. listInit (FreeHead PMM_ZONE_NORMAL k) l) [0..<PMM_ORDER_COUNT]
        (fold (\<lambda>k l. listInit (FreeHead PMM_ZONE_DMA32 k) l) [0..<PMM_ORDER_COUNT] (links m))))"
    by (simp add: m'_def pmmZonesInit_def pmmCacheInitAll_def setLinks_def setPcpCount_def zoneInit_links del: upt_Suc)
  show "nxt (links m') h = h \<and> prv (links m') h = h" if h: "h \<in> listHeads"
  proof (cases h)
    case (FreeHead z k)
    then have "k \<in> set [0..<PMM_ORDER_COUNT]" using h by (auto simp: listHeads_def)
    then show ?thesis unfolding l FreeHead
      by (cases z) (simp_all add: listInit_def [of "PcpHead _"] setNext_def setPrev_def fold_listInit del: upt_Suc set_upt)
  next
    case (PcpHead z)
    then show ?thesis unfolding l by (cases z) (simp_all add: listInit_def [of "PcpHead _"] setNext_def setPrev_def)
  qed (use h in \<open>auto simp: listHeads_def\<close>)
  show "k \<le> PMM_MAX_ORDER \<Longrightarrow> freeBlocks (zones m' z) k = 0" "freePages (zones m' z) = 0" "managedPages (zones m' z) = 0" "pcpCount m' z = 0"
    by (cases z; simp add: m'_def pmmZonesInit_def pmmCacheInitAll_def set_defs zoneInit_links zoneInit_zones)+
qed

lemma zonesInit_memInv:
  assumes "\<And>p. pages m p = zeroPage"
  shows "memInv (pmmZonesInit mx m) {}"
proof -
  define m' where "m' = pmmZonesInit mx m"
  note P = pmmZonesInit_props [where m = m and mx = mx, folded m'_def]
  have pg: "pages m' p = zeroPage" for p using P(1) assms by simp
  have "ring (links m') h []" if "h \<in> listHeads" for h using P(2) [OF that] by (simp add: ring_def)
  then have r: "rings (links m') listHeads (\<lambda>h. [])" by (simp add: rings_def ring_nodes_def)
  have st: "state (pages m' p) = PAGE_STATE_RESERVED" for p using pg by (simp add: zeroPage_def)
  have "counter m' h = 0" if "h \<in> listHeads" for h using that P by (cases h) (auto simp: listHeads_def)
  then have "binv m' (\<lambda>_. [])"
    using r st by (simp add: binv_def classOf_def tiling_def coalesced_def isFreeBuddy_def)
  moreover have "loose (pages m') = {}" "freeSet (pages m') z = {}" for z
    using st by (auto simp: loose_def freeSet_def)
  ultimately show ?thesis using P(4) by (auto simp: memInv_def zoneFree_def m'_def)
qed

section \<open>The ledger contract\<close>

text \<open>
  A client that does not tag its pages: a handle is a page frame number with the order it was
  allocated at, and the allocated heads are the handles that are out.
\<close>

definition untagged :: "Pmm \<Rightarrow> bool" where
  "untagged st \<longleftrightarrow> (\<forall>q. flags (pages (mem st) q) AND PAGE_F_OWNER_MASK = 0)"

definition pmmClientWf :: "Pmm \<Rightarrow> bool" where
  "pmmClientWf st \<longleftrightarrow> pmmWf st \<and> untagged st"

definition pmmHeld :: "Pmm \<Rightarrow> (nat \<times> nat) set \<Rightarrow> bool" where
  "pmmHeld st L \<longleftrightarrow> L = pmmAllocs st"

definition pmmEntry :: "nat \<times> nat \<Rightarrow> bool" where
  "pmmEntry h \<longleftrightarrow> fst h < 2 ^ 39"

definition pmmExt :: "nat \<times> nat \<Rightarrow> nat set" where
  "pmmExt h = blk (fst h) (snd h)"

definition pmmAcquire :: "Pmm \<Rightarrow> nat \<times> u32 \<Rightarrow> (Pmm \<times> (nat \<times> nat)) option" where
  "pmmAcquire st q = (case pmmAllocPages (fst q) (snd q) False st of
     (st', Inr page) \<Rightarrow> Some (st', (pageToPfn page, fst q)) | (_, Inl _) \<Rightarrow> None)"

definition pmmReturn :: "Pmm \<Rightarrow> nat \<times> nat \<Rightarrow> Pmm option" where
  "pmmReturn st h = (case pmmFreePages (pageFromPfn (fst h)) (snd h) st of Inr st' \<Rightarrow> Some st' | Inl _ \<Rightarrow> None)"

lemma acquire_effect:
  assumes w: "pmmClientWf st" and a: "pmmAcquire st q = Some (st', h)"
  shows "pmmClientWf st' \<and> managed st' = managed st" "pmmEntry h" "pmmAllocs st' = insert h (pmmAllocs st)"
    "pmmExt h \<subseteq> pmmFree st \<and> pmmFree st' = pmmFree st - pmmExt h"
proof -
  have w': "pmmWf st" using w by (simp add: pmmClientWf_def)
  obtain page where r: "pmmAllocPages (fst q) (snd q) False st = (st', Inr page)" and h: "h = (pageToPfn page, fst q)"
    using a by (auto simp: pmmAcquire_def split: prod.splits sum.splits)
  obtain p where p: "page = pageFromPfn p" "p < 17179869184" and t: "took (mem st) p (fst q) (mem st')"
    and s: "pmmMap st' = pmmMap st" and c: "\<And>y. pcpCount (mem st') y \<le> max (pcpCount (mem st) y) PMM_PCP_BATCH"
    using pmmAlloc_ok [OF w' r] by metis
  have "p < 2 ^ 39" using p(2) by simp
  then have hp: "h = (p, fst q)" using h p(1) page_ptr(1) by simp
  note W = took_wf [OF w' t s c]
  have "untagged st'" using w t by (simp add: untagged_def pmmClientWf_def took_def)
  then show "pmmClientWf st' \<and> managed st' = managed st" using W by (simp add: pmmClientWf_def)
  show "pmmEntry h" using hp \<open>p < 2 ^ 39\<close> by (simp add: pmmEntry_def)
  show "pmmAllocs st' = insert h (pmmAllocs st)" "pmmExt h \<subseteq> pmmFree st \<and> pmmFree st' = pmmFree st - pmmExt h"
    using W hp by (auto simp: pmmExt_def)
qed

lemma return_effect:
  assumes w: "pmmClientWf st" and e: "pmmEntry h" and r: "pmmReturn st h = Some st'"
  shows "pmmClientWf st' \<and> managed st' = managed st" "pmmFree st' = pmmFree st \<union> pmmExt h"
    "pmmAllocs st' = pmmAllocs st - {h}"
proof -
  have w': "pmmWf st" using w by (simp add: pmmClientWf_def)
  have f: "pmmFreePages (pageFromPfn (fst h)) (snd h) st = Inr st'" using r by (auto simp: pmmReturn_def split: sum.splits)
  obtain p where p: "pageFromPfn (fst h) = pageFromPfn p" "p < 2 ^ 39" and W: "pmmWf st'" "managed st' = managed st"
    "pmmAllocs st' = pmmAllocs st - {(p, snd h)}" "pmmFree st' = pmmFree st \<union> blk p (snd h)"
    "\<And>q. flags (pages (mem st') q) = flags (pages (mem st) q)"
    using pmmFree_ok [OF w' f] by metis
  have "fst h = p" using p e page_ptr(1) unfolding pmmEntry_def by metis
  then show "pmmClientWf st' \<and> managed st' = managed st" "pmmFree st' = pmmFree st \<union> pmmExt h"
    "pmmAllocs st' = pmmAllocs st - {h}"
    using W w by (auto simp: pmmClientWf_def untagged_def pmmExt_def)
qed

interpretation pmm: ledger_allocator pmmClientWf managed pmmFree pmmHeld pmmEntry pmmExt pmmAcquire pmmReturn
proof (unfold_locales, goal_cases)
  case (1 s q s' h)
  then show ?case by (rule acquire_effect(1))
next
  case (2 s q s' h)
  then show ?case by (rule acquire_effect(2))
next
  case (3 s L h q s')
  then show ?case using acquire_effect(3) [OF 3(1,4)] by (simp add: pmmHeld_def)
next
  case (4 s q s' h)
  then show ?case by (rule acquire_effect(4))
next
  case (5 h)
  then show ?case by (simp add: pmmExt_def blk_def)
next
  case (6 s L h)
  have w: "pmmWf s" using 6(1) by (simp add: pmmClientWf_def)
  have "pmmValidateForFree s (pageFromPfn (fst h)) (snd h) = Inr (fst h)"
    using 6 by (subst validate_ok [OF w]) (auto simp: pmmHeld_def pmmEntry_def pmmClientWf_def untagged_def)
  then show ?case by (auto simp: pmmReturn_def pmmFreePages_def)
next
  case (7 s L h s')
  then show ?case using return_effect(1) by blast
next
  case (8 s L h s')
  then show ?case using return_effect(2) by blast
next
  case (9 s L h s')
  then show ?case using return_effect(3) [OF 9(1,4,5)] by (simp add: pmmHeld_def)
qed

end
