(* ===== verification/Pmm_Props.thy ===== *)
theory Pmm_Props
  imports Pmm_Spec
begin

text \<open>
  The properties of the physical memory manager (\<open>kernel/mm/pmm.c\<close>, \<open>kernel/mm/buddy.c\<close>), stated
  over the whole state of the manager, with an example state on which they are exercised.
\<close>

section \<open>An example state\<close>

text \<open>The demo map with its usable range handed to the allocator.\<close>

definition demoPmm0 :: Pmm where
  "demoPmm0 = \<lparr>mem = pmmZonesInit 0x800 \<lparr>pages = \<lambda>_. zeroPage, links = \<lparr>nxt = id, prv = id\<rparr>,
       zones = \<lambda>_. \<lparr>freeBlocks = \<lambda>_. 0, freePages = 0, managedPages = 0, startPfn = 0, endPfn = 0, name = []\<rparr>,
       pcpCount = \<lambda>_. 0\<rparr>,
     pmmMap = demoMap, early = demoEarly, physRam = \<lambda>_. 0, pmmHhdmBaseValue = 0xFFFF800000000000,
     pmmPageArrayPages = 0, pmmPageTablePages = 0, pmmReclaimedPagesValue = 0, pmmAcpiReclaimedPagesValue = 0,
     loaderReclaimDone = False, acpiReclaimDone = False\<rparr>"

definition demoPmm1 :: Pmm where
  "demoPmm1 = demoPmm0\<lparr>mem := addBlocks 0x300 0x800 (mem demoPmm0)\<rparr>"

lemma demo_pages0: "pages (mem demoPmm0) p = zeroPage" "pmmMap demoPmm0 = demoMap"
  by (simp_all add: demoPmm0_def pmmZonesInit_props(1))

lemma demo_spansOk: "spansOk (spans demoMap)"
  by (simp add: demoMap_def spansOk_def spanExt_def pfn_limits)

lemma demo_spanned: "spanned (spans demoMap) = {0..<0x800}"
  by (simp add: demoMap_def spanned_def spanExt_def)

lemma demo0_wf: "pmmWf demoPmm0" "managed demoPmm0 = {}" "pmmFree demoPmm0 = {}" "pmmAllocs demoPmm0 = {}"
proof -
  have st: "state (pages (mem demoPmm0) p) = PAGE_STATE_RESERVED" for p by (simp add: demo_pages0 zeroPage_def)
  have "memInv (mem demoPmm0) {}" unfolding demoPmm0_def by (simp add: zonesInit_memInv)
  moreover have "unowned (pages (mem demoPmm0)) = UNIV" using st by (auto simp: unowned_def)
  then show mg: "managed demoPmm0 = {}" by (simp add: managed_def)
  ultimately show "pmmWf demoPmm0"
    using mg demo_spansOk unfolding pmmWf_def by (simp add: demoPmm0_def pmmZonesInit_props)
  then show "pmmFree demoPmm0 = {}" "pmmAllocs demoPmm0 = {}"
    using managed_split(1) [of demoPmm0] mg st by (auto simp: pmmWf_def pmmAllocs_def allocs_def)
qed

lemma demo_add: "pmmAddFreeRange 0x300000 0x500000 demoPmm0 = Inr demoPmm1"
proof -
  have "frameReserved demoPmm0 p" if "p < 0x800" for p
    using valid_pfn [OF demo0_wf(1), of p] that
    by (simp add: frameReserved_def demo_pages0 zeroPage_def demo_spanned)
  then have "list_all (frameReserved demoPmm0) [0x300..<0x800]" by (simp add: list_all_iff del: upt_conv_Cons upt_rec_numeral)
  then show ?thesis
    by (simp add: pmmAddFreeRange_def Let_def drop_bit_eq_div demoPmm1_def unat_div del: upt_conv_Cons upt_rec_numeral)
qed

lemma demo1_wf:
  "pmmWf demoPmm1" "managed demoPmm1 = {0x300..<0x800}" "pmmFree demoPmm1 = {0x300..<0x800}" "pmmAllocs demoPmm1 = {}"
  "untagged demoPmm1" "pcpCount (mem demoPmm1) z = 0"
  "0x300 \<in> avail (pages (mem demoPmm1)) PMM_ZONE_DMA32" "pmmMap demoPmm1 = demoMap"
proof -
  have B: "{unat (0x300000 :: u64) div 4096..<unat (0x300000 :: u64) div 4096 + unat (0x500000 :: u64) div 4096} = {0x300..<0x800}"
    by simp
  have n: "(0x500000 :: u64) \<noteq> 0" by simp
  note A = pmmAdd_ok [OF demo0_wf(1) demo_add, unfolded B]
  have ad: "added (mem demoPmm0) {0x300..<0x800} (mem demoPmm1)" using A(4) [OF n] by blast
  have mp: "pmmMap demoPmm1 = pmmMap demoPmm0" by (simp add: demoPmm1_def)
  show "pmmMap demoPmm1 = demoMap" by (simp add: mp demo_pages0)
  note W = added_wf [OF demo0_wf(1) ad mp conjunct1 [OF A(3) [OF n]] conjunct2 [OF A(3) [OF n]]]
  show "pmmWf demoPmm1" "managed demoPmm1 = {0x300..<0x800}" "pmmFree demoPmm1 = {0x300..<0x800}" "pmmAllocs demoPmm1 = {}"
    using W demo0_wf by auto
  show "pcpCount (mem demoPmm1) z = 0" using ad by (simp add: added_def demoPmm0_def pmmZonesInit_props)
  show "0x300 \<in> avail (pages (mem demoPmm1)) PMM_ZONE_DMA32" using ad by (simp add: added_def pmmZoneOfPfn_def)
  show "untagged demoPmm1" using ad by (simp add: untagged_def added_def demo_pages0 zeroPage_def)
qed

lemma demo_alloc: "\<exists>st' page. pmmAllocPages 0 0 False demoPmm1 = (st', Inr page)"
proof -
  obtain st' r where r: "pmmAllocPages 0 0 False demoPmm1 = (st', r)" by fastforce
  show ?thesis
  proof (cases r)
    case (Inl e)
    have "PMM_ZONE_DMA32 \<in> set (pmmZoneListFor 0)" by (simp add: pmmZoneListFor_def)
    then have "noBlock 0 (pages (mem demoPmm1)) PMM_ZONE_DMA32"
      using pmmAlloc_fail [OF demo1_wf(1) _ _ _ r [unfolded Inl]] by (simp add: flagsOk_def)
    then show ?thesis using demo1_wf(7) by (auto simp: noBlock_def)
  qed (use r in auto)
qed

lemma demo_buddy: "\<exists>m' p. buddyAllocBlock PMM_ZONE_DMA32 0 (mem demoPmm1) = Some (m', p)"
proof -
  obtain L where i: "binv (mem demoPmm1) L" using demo1_wf(1) by (auto simp: pmmWf_def memInv_def)
  have "cached (pages (mem demoPmm1)) PMM_ZONE_DMA32 = {}"
    using binv_pcp(1) [OF i, of PMM_ZONE_DMA32, symmetric] binv_pcp(3) [OF i, of PMM_ZONE_DMA32] demo1_wf(6) by simp
  moreover have "blk 0x300 0 = {0x300}" by (auto simp: blk_def)
  ultimately have "2 ^ 0 dvd (0x300 :: nat) \<and> blk 0x300 0 \<subseteq> freeSet (pages (mem demoPmm1)) PMM_ZONE_DMA32"
    using demo1_wf(7) by (simp add: avail_def)
  then have "buddyAllocBlock PMM_ZONE_DMA32 0 (mem demoPmm1) \<noteq> None" using buddyAllocBlock_None [OF i] by blast
  then show ?thesis by auto
qed

lemma card_blocks:
  assumes m: "memInv (mem st) {}" and f: "finite (managed st)"
  shows "card (\<Union>(p, k) \<in> pmmAllocs st. blk p k) = (\<Sum>(p, k) \<in> pmmAllocs st. 2 ^ k)"
proof -
  have dj: "\<forall>x \<in> pmmAllocs st. \<forall>y \<in> pmmAllocs st. x \<noteq> y \<longrightarrow> blk (fst x) (snd x) \<inter> blk (fst y) (snd y) = {}"
  proof (intro ballI impI)
    fix x y assume x: "x \<in> pmmAllocs st" "y \<in> pmmAllocs st" "x \<noteq> y"
    then have "fst x \<noteq> fst y" by (auto simp: pmmAllocs_def allocs_def)
    then show "blk (fst x) (snd x) \<inter> blk (fst y) (snd y) = {}"
      using alloc_block(5) [OF m, of "fst x" "snd x" "fst y" "snd y"] x by (auto simp: pmmAllocs_def)
  qed
  have "fst ` pmmAllocs st \<subseteq> managed st" by (auto simp: pmmAllocs_def allocs_def managed_def unowned_def)
  then have "finite (fst ` pmmAllocs st)" by (rule finite_subset [OF _ f])
  moreover have "inj_on fst (pmmAllocs st)" by (auto simp: inj_on_def pmmAllocs_def allocs_def)
  ultimately have fa: "finite (pmmAllocs st)" by (rule finite_imageD)
  show ?thesis
    using card_UN_disjoint [OF fa, of "\<lambda>x. blk (fst x) (snd x)"] dj by (simp add: case_prod_beta blk_def)
qed

text \<open>The counters of a zone are the sizes of its sets of frames.\<close>

lemma avail_card:
  assumes m: "memInv (mem st) {}" and f: "finite (managed st)"
  shows "freePages (zones (mem st) z) + pcpCount (mem st) z = card (avail (pages (mem st)) z)"
    "q \<in> avail (pages (mem st)) z \<Longrightarrow> pmmZoneOfPfn q = z" "finite (avail (pages (mem st)) z)"
proof -
  define pg where "pg = pages (mem st)"
  have t: "tiling pg" using m by (auto simp: memInv_def binv_def pg_def)
  have z: "pmmZoneOfPfn q = z \<and> state (pg q) \<noteq> PAGE_STATE_PCP" if q: "q \<in> freeSet pg z" for q
  proof -
    obtain p where p: "state (pg p) = PAGE_STATE_BUDDY" "pmmZoneOfPfn p = z" "q \<in> blk p (order (pg p))"
      using q by (auto simp: freeSet_def)
    then have h: "is_head (state (pg p))" by (simp add: is_head_def)
    have "pmmZoneOfPfn q = pmmZoneOfPfn p" by (rule blk_zone [OF tilingD(2,1) [OF t h] p(3)])
    moreover have "q = p \<or> state (pg q) = PAGE_STATE_TAIL" using tilingD(3) [OF t h p(3)] by blast
    ultimately show ?thesis using p(1,2) by auto
  qed
  then show "q \<in> avail (pages (mem st)) z \<Longrightarrow> pmmZoneOfPfn q = z" by (auto simp: avail_def cached_def pg_def)
  show fa: "finite (avail (pages (mem st)) z)"
    using managed_split(1) [OF m] by (intro finite_subset [OF _ f]) (auto simp: pmmFree_def)
  have "freeSet pg z \<inter> cached pg z = {}" using z by (auto simp: cached_def)
  then have "card (avail pg z) = card (freeSet pg z) + card (cached pg z)"
    using fa unfolding avail_def pg_def by (subst card_Un_disjoint) auto
  then show "freePages (zones (mem st) z) + pcpCount (mem st) z = card (avail (pages (mem st)) z)"
    using m memInv_count [OF m] by (simp add: memInv_def zoneFree_def pg_def)
qed

section \<open>Properties\<close>

text \<open>
  C7: \<open>pmmAllocPages\<close> keeps the manager's invariant on every path. A bad argument is refused and
  changes nothing. Running out of memory changes nothing either and is reported only when, in every
  zone the flags allow, no frame at all is free (order 0) or no aligned block of that order is on
  the free lists (higher orders). Success returns the pointer of an aligned block of free frames,
  takes exactly that block out of the free frames, adds it to the allocated blocks, keeps it below
  4 GiB when DMA32 was asked for, and has zeroed its memory when zeroing was asked for.
\<close>

theorem pmmAllocPages_correct:
  assumes w: "pmmWf st" and r: "pmmAllocPages ord fl outNull st = (st', res)"
  shows "pmmWf st' \<and> (case res of
      Inl e \<Rightarrow> st' = st \<and>
        (if outNull \<or> ord > PMM_MAX_ORDER \<or> \<not> flagsOk fl then e = STATUS_ERR_INVALID
         else e = STATUS_ERR_NO_MEMORY \<and> (\<forall>z \<in> set (pmmZoneListFor fl).
           if ord = 0 then avail (pages (mem st)) z = {}
           else (\<nexists>p. 2 ^ ord dvd p \<and> blk p ord \<subseteq> freeSet (pages (mem st)) z)))
    | Inr page \<Rightarrow> (\<exists>p. page = pageFromPfn p \<and> \<not> outNull \<and> ord \<le> PMM_MAX_ORDER \<and> flagsOk fl
        \<and> 2 ^ ord dvd p \<and> blk p ord \<subseteq> pmmFree st \<and> pmmFree st' = pmmFree st - blk p ord
        \<and> pmmAllocs st' = insert (p, ord) (pmmAllocs st)
        \<and> (fl AND PMM_FLAG_DMA32 \<noteq> 0 \<longrightarrow> (\<forall>q \<in> blk p ord. q < PMM_ZONE_DMA32_END_PFN))
        \<and> (fl AND PMM_FLAG_ZERO \<noteq> 0 \<longrightarrow>
             (\<forall>i < 2 ^ ord * 512. physRam st' (pmmHhdmBaseValue st + push_bit 12 (of_nat p) + 8 * of_nat i) = 0))))"
proof (cases res)
  case (Inr page)
  from pmmAlloc_ok [OF w r [unfolded Inr]] obtain p where p: "\<not> outNull" "ord \<le> PMM_MAX_ORDER" "flagsOk fl" "page = pageFromPfn p"
    "took (mem st) p ord (mem st')" "pmmZoneOfPfn p \<in> set (pmmZoneListFor fl)" "pmmMap st' = pmmMap st"
    "physRam st' = (if fl AND PMM_FLAG_ZERO \<noteq> 0 then pmmZeroBlock st p ord (physRam st) else physRam st)"
    and c: "\<And>y. pcpCount (mem st') y \<le> max (pcpCount (mem st) y) PMM_PCP_BATCH" by metis
  note W = took_wf [OF w p(5,7) c]
  have al: "2 ^ ord dvd p" using p(5) by (simp add: took_def)
  have "q < PMM_ZONE_DMA32_END_PFN" if "fl AND PMM_FLAG_DMA32 \<noteq> 0" "q \<in> blk p ord" for q
    using p(6) that blk_zone [OF al p(2) that(2)] by (auto simp: pmmZoneListFor_def pmmZoneOfPfn_def split: if_splits)
  moreover have "physRam st' (pmmHhdmBaseValue st + push_bit 12 (of_nat p) + 8 * of_nat i) = 0"
    if "fl AND PMM_FLAG_ZERO \<noteq> 0" "i < 2 ^ ord * 512" for i
    using that p(8) by (auto simp: pmmZeroBlock_def zeroWords_eq mult.commute [of 512])
  ultimately show ?thesis unfolding Inr using W p al by auto
next
  case (Inl e)
  show ?thesis
  proof (cases "outNull \<or> ord > PMM_MAX_ORDER \<or> \<not> flagsOk fl")
    case True
    then have "st' = st" "e = STATUS_ERR_INVALID"
      using r Inl by (auto simp: pmmAllocPages_def flagsOk_def split: if_splits)
    then show ?thesis using True w Inl by simp
  next
    case False
    then show ?thesis using pmmAlloc_fail [OF w _ _ _ r [unfolded Inl]] w Inl by (simp add: noBlock_def)
  qed
qed

theorem pmmAllocPages_correct_witness:
  "\<exists>st' p. pmmAllocPages 0 0 False demoPmm1 = (st', Inr (pageFromPfn p)) \<and> pmmAllocs st' = {(p, 0)}"
proof -
  obtain st' page where r: "pmmAllocPages 0 0 False demoPmm1 = (st', Inr page)" using demo_alloc by blast
  show ?thesis using pmmAllocPages_correct [OF demo1_wf(1) r] r demo1_wf(4) by auto
qed

text \<open>
  C8: \<open>pmmFreePages\<close> succeeds exactly on the pointer of an allocated block with the order it was
  allocated at and no page of which still carries an owner mark: when it succeeds these conditions
  held, and when it refuses one of them failed. A successful call returns exactly that block to the
  free frames and keeps the invariant, including the bound on the page cache.
\<close>

theorem pmmFreePages_correct:
  assumes w: "pmmWf st"
  shows "case pmmFreePages page ord st of
      Inr st' \<Rightarrow> \<exists>p. page = pageFromPfn p \<and> (p, ord) \<in> pmmAllocs st
        \<and> (\<forall>q \<in> blk p ord. flags (pages (mem st) q) AND PAGE_F_OWNER_MASK = 0)
        \<and> pmmWf st' \<and> pmmAllocs st' = pmmAllocs st - {(p, ord)} \<and> pmmFree st' = pmmFree st \<union> blk p ord
    | Inl _ \<Rightarrow> \<not> (\<exists>p. page = pageFromPfn p \<and> (p, ord) \<in> pmmAllocs st
        \<and> (\<forall>q \<in> blk p ord. flags (pages (mem st) q) AND PAGE_F_OWNER_MASK = 0))"
proof (cases "pmmFreePages page ord st")
  case (Inr st')
  from pmmFree_ok [OF w Inr] show ?thesis unfolding Inr by simp metis
next
  case (Inl b)
  have "p < 2 ^ 39" if "(p, ord) \<in> pmmAllocs st" for p
  proof -
    have "p \<in> managed st" using that by (auto simp: pmmAllocs_def allocs_def managed_def unowned_def)
    then show ?thesis using managed_small [OF w] by fastforce
  qed
  moreover have "pmmValidateForFree st page ord \<noteq> Inr p" for p
    using Inl by (auto simp: pmmFreePages_def Let_def split: if_splits)
  ultimately show ?thesis unfolding Inl using validate_ok [OF w, of page ord] by auto
qed

theorem pmmFreePages_correct_witness:
  "(\<exists>st' page st''. pmmAllocPages 0 0 False demoPmm1 = (st', Inr page) \<and> pmmFreePages page 0 st' = Inr st''
      \<and> pmmAllocs st'' = {} \<and> pmmFree st'' = {0x300..<0x800})
   \<and> (\<exists>b. pmmFreePages (pageFromPfn 0x300) 3 demoPmm1 = Inl b)"
proof
  obtain st' page where r: "pmmAllocPages 0 0 False demoPmm1 = (st', Inr page)" using demo_alloc by blast
  let ?h = "(pageToPfn page, 0 :: nat)"
  have a: "pmmAcquire demoPmm1 (0, 0) = Some (st', ?h)" using r by (simp add: pmmAcquire_def)
  note A = acquire_effect [OF _ a] 
  have c: "pmmClientWf demoPmm1" using demo1_wf(1,5) by (simp add: pmmClientWf_def)
  have w: "pmmWf st'" "untagged st'" using A(1) [OF c] by (simp_all add: pmmClientWf_def)
  have pg: "page = pageFromPfn (pageToPfn page)"
  proof -
    obtain p where "page = pageFromPfn p" "p < 17179869184" using pmmAlloc_ok [OF demo1_wf(1) r] by metis
    then show ?thesis using page_ptr(1) [of p] by simp
  qed
  have h: "?h \<in> pmmAllocs st'" "pmmAllocs st' - {?h} = {}" "pmmFree st' \<union> blk (pageToPfn page) 0 = {0x300..<0x800}"
    using A(3,4) [OF c] by (auto simp: demo1_wf(3,4) pmmExt_def)
  have "\<exists>st''. pmmFreePages page 0 st' = Inr st'' \<and> pmmAllocs st'' = {} \<and> pmmFree st'' = {0x300..<0x800}"
  proof (cases "pmmFreePages page 0 st'")
    case (Inl b)
    then show ?thesis using pmmFreePages_correct [OF w(1), of page 0] pg h(1) w(2) by (auto simp: untagged_def)
  next
    case (Inr st'')
    then obtain p where p: "page = pageFromPfn p" "(p, 0) \<in> pmmAllocs st'" "pmmAllocs st'' = pmmAllocs st' - {(p, 0)}"
      "pmmFree st'' = pmmFree st' \<union> blk p 0" using pmmFreePages_correct [OF w(1), of page 0] by auto
    then have "p = pageToPfn page" using h(2) by auto
    then show ?thesis using Inr p h by simp
  qed
  then show "\<exists>st' page st''. pmmAllocPages 0 0 False demoPmm1 = (st', Inr page) \<and> pmmFreePages page 0 st' = Inr st''
      \<and> pmmAllocs st'' = {} \<and> pmmFree st'' = {0x300..<0x800}" using r by blast
  show "\<exists>b. pmmFreePages (pageFromPfn 0x300) 3 demoPmm1 = Inl b"
    using pmmFreePages_correct [OF demo1_wf(1), of "pageFromPfn 0x300" 3]
    by (cases "pmmFreePages (pageFromPfn 0x300) 3 demoPmm1") (simp_all add: demo1_wf(4))
qed

text \<open>
  C9: Releasing a wrong frame of the page array is caught and named correctly before anything is
  changed: a frame that is already free (head or inside of a free block, or in the page cache) is a
  double free, an inner frame of a live block is not a head, a head released with the wrong order is
  an order mismatch, and a frame the manager never owned is a reserved frame.
\<close>

theorem pmmFreePages_misuse:
  assumes "pmmWf st" and "p \<in> spanned (spans (pmmMap st))" and "ord \<le> PMM_MAX_ORDER" and "2 ^ ord dvd p"
  shows "(p \<in> pmmFree st \<longrightarrow> pmmFreePages (pageFromPfn p) ord st = Inl (PMM_BUG_DOUBLE_FREE, p))
    \<and> (\<forall>k. (p, k) \<in> pmmAllocs st \<and> k \<noteq> ord \<longrightarrow> pmmFreePages (pageFromPfn p) ord st = Inl (PMM_BUG_ORDER_MISMATCH, p))
    \<and> ((\<exists>q k. (q, k) \<in> pmmAllocs st \<and> q < p \<and> p < q + 2 ^ k) \<longrightarrow>
         pmmFreePages (pageFromPfn p) ord st = Inl (PMM_BUG_NOT_HEAD, p))
    \<and> (state (pages (mem st) p) = PAGE_STATE_RESERVED \<longrightarrow>
         pmmFreePages (pageFromPfn p) ord st = Inl (PMM_BUG_RESERVED_FRAME, p))"
proof -
  note V = validate_bug [OF assms]
  have m: "memInv (mem st) {}" using assms(1) by (simp add: pmmWf_def)
  have "inAlloc st p \<and> (\<forall>j. (p, j) \<notin> pmmAllocs st)" if "(q, k) \<in> pmmAllocs st" "q < p" "p < q + 2 ^ k" for q k
  proof -
    have b: "p \<in> blk q k" using that by (simp add: blk_def)
    have "blk q k \<inter> blk p j = {}" if "(p, j) \<in> pmmAllocs st" for j
      using alloc_block(5) [OF m, of q k p j] that \<open>(q, k) \<in> pmmAllocs st\<close> \<open>q < p\<close> by (auto simp: pmmAllocs_def)
    then show ?thesis using b that blk_self by (fastforce simp: inAlloc_def)
  qed
  then show ?thesis using V unfolding pmmFreePages_def by auto
qed

theorem pmmFreePages_misuse_witness:
  "pmmFreePages (pageFromPfn 0x300) 0 demoPmm1 = Inl (PMM_BUG_DOUBLE_FREE, 0x300)"
  using pmmFreePages_misuse [OF demo1_wf(1), of "0x300" 0] by (simp add: demo1_wf(3,8) demo_spanned)

text \<open>
  C10: However clients interleave allocations and releases of any order and flags, from a state with
  every managed frame free, the blocks they hold never overlap each other or a free frame and stay
  inside the managed frames, and every block still held can be released.
\<close>

theorem pmm_live_blocks:
  assumes "pmmWf st" "untagged st" "pmmAllocs st = {}" and "pmm.reach st s L" and "(p, k) \<in> L"
  shows "(\<exists>s'. pmmFreePages (pageFromPfn p) k s = Inr s' \<and> pmm.reach st s' (L - {(p, k)}))
     \<and> (\<forall>q j. (q, j) \<in> L \<and> (q, j) \<noteq> (p, k) \<longrightarrow> blk p k \<inter> blk q j = {})
     \<and> blk p k \<inter> pmmFree s = {} \<and> blk p k \<subseteq> managed st"
proof -
  have m: "memInv (mem st) {}" using assms(1) by (simp add: pmmWf_def)
  have i: "pmmClientWf st" "pmmFree st = managed st" "pmmHeld st {}"
    using assms(1-3) managed_split(1) [OF m] by (simp_all add: pmmClientWf_def pmmHeld_def)
  note R = assms(4) i
  have "\<exists>s'. pmmFreePages (pageFromPfn p) k s = Inr s' \<and> pmm.reach st s' (L - {(p, k)})"
    using pmm.reach_release [OF R assms(5)] by (auto simp: pmmReturn_def split: sum.splits)
  moreover have "ledger_ok pmmExt (managed st) (pmmFree s) L" using pmm.reach_inv [OF R] by metis
  then have "\<forall>y \<in> L. y \<noteq> (p, k) \<longrightarrow> pmmExt (p, k) \<inter> pmmExt y = {}" "pmmExt (p, k) \<inter> pmmFree s = {}"
    "pmmExt (p, k) \<subseteq> managed st"
    using assms(5) unfolding ledger_ok_def by blast+
  ultimately show ?thesis unfolding pmmExt_def by (metis fst_conv snd_conv)
qed

theorem pmm_live_blocks_witness:
  "\<exists>s' p k. pmm.reach demoPmm1 s' {(p, k)} \<and> (\<exists>s''. pmmFreePages (pageFromPfn p) k s' = Inr s'')"
proof -
  obtain s' page where r: "pmmAllocPages 0 0 False demoPmm1 = (s', Inr page)" using demo_alloc by blast
  then have "pmmAcquire demoPmm1 (0, 0) = Some (s', (pageToPfn page, 0))" by (simp add: pmmAcquire_def)
  then have R: "pmm.reach demoPmm1 s' {(pageToPfn page, 0)}" by (rule pmm.reach.take [OF pmm.reach.start])
  have "(pageToPfn page, 0) \<in> {(pageToPfn page, 0)}" by simp
  from conjunct1 [OF pmm_live_blocks [OF demo1_wf(1,5,4) R this]] R show ?thesis by blast
qed

text \<open>
  C13: \<open>pmmAddFreeRange\<close> is all or nothing. It succeeds exactly on an aligned range that does not
  wrap and whose frames are all inside the page array and still reserved (the empty range does
  nothing), and then those frames, and no others, become managed and free, the invariant is kept
  and no allocated block changes.
\<close>

theorem pmmAddFreeRange_correct:
  fixes st :: Pmm and b n :: u64
  assumes w: "pmmWf st"
  defines "B \<equiv> {unat b div 4096..<unat b div 4096 + unat n div 4096}"
  shows "case pmmAddFreeRange b n st of
      Inl e \<Rightarrow> e = STATUS_ERR_INVALID \<and> (4096 dvd unat b \<and> 4096 dvd unat n \<longrightarrow>
         n \<noteq> 0 \<and> \<not> B \<subseteq> {p \<in> spanned (spans (pmmMap st)). state (pages (mem st) p) = PAGE_STATE_RESERVED})
    | Inr st' \<Rightarrow> 4096 dvd unat b \<and> 4096 dvd unat n \<and> B \<subseteq> spanned (spans (pmmMap st)) - managed st
        \<and> pmmWf st' \<and> managed st' = managed st \<union> B \<and> pmmFree st' = pmmFree st \<union> B \<and> pmmAllocs st' = pmmAllocs st"
proof (cases "pmmAddFreeRange b n st")
  case (Inr st')
  note A = pmmAdd_ok [OF w Inr, folded B_def]
  show ?thesis
  proof (cases "n = 0")
    case True
    then have "B = {}" by (simp add: B_def)
    then show ?thesis using A(1,2) A(5) [OF True] w Inr by simp
  next
    case False
    have "pmmMap st' = pmmMap (st\<lparr>mem := mem st'\<rparr>)" by (rule arg_cong [OF conjunct1 [OF A(4) [OF False]]])
    then have mp: "pmmMap st' = pmmMap st" by simp
    note W = added_wf [OF w conjunct2 [OF A(4) [OF False]] mp conjunct1 [OF A(3) [OF False]] conjunct2 [OF A(3) [OF False]]]
    show ?thesis unfolding Inr using W A(1,2) A(3) [OF False] by auto
  qed
next
  case (Inl e)
  then have e: "e = STATUS_ERR_INVALID" by (auto simp: pmmAddFreeRange_def Let_def split: if_splits)
  have False if al: "4096 dvd unat b" "4096 dvd unat n" "n \<noteq> 0"
    and B: "B \<subseteq> {p \<in> spanned (spans (pmmMap st)). state (pages (mem st) p) = PAGE_STATE_RESERVED}"
  proof -
    have lt: "unat b div 4096 < 2 ^ 52" "unat n div 4096 < 2 ^ 52" using unat_lt_64 [of b] unat_lt_64 [of n] by simp_all
    have s: "unat (drop_bit 12 b) = unat b div 4096" by (simp add: unat_drop_12)
    have t: "unat (drop_bit 12 b + drop_bit 12 n) = unat b div 4096 + unat n div 4096"
      using lt by (subst unat_add_nowrap) (simp_all add: unat_drop_12)
    have "unat n > 0" using al(3) by (simp add: unat_gt_0)
    then have n: "unat n div 4096 > 0" using al(2) by (auto elim: dvdE)
    have "frameReserved st p" if "p \<in> B" for p
      using B that lt valid_pfn [OF w, of p] by (auto simp: frameReserved_def B_def)
    then have "list_all (frameReserved st) [unat b div 4096..<unat b div 4096 + unat n div 4096]"
      by (simp add: list_all_iff B_def)
    moreover have "(b OR n) AND 0xFFF = 0" using al aligned_or [of b n] by simp
    ultimately show False using Inl n al(3) by (simp add: pmmAddFreeRange_def Let_def s t)
  qed
  moreover have "n \<noteq> 0 \<or> \<not> (4096 dvd unat b \<and> 4096 dvd unat n)"
    using Inl aligned_or [of b n] by (auto simp: pmmAddFreeRange_def split: if_splits)
  ultimately show ?thesis using Inl e by auto
qed

theorem pmmAddFreeRange_correct_witness:
  "pmmAddFreeRange 0x300000 0x500000 demoPmm0 = Inr demoPmm1 \<and> pmmFree demoPmm1 = {0x300..<0x800}"
  using pmmAddFreeRange_correct [OF demo0_wf(1), where b = "0x300000" and n = "0x500000"] demo0_wf(3) demo_add by simp

text \<open>
  C14: Draining the page cache always ends, empties it, and is invisible to clients: the same frames
  are free and the same blocks are allocated.
\<close>

theorem pmmDrainLocalCache_correct:
  assumes "pmmWf st"
  shows "\<exists>st'. pmmDrainLocalCache st = Some st' \<and> pmmWf st' \<and> (\<forall>z. cached (pages (mem st')) z = {})
     \<and> pmmFree st' = pmmFree st \<and> pmmAllocs st' = pmmAllocs st \<and> managed st' = managed st"
proof -
  have m: "memInv (mem st) {}" using assms by (simp add: pmmWf_def)
  from mem_drain [OF m, of PMM_ZONE_DMA32] obtain m1 where m1: "pcpDrain PMM_ZONE_DMA32 (mem st) = Some m1" "memInv m1 {}"
    "cframe (mem st) m1" "pcpCount m1 = (pcpCount (mem st))(PMM_ZONE_DMA32 := 0)" by blast
  from mem_drain [OF m1(2), of PMM_ZONE_NORMAL] obtain m2 where m2: "pcpDrain PMM_ZONE_NORMAL m1 = Some m2" "memInv m2 {}"
    "cframe m1 m2" "pcpCount m2 = (pcpCount m1)(PMM_ZONE_NORMAL := 0)" by blast
  have c: "cframe (mem st) m2" by (rule cframe_trans [OF m1(3) m2(3)])
  have z: "pcpCount m2 z = 0" for z by (cases z) (simp_all add: m1(4) m2(4))
  obtain L where L: "binv m2 L" using m2(2) by (auto simp: memInv_def)
  have "cached (pages m2) z = {}" for z
    using binv_pcp(1) [OF L, of z, symmetric] binv_pcp(3) [OF L, of z] z [of z] by simp
  moreover have "pmmWf (st\<lparr>mem := m2\<rparr>)" using assms c m2(2) z by (simp add: pmmWf_def cframe_def managed_def)
  ultimately show ?thesis using m1(1) m2(1) c
    by (simp add: pmmDrainLocalCache_def pmmFree_def pmmAllocs_def managed_def cframe_def)
qed

theorem pmmDrainLocalCache_correct_witness: "\<exists>st'. pmmDrainLocalCache demoPmm1 = Some st' \<and> pmmFree st' = {0x300..<0x800}"
  using pmmDrainLocalCache_correct [OF demo1_wf(1)] demo1_wf(3) by auto

text \<open>
  C15: The figures \<open>pmmGetStats\<close> reports are exact: the managed, free, cached and allocated page
  counts are the sizes of the corresponding sets of frames, and the allocated pages are the sum of
  the sizes of the live blocks.
\<close>

theorem pmmGetStats_exact:
  assumes w: "pmmWf st"
  shows "unat (st_managedPages (pmmGetStats st)) = card (managed st)
     \<and> unat (st_freePages (pmmGetStats st)) = card (pmmFree st)
     \<and> unat (st_cachedPages (pmmGetStats st)) = card (\<Union>z. cached (pages (mem st)) z)
     \<and> unat (st_allocatedPages (pmmGetStats st)) = (\<Sum>(p, k) \<in> pmmAllocs st. 2 ^ k)"
proof -
  let ?D = PMM_ZONE_DMA32 and ?N = PMM_ZONE_NORMAL and ?m = "mem st" and ?pg = "pages (mem st)"
  have m: "memInv ?m {}" and sp: "managed st \<subseteq> {..<17179869184}"
    using w managed_small [OF w] by (auto simp: pmmWf_def)
  have f: "finite (managed st)" using sp by (rule finite_subset) simp
  have cm: "card (managed st) \<le> 17179869184" using card_mono [OF _ sp] by simp
  note A = avail_card [OF m f]
  have fr: "pmmFree st = avail ?pg ?D \<union> avail ?pg ?N" by (simp add: pmmFree_def zone_UNIV)
  have "avail ?pg ?D \<inter> avail ?pg ?N = {}" by (auto dest!: A(2))
  then have cf: "card (pmmFree st) = (freePages (zones ?m ?D) + pcpCount ?m ?D) + (freePages (zones ?m ?N) + pcpCount ?m ?N)"
    unfolding A(1) fr using A(3) by (simp add: card_Un_disjoint)
  have dj: "{p \<in> managed st. pmmZoneOfPfn p = ?D} \<inter> {p \<in> managed st. pmmZoneOfPfn p = ?N} = {}" by auto
  have un: "managed st = {p \<in> managed st. pmmZoneOfPfn p = ?D} \<union> {p \<in> managed st. pmmZoneOfPfn p = ?N}"
    using PmmZoneId.exhaust by blast
  have mz: "managedPages (zones ?m z) = card {p \<in> managed st. pmmZoneOfPfn p = z}" for z
    using w unfolding pmmWf_def by blast
  have cg: "card (managed st) = managedPages (zones ?m ?D) + managedPages (zones ?m ?N)"
    unfolding mz by (rule trans [OF arg_cong [OF un, of card] card_Un_disjoint [OF _ _ dj]]) (simp_all add: f)
  note S = managed_split [OF m]
  have fm: "pmmFree st \<subseteq> managed st" unfolding S(1) [symmetric] by (rule Un_upper1)
  have ff: "finite (pmmFree st)" by (rule finite_subset [OF fm f])
  have le: "card (pmmFree st) \<le> card (managed st)" by (rule card_mono [OF f fm])
  have "(\<Union>(p, k) \<in> pmmAllocs st. blk p k) = managed st - pmmFree st" using S(2) unfolding S(1) [symmetric] by blast
  then have ca: "(\<Sum>(p, k) \<in> pmmAllocs st. 2 ^ k) = card (managed st) - card (pmmFree st)"
    using card_blocks [OF m f] card_Diff_subset [OF ff fm] by simp
  have "cached ?pg ?D \<inter> cached ?pg ?N = {}" "\<And>z. finite (cached ?pg z)"
    using A(3) by (auto simp: cached_def avail_def)
  then have cc: "card (\<Union>z. cached ?pg z) = pcpCount ?m ?D + pcpCount ?m ?N"
    by (simp add: zone_UNIV card_Un_disjoint memInv_count [OF m])
  have n: "st_managedPages (pmmGetStats st) = of_nat (card (managed st))" "st_freePages (pmmGetStats st) = of_nat (card (pmmFree st))"
    "st_cachedPages (pmmGetStats st) = of_nat (card (\<Union>z. cached ?pg z))"
    "st_allocatedPages (pmmGetStats st) = of_nat (card (managed st) - card (pmmFree st))"
    by (simp_all add: pmmGetStats_def Let_def cg cf cc of_nat_diff [OF le, unfolded cg cf])
  have "card (\<Union>z. cached ?pg z) \<le> card (pmmFree st)" using cf cc by simp
  then show ?thesis using cm le by (simp add: n ca unat_of_nat_eq del: of_nat_diff)
qed

theorem pmmGetStats_exact_witness:
  "unat (st_freePages (pmmGetStats demoPmm1)) = 0x500 \<and> unat (st_allocatedPages (pmmGetStats demoPmm1)) = 0"
  using pmmGetStats_exact [OF demo1_wf(1)] by (simp add: demo1_wf(3,4))

text \<open>
  C11: The buddy allocator serves a request exactly when some naturally aligned run of that many
  frames of the zone is free, whatever splits and merges came before (so merging on release leaves
  no run unusable). A served request takes exactly an aligned run of free frames, leaves the other zone
  alone and keeps the invariant, in particular the coalescing of free blocks. All counters are exact
  afterwards: \<open>freePages\<close> of every zone is its number of free frames, and \<open>freeBlocks\<close> of every zone and order
  is its number of free blocks of that order.
\<close>

theorem buddyAllocBlock_complete:
  assumes m: "memInv m {}" and k: "k \<le> PMM_MAX_ORDER"
  shows "case buddyAllocBlock z k m of
      None \<Rightarrow> \<not> (\<exists>p. 2 ^ k dvd p \<and> blk p k \<subseteq> freeSet (pages m) z)
    | Some (m', p) \<Rightarrow> 2 ^ k dvd p \<and> blk p k \<subseteq> freeSet (pages m) z
        \<and> (\<forall>y. freeSet (pages m') y = (if y = z then freeSet (pages m) z - blk p k else freeSet (pages m) y))
        \<and> memInv m' (blk p k) \<and> coalesced (pages m') \<and> tiling (pages m') \<and> loose (pages m') = blk p k
        \<and> freePages (zones m' z) + 2 ^ k = freePages (zones m z)
        \<and> (\<forall>y. freePages (zones m' y) = card (freeSet (pages m') y))
        \<and> (\<forall>y j. j \<le> PMM_MAX_ORDER \<longrightarrow> freeBlocks (zones m' y) j = card {q. isFreeBuddy (pages m') q j \<and> pmmZoneOfPfn q = y})"
proof -
  obtain L where i: "binv m L" and z: "zoneFree m z = card (freeSet (pages m) z)" and l: "loose (pages m) = {}"
    using m by (auto simp: memInv_def)
  show ?thesis
  proof (cases "buddyAllocBlock z k m")
    case None
    then have "\<not> (\<exists>p. 2 ^ k dvd p \<and> blk p k \<subseteq> freeSet (pages m) z)" by (simp add: buddyAllocBlock_None [OF i k])
    then show ?thesis by (simp add: None)
  next
    case (Some x)
    obtain m' p where x: "x = (m', p)" by fastforce
    note S = buddyAllocBlock_step [OF i k Some [unfolded x]]
    obtain L' where i': "binv m' L'" using S(1) by (auto simp: bstep_def)
    have f: "freeSet (pages m) z = freeSet (pages m') z \<union> blk p k" "freeSet (pages m') z \<inter> blk p k = {}"
      using S(3) [of z] S(2) freeSet_loose [of "pages m'" z] by auto
    have b: "blk p k \<subseteq> freeSet (pages m) z" using f(1) by blast
    then have "card (blk p k) \<le> zoneFree m z" unfolding z by (intro card_mono freeSet_finite [OF i])
    then have "freePages (zones m' z) + 2 ^ k = freePages (zones m z)"
      using S(4) by (simp add: zoneFree_def fun_eq_iff blk_def)
    moreover have "memInv m' (blk p k)" using mem_alloc(1) [OF m k Some [unfolded x]] by simp
    moreover from this have "\<forall>y. freePages (zones m' y) = card (freeSet (pages m') y)" by (simp add: memInv_def zoneFree_def)
    moreover have "\<forall>y. freeSet (pages m') y = (if y = z then freeSet (pages m) z - blk p k else freeSet (pages m) y)"
      using f S(3) by auto
    moreover have "\<forall>y j. j \<le> PMM_MAX_ORDER \<longrightarrow> freeBlocks (zones m' y) j = card {q. isFreeBuddy (pages m') q j \<and> pmmZoneOfPfn q = y}"
      using freeBlocks_exact [OF i'] by blast
    moreover have "loose (pages m') = blk p k" using S(2) l by simp
    ultimately show ?thesis using S(5) b binvD(4,5) [OF i'] unfolding Some x option.case prod.case by blast
  qed
qed

theorem buddyAllocBlock_complete_witness:
  "\<exists>m' p. buddyAllocBlock PMM_ZONE_DMA32 0 (mem demoPmm1) = Some (m', p) \<and> coalesced (pages m')
     \<and> freeBlocks (zones m' PMM_ZONE_DMA32) 3 = card {q. isFreeBuddy (pages m') q 3 \<and> pmmZoneOfPfn q = PMM_ZONE_DMA32}"
proof -
  have m: "memInv (mem demoPmm1) {}" using demo1_wf(1) by (simp add: pmmWf_def)
  obtain m' p where r: "buddyAllocBlock PMM_ZONE_DMA32 0 (mem demoPmm1) = Some (m', p)" using demo_buddy by blast
  show ?thesis using buddyAllocBlock_complete [OF m, of 0 PMM_ZONE_DMA32] r by simp
qed

text \<open>
  C12: Releasing a block right after allocating it undoes the allocation: the same frames are free in
  every zone, the page counters agree, the free lists are coalesced again, and every later request
  succeeds or fails exactly as it would have before.
\<close>

theorem buddy_alloc_free_roundtrip:
  assumes m: "memInv m {}" and k: "k \<le> PMM_MAX_ORDER" and r: "buddyAllocBlock z k m = Some (m1, p)"
  defines "m2 \<equiv> buddyFreeBlock z p k m1"
  shows "memInv m2 {} \<and> freeSet (pages m2) y = freeSet (pages m) y \<and> freePages (zones m2 y) = freePages (zones m y)
     \<and> (j \<le> PMM_MAX_ORDER \<longrightarrow> (buddyAllocBlock y j m2 = None \<longleftrightarrow> buddyAllocBlock y j m = None))"
proof -
  obtain L where i: "binv m L" and z: "\<And>y. zoneFree m y = card (freeSet (pages m) y)" and l: "loose (pages m) = {}"
    using m by (auto simp: memInv_def)
  note S = buddyAllocBlock_step [OF i k r]
  obtain L1 where i1: "binv m1 L1" using S(1) by (auto simp: bstep_def)
  have b: "blk p k \<subseteq> loose (pages m1)" using S(2) by simp
  note F = buddyFreeBlock_step [OF i1 b S(5) k S(6), folded m2_def]
  obtain L2 where i2: "binv m2 L2" using F(1) by (auto simp: bstep_def)
  have fr: "freeSet (pages m2) y = freeSet (pages m) y" for y using F(3) [of y] S(3) [of y] by simp
  have "blk p k \<subseteq> freeSet (pages m) z" using S(3) [of z] by auto
  then have "card (blk p k) \<le> zoneFree m z" unfolding z by (intro card_mono freeSet_finite [OF i])
  then have zf: "zoneFree m2 = zoneFree m" using F(4) S(4) by (auto simp: fun_eq_iff blk_def)
  have "memInv m2 {}" using i2 F(2) S(2) l z zf fr by (auto simp: memInv_def)
  then show ?thesis
    using fr zf buddyAllocBlock_None [OF i2] buddyAllocBlock_None [OF i] by (auto simp: zoneFree_def fun_eq_iff)
qed

theorem buddy_alloc_free_roundtrip_witness:
  "\<exists>m1 p. buddyAllocBlock PMM_ZONE_DMA32 0 (mem demoPmm1) = Some (m1, p)
     \<and> freeSet (pages (buddyFreeBlock PMM_ZONE_DMA32 p 0 m1)) PMM_ZONE_DMA32 = freeSet (pages (mem demoPmm1)) PMM_ZONE_DMA32"
proof -
  have m: "memInv (mem demoPmm1) {}" using demo1_wf(1) by (simp add: pmmWf_def)
  obtain m1 p where r: "buddyAllocBlock PMM_ZONE_DMA32 0 (mem demoPmm1) = Some (m1, p)" using demo_buddy by blast
  show ?thesis using buddy_alloc_free_roundtrip [OF m _ r] r by auto
qed

end
