(* ===== verification/Lockdep.thy ===== *)
theory Lockdep
  imports Prelude
begin

text \<open>
  The lock validator's core, \<open>kernel/sync/lockdep-core.c\<close>: lock classes, the acquisition-order graph
  as a bit matrix with an edge table, the stack of held locks, the checks made before an acquire or
  release, and the updates that record one. Class ids are naturals (they are at most 256); arrays
  indexed by class are functions of the index; the held stack is its fixed array and a depth.
  The stack capture is a parameter that fills a trace. The chain walk of a report follows parent
  links and is a partial function, so that a walk that never ends would be \<open>None\<close>.
\<close>

section \<open>Data\<close>

abbreviation LOCKDEP_MAX_CLASSES :: nat where "LOCKDEP_MAX_CLASSES \<equiv> 256"
abbreviation LOCKDEP_MAX_EDGES :: nat where "LOCKDEP_MAX_EDGES \<equiv> 512"
abbreviation LOCKDEP_MAX_HELD :: nat where "LOCKDEP_MAX_HELD \<equiv> 16"
abbreviation LOCKDEP_MAX_PATH :: nat where "LOCKDEP_MAX_PATH \<equiv> 16"
abbreviation (input) LOCKDEP_USAGE_IN_HARDIRQ :: nat where "LOCKDEP_USAGE_IN_HARDIRQ \<equiv> 0"
abbreviation (input) LOCKDEP_USAGE_IRQS_ON :: nat where "LOCKDEP_USAGE_IRQS_ON \<equiv> 1"

record LockdepTrace =
  pc :: "u64 list"
  tr_count :: nat

record LockdepClass =
  c_key :: u64
  c_name :: u64
  usageMask :: u8
  usageTrace :: "nat \<Rightarrow> LockdepTrace"

record LockdepEdge =
  e_from :: nat
  e_to :: nat
  e_trace :: LockdepTrace

record LockdepHeld =
  h_instance :: u64
  h_classId :: nat
  h_irqCtx :: u8
  h_trylock :: bool
  h_irqsOn :: bool
  h_ip :: u64

record LockdepHeldStack =
  held :: "LockdepHeld list"
  depth :: nat

record LockdepGraph =
  classCount :: nat
  edgeCount :: nat
  classes :: "nat \<Rightarrow> LockdepClass"
  adj :: "nat \<Rightarrow> nat \<Rightarrow> u64"
  edges :: "nat \<Rightarrow> LockdepEdge"
  bfsQueue :: "nat \<Rightarrow> nat"
  bfsParent :: "nat \<Rightarrow> nat"
  bfsSeen :: "nat \<Rightarrow> u64"

datatype LockdepVerdict =
    LOCKDEP_OK
  | LOCKDEP_REPORT_INVERSION
  | LOCKDEP_REPORT_RECURSION
  | LOCKDEP_REPORT_IRQ_INCONSISTENT
  | LOCKDEP_REPORT_NOT_HELD
  | LOCKDEP_REPORT_HELD_OVERFLOW
  | LOCKDEP_REPORT_BAD_INIT
  | LOCKDEP_FULL

record LockdepFinding =
  f_kind :: LockdepVerdict
  newClass :: nat
  heldClass :: nat
  heldIndex :: nat
  usageNew :: nat
  usageOld :: nat
  sameInstance :: bool
  pathLen :: nat
  pathTruncated :: bool
  pathClass :: "nat list"

type_synonym capture = "(LockdepTrace \<Rightarrow> LockdepTrace) option"

section \<open>The graph\<close>

definition adjTest :: "LockdepGraph \<Rightarrow> nat \<Rightarrow> nat \<Rightarrow> bool" where
  "adjTest g fr to \<longleftrightarrow> drop_bit ((to - 1) mod 64) (adj g (fr - 1) ((to - 1) div 64)) AND 1 \<noteq> 0"

definition adjSet :: "LockdepGraph \<Rightarrow> nat \<Rightarrow> nat \<Rightarrow> LockdepGraph" where
  "adjSet g fr to = g\<lparr>adj := (adj g)(fr - 1 := (adj g (fr - 1))((to - 1) div 64 :=
     adj g (fr - 1) ((to - 1) div 64) OR push_bit ((to - 1) mod 64) 1))\<rparr>"

text \<open>\<open>lockdepCoreClassOf\<close>: a null key or name is 0.\<close>

definition lockdepCoreClassOf :: "LockdepGraph \<Rightarrow> u64 \<Rightarrow> u64 \<Rightarrow> LockdepGraph \<times> (LockdepVerdict + nat)" where
  "lockdepCoreClassOf g ky nm =
     (if ky = 0 \<or> nm = 0 then (g, Inl LOCKDEP_REPORT_BAD_INIT)
      else case find (\<lambda>i. c_key (classes g i) = ky) [0..<classCount g] of
          Some i \<Rightarrow> (g, Inr (i + 1))
        | None \<Rightarrow>
            if classCount g = LOCKDEP_MAX_CLASSES then (g, Inl LOCKDEP_FULL)
            else (g\<lparr>classes := (classes g)(classCount g := (classes g (classCount g))\<lparr>c_key := ky, c_name := nm, usageMask := 0\<rparr>),
                   classCount := classCount g + 1\<rparr>, Inr (classCount g + 1)))"

definition lockdepCoreHasEdge :: "LockdepGraph \<Rightarrow> nat \<Rightarrow> nat \<Rightarrow> bool" where
  "lockdepCoreHasEdge g fr to =
     (if fr = 0 \<or> to = 0 \<or> fr > classCount g \<or> to > classCount g then False else adjTest g fr to)"

definition lockdepCoreEdgeFind :: "LockdepGraph \<Rightarrow> nat \<Rightarrow> nat \<Rightarrow> nat option" where
  "lockdepCoreEdgeFind g fr to = find (\<lambda>i. e_from (edges g i) = fr \<and> e_to (edges g i) = to) [0..<edgeCount g]"

section \<open>Breadth-first search\<close>

definition ctz64 :: "u64 \<Rightarrow> nat" where
  "ctz64 w = length (takeWhile (\<lambda>n. \<not> bit w n) [0..<64])"

text \<open>Clearing the lowest set bit.\<close>

lemma ctz64_bit:
  assumes "w \<noteq> 0"
  shows "bit w (ctz64 w)" and "ctz64 w < 64" and "n < ctz64 w \<Longrightarrow> \<not> bit w n"
proof -
  obtain k where k: "bit w k" "k < 64"
    using assms bit_eqI [of w 0] bit_imp_le_length by (auto simp: bit_imp_le_length)
  let ?P = "\<lambda>n. \<not> bit w n"
  have "takeWhile ?P [0..<64] \<noteq> [0..<64]"
    using k by (metis atLeastLessThan_iff set_takeWhileD set_upt zero_le)
  then have len: "ctz64 w < 64"
    unfolding ctz64_def by (metis diff_zero length_takeWhile_le length_upt nat_less_le takeWhile_eq_take take_all_iff)
  then show "ctz64 w < 64" .
  show "bit w (ctz64 w)"
    using nth_length_takeWhile [of ?P "[0..<64]"] len unfolding ctz64_def by simp
  show "\<not> bit w n" if "n < ctz64 w"
    using that takeWhile_nth [of n ?P "[0..<64]"] nth_mem [of n "takeWhile ?P [0..<64]"] set_takeWhileD len
    unfolding ctz64_def by fastforce
qed

lemma clear_lowest:
  fixes w :: u64
  assumes "w \<noteq> 0"
  shows "bit (w AND (w - 1)) n \<longleftrightarrow> bit w n \<and> n \<noteq> ctz64 w"
proof -
  define b u where "b = ctz64 w" and "u = unset_bit b w"
  note B = ctz64_bit [OF assms, folded b_def]
  have w: "w = u + push_bit b 1"
  proof -
    have "u + push_bit b 1 = u OR push_bit b 1"
      by (rule disjunctive_add) (auto simp: u_def bit_simps)
    also have "\<dots> = w" by (rule bit_eqI) (use B(1,2) in \<open>auto simp: u_def bit_simps\<close>)
    finally show ?thesis by simp
  qed
  have "w - 1 = u + mask b" unfolding w by (simp add: mask_eq_decr_exp push_bit_eq_mult)
  also have "\<dots> = u OR mask b" by (rule disjunctive_add) (use B(3) in \<open>auto simp: u_def bit_simps\<close>)
  finally have w1: "w - 1 = u OR mask b" .
  show ?thesis
    unfolding w1 using B by (auto simp: u_def b_def [symmetric] bit_simps)
qed

lemma upt_split_64: "b < 64 \<Longrightarrow> [0..<64] = [0..<b] @ b # [Suc b..<64]"
  by (metis le_add1 add_0 less_imp_le_nat upt_add_eq_append upt_conv_Cons le_add_diff_inverse)

lemma filter_lowest:
  assumes "w \<noteq> 0"
  shows "filter (bit w) [0..<64] = ctz64 w # filter (bit (w AND (w - 1))) [0..<64]"
proof -
  note B = ctz64_bit [OF assms]
  have "filter (bit w) [0..<ctz64 w] = []" "filter (bit (w AND (w - 1))) [0..<ctz64 w] = []"
    using B(3) by (auto simp: filter_empty_conv clear_lowest [OF assms])
  moreover have "filter (bit (w AND (w - 1))) [Suc (ctz64 w)..<64] = filter (bit w) [Suc (ctz64 w)..<64]"
    by (rule filter_cong) (auto simp: clear_lowest [OF assms])
  ultimately show ?thesis
    by (subst (1 2) upt_split_64 [OF B(2)]) (simp add: B(1) clear_lowest [OF assms])
qed

function bfsBits :: "nat \<Rightarrow> nat \<Rightarrow> u64 \<Rightarrow> LockdepGraph \<Rightarrow> nat \<Rightarrow> LockdepGraph \<times> nat" where
  "bfsBits w cur bits g tail =
     (if bits \<noteq> 0 then
        let b = ctz64 bits; nx = w * 64 + b + 1
        in bfsBits w cur (bits AND (bits - 1))
             (g\<lparr>bfsSeen := (bfsSeen g)(w := bfsSeen g w OR push_bit b 1), bfsParent := (bfsParent g)(nx - 1 := cur),
               bfsQueue := (bfsQueue g)(tail := nx)\<rparr>) (tail + 1)
      else (g, tail))"
  by pat_completeness auto
termination
  by (relation "measure (\<lambda>(w, cur, bits, g, tail). length (filter (bit bits) [0..<64]))")
    (auto simp: filter_lowest simp del: upt_rec_numeral)

declare bfsBits.simps [simp del]

definition bfsScan :: "nat \<Rightarrow> LockdepGraph \<Rightarrow> nat \<Rightarrow> LockdepGraph \<times> nat" where
  "bfsScan cur g tail = fold (\<lambda>w (g, tail). bfsBits w cur (adj g (cur - 1) w AND NOT (bfsSeen g w)) g tail)
     [0..<LOCKDEP_MAX_CLASSES div 64] (g, tail)"

text \<open>What one scan does: it queues, in increasing order, the unseen successors of the node.\<close>

definition seenBit :: "LockdepGraph \<Rightarrow> nat \<Rightarrow> bool" where
  "seenBit g n \<longleftrightarrow> bit (bfsSeen g ((n - 1) div 64)) ((n - 1) mod 64)"

definition pushNodes :: "nat list \<Rightarrow> nat \<Rightarrow> (nat \<Rightarrow> u64) \<Rightarrow> LockdepGraph \<Rightarrow> nat \<Rightarrow> LockdepGraph" where
  "pushNodes ns cur sn g tail = g\<lparr>bfsSeen := sn, bfsParent := (\<lambda>i. if Suc i \<in> set ns then cur else bfsParent g i),
     bfsQueue := (\<lambda>i. if tail \<le> i \<and> i < tail + length ns then ns ! (i - tail) else bfsQueue g i)\<rparr>"

lemma pushNodes_Nil [simp]: "pushNodes [] cur (bfsSeen g) g tail = g"
proof -
  have "(\<lambda>i. if tail \<le> i \<and> i < tail then [] ! (i - tail) else bfsQueue g i) = bfsQueue g" by auto
  then show ?thesis by (simp add: pushNodes_def)
qed

lemma pushNodes_append:
  "pushNodes ms cur sn' (pushNodes ns cur sn g tail) (tail + length ns) = pushNodes (ns @ ms) cur sn' g tail"
  by (rule LockdepGraph.equality) (auto simp: pushNodes_def fun_eq_iff nth_append)

lemma bfsBits_eq:
  "bfsBits w cur bits g tail =
     (let ns = map (\<lambda>b. w * 64 + b + 1) (filter (bit bits) [0..<64])
      in (pushNodes ns cur ((bfsSeen g)(w := bfsSeen g w OR bits)) g tail, tail + length ns))"
proof (induction w cur bits g tail rule: bfsBits.induct)
  case (1 w cur bits g tail)
  show ?case
  proof (cases "bits = 0")
    case True
    then show ?thesis by (subst bfsBits.simps) (simp del: upt_rec_numeral)
  next
    case False
    define b where "b = ctz64 bits"
    define g1 where "g1 = pushNodes [w * 64 + b + 1] cur ((bfsSeen g)(w := bfsSeen g w OR push_bit b 1)) g tail"
    have g1: "g1 = g\<lparr>bfsSeen := (bfsSeen g)(w := bfsSeen g w OR push_bit b 1), bfsParent := (bfsParent g)(w * 64 + b + 1 - 1 := cur),
               bfsQueue := (bfsQueue g)(tail := w * 64 + b + 1)\<rparr>"
      by (auto simp: g1_def pushNodes_def fun_eq_iff)
    have or: "bits = push_bit b 1 OR c" if "c = bits AND (bits - 1)" for c
      using clear_lowest [OF False] ctz64_bit [OF False] unfolding that [symmetric] b_def
      by (intro bit_eqI) (auto simp: bit_simps)
    have sn: "(bfsSeen g1)(w := bfsSeen g1 w OR (bits AND (bits - 1))) = (bfsSeen g)(w := bfsSeen g w OR bits)"
      by (subst (3) or [OF refl]) (simp add: g1_def pushNodes_def or.assoc)
    have "bfsBits w cur bits g tail = bfsBits w cur (bits AND (bits - 1)) g1 (tail + 1)"
      using False by (subst bfsBits.simps) (simp add: Let_def g1 b_def)
    also have "\<dots> = (let ns = map (\<lambda>b. w * 64 + b + 1) (filter (bit (bits AND (bits - 1))) [0..<64])
      in (pushNodes ns cur ((bfsSeen g)(w := bfsSeen g w OR bits)) g1 (tail + 1), tail + 1 + length ns))"
      using 1 [OF False b_def refl] unfolding g1 [symmetric] sn [symmetric] by (simp add: fun_upd_def)
    finally show ?thesis
      using pushNodes_append [where ns = "[w * 64 + b + 1]" and tail = tail]
      by (simp add: filter_lowest [OF False] b_def [symmetric] g1_def Let_def fun_upd_def del: upt_rec_numeral)
  qed
qed

lemma adjTest_bit: "adjTest g a n \<longleftrightarrow> bit (adj g (a - 1) ((n - 1) div 64)) ((n - 1) mod 64)"
  by (auto simp: adjTest_def bit_iff_odd and_one_eq odd_iff_mod_2_eq_one drop_bit_eq_div)

lemma upt_64_step: "[1..<64 * Suc k + 1] = [1..<64 * k + 1] @ map (\<lambda>b. k * 64 + b + 1) [0..<64]"
proof -
  have "map (\<lambda>b. k * 64 + b + 1) [0..<64] = [64 * k + 1..<64 * Suc k + 1]"
    by (rule nth_equalityI) (simp_all del: upt_rec_numeral upt_Suc)
  then show ?thesis
    using upt_add_eq_append [of 1 "64 * k + 1" 64] by (simp add: add_ac del: upt_rec_numeral upt_Suc)
qed

lemma bfsScan_words:
  "k \<le> 4 \<Longrightarrow> fold (\<lambda>w (g, tail). bfsBits w cur (adj g (cur - 1) w AND NOT (bfsSeen g w)) g tail) [0..<k] (g, tail) =
     (let ns = filter (\<lambda>n. adjTest g cur n \<and> \<not> seenBit g n) [1..<64 * k + 1]
      in (pushNodes ns cur (\<lambda>w. if w < k then bfsSeen g w OR adj g (cur - 1) w else bfsSeen g w) g tail, tail + length ns))"
proof (induction k)
  case 0
  then show ?case by simp
next
  case (Suc k)
  define ns where "ns = filter (\<lambda>n. adjTest g cur n \<and> \<not> seenBit g n) [1..<64 * k + 1]"
  define sn where "sn k = (\<lambda>w. if w < k then bfsSeen g w OR adj g (cur - 1) w else bfsSeen g w)" for k
  define g1 where "g1 = pushNodes ns cur (sn k) g tail"
  define ms where "ms = map (\<lambda>b. k * 64 + b + 1) (filter (bit (adj g (cur - 1) k AND NOT (bfsSeen g k))) [0..<64])"
  have f: "adj g1 = adj g" "bfsSeen g1 k = bfsSeen g k" "bfsSeen g1 = sn k" by (simp_all add: g1_def pushNodes_def sn_def)
  have "ms = filter (\<lambda>n. adjTest g cur n \<and> \<not> seenBit g n) (map (\<lambda>b. k * 64 + b + 1) [0..<64])"
    unfolding ms_def filter_map by (rule arg_cong [where f = "map _"], rule filter_cong)
      (auto simp: adjTest_bit seenBit_def bit_simps)
  then have nm: "filter (\<lambda>n. adjTest g cur n \<and> \<not> seenBit g n) [1..<64 * Suc k + 1] = ns @ ms"
    unfolding upt_64_step ns_def by simp
  have sk: "(sn k)(k := bfsSeen g k OR (adj g (cur - 1) k AND NOT (bfsSeen g k))) = sn (Suc k)"
    by (auto simp: sn_def fun_eq_iff less_Suc_eq intro!: bit_eqI simp: bit_simps)
  have IH: "fold (\<lambda>w (g, tail). bfsBits w cur (adj g (cur - 1) w AND NOT (bfsSeen g w)) g tail) [0..<k] (g, tail) = (g1, tail + length ns)"
    using Suc unfolding Let_def ns_def [symmetric] sn_def [symmetric] g1_def [symmetric] by simp
  have "fold (\<lambda>w (g, tail). bfsBits w cur (adj g (cur - 1) w AND NOT (bfsSeen g w)) g tail) [0..<Suc k] (g, tail)
      = bfsBits k cur (adj g (cur - 1) k AND NOT (bfsSeen g k)) g1 (tail + length ns)"
    using IH by (simp add: f(1,2))
  also have "\<dots> = (pushNodes ms cur (sn (Suc k)) g1 (tail + length ns), tail + length ns + length ms)"
    unfolding bfsBits_eq Let_def ms_def [symmetric] f(3) using sk by (simp add: sn_def)
  finally show ?case
    unfolding nm g1_def pushNodes_append by (simp add: Let_def sn_def add.assoc)
qed

lemma bfsScan_eq:
  "bfsScan cur g tail =
     (let ns = filter (\<lambda>n. adjTest g cur n \<and> \<not> seenBit g n) [1..<257]
      in (pushNodes ns cur (\<lambda>w. if w < 4 then bfsSeen g w OR adj g (cur - 1) w else bfsSeen g w) g tail, tail + length ns))"
  unfolding bfsScan_def using bfsScan_words [of 4] by (simp del: upt_rec_numeral)

text \<open>The number of unseen nodes bounds the search.\<close>

definition unseen :: "LockdepGraph \<Rightarrow> nat set" where
  "unseen g = {n \<in> {1..<257}. \<not> seenBit g n}"

lemma bfsScan_unseen:
  assumes "bfsScan cur g tail = (g', tail')"
  shows "card (unseen g') + (tail' - tail) = card (unseen g)" and "tail \<le> tail'"
proof -
  define ns where "ns = filter (\<lambda>n. adjTest g cur n \<and> \<not> seenBit g n) [1..<257]"
  have g': "tail' = tail + length ns" "bfsSeen g' = (\<lambda>w. if w < 4 then bfsSeen g w OR adj g (cur - 1) w else bfsSeen g w)"
    using assms by (auto simp: bfsScan_eq Let_def ns_def pushNodes_def simp del: upt_rec_numeral)
  then show "tail \<le> tail'" by simp
  have "unseen g' = unseen g - set ns" "set ns \<subseteq> unseen g"
    by (auto simp: unseen_def seenBit_def g'(2) bit_simps adjTest_bit ns_def)
  moreover have "distinct ns" by (simp add: ns_def)
  ultimately show "card (unseen g') + (tail' - tail) = card (unseen g)"
    using g'(1) distinct_card [of ns] card_Diff_subset [of "set ns" "unseen g"] card_mono [of "unseen g" "set ns"]
    by (simp add: unseen_def)
qed

function bfsLoop :: "nat \<Rightarrow> LockdepGraph \<Rightarrow> nat \<Rightarrow> nat \<Rightarrow> LockdepGraph \<times> bool" where
  "bfsLoop dst g head tail =
     (if head < tail then
        let cur = bfsQueue g head
        in if cur = dst then (g, True)
           else let (g', tail') = bfsScan cur g tail in bfsLoop dst g' (head + 1) tail'
      else (g, False))"
  by pat_completeness auto
termination
proof (relation "measure (\<lambda>(dst, g, head, tail). card (unseen g) + tail - head)", goal_cases)
  case (2 dst g head tail cur x g' tail')
  then show ?case using bfsScan_unseen [of cur g tail g' tail'] by simp
qed simp

declare bfsLoop.simps [simp del]

definition bfsFind :: "LockdepGraph \<Rightarrow> nat \<Rightarrow> nat \<Rightarrow> LockdepGraph \<times> bool" where
  "bfsFind g src dst =
     (let sn = fold (\<lambda>i s. s(i := 0)) [0..<LOCKDEP_MAX_CLASSES div 64] (bfsSeen g);
          g1 = g\<lparr>bfsSeen := sn((src - 1) div 64 := sn ((src - 1) div 64) OR push_bit ((src - 1) mod 64) 1),
                bfsQueue := (bfsQueue g)(0 := src), bfsParent := (bfsParent g)(src - 1 := 0)\<rparr>
      in bfsLoop dst g1 0 1)"

definition lockdepCoreDependsOn :: "LockdepGraph \<Rightarrow> nat \<Rightarrow> nat \<Rightarrow> LockdepGraph \<times> bool" where
  "lockdepCoreDependsOn g fr to =
     (if fr = 0 \<or> to = 0 \<or> fr > classCount g \<or> to > classCount g \<or> fr = to then (g, False) else bfsFind g fr to)"

section \<open>Checks and updates\<close>

primrec segmentFrom :: "LockdepHeldStack \<Rightarrow> u8 \<Rightarrow> nat \<Rightarrow> nat" where
  "segmentFrom hs ctx 0 = 0"
| "segmentFrom hs ctx (Suc b) = (if h_irqCtx (held hs ! b) = ctx then segmentFrom hs ctx b else Suc b)"

definition segmentBase :: "LockdepHeldStack \<Rightarrow> u8 \<Rightarrow> nat" where
  "segmentBase hs ctx = segmentFrom hs ctx (depth hs)"

partial_function (option) pathLoop :: "LockdepGraph \<Rightarrow> nat \<Rightarrow> nat \<Rightarrow> nat list \<Rightarrow> nat \<Rightarrow> (nat list \<times> nat) option" where
  "pathLoop g src x rv cnt =
     (if x = 0 then Some (rv, cnt)
      else let rv' = (if length rv < LOCKDEP_MAX_PATH + 1 then rv @ [x] else rv)
        in if x = src then Some (rv', cnt + 1) else pathLoop g src (bfsParent g (x - 1)) rv' (cnt + 1))"

definition buildPath :: "LockdepGraph \<Rightarrow> nat \<Rightarrow> nat \<Rightarrow> LockdepFinding \<Rightarrow> LockdepFinding option" where
  "buildPath g src dst f =
     (case pathLoop g src dst [] 0 of
        None \<Rightarrow> None
      | Some (rv, cnt) \<Rightarrow> Some (f\<lparr>pathTruncated := cnt > length rv, pathLen := length rv - 1,
          pathClass := rev rv @ drop (length rv) (pathClass f)\<rparr>))"

definition findingInit :: "LockdepVerdict \<Rightarrow> nat \<Rightarrow> LockdepFinding" where
  "findingInit k c = \<lparr>f_kind = k, newClass = c, heldClass = 0, heldIndex = 0, usageNew = 0, usageOld = 0,
     sameInstance = False, pathLen = 0, pathTruncated = False, pathClass = replicate (LOCKDEP_MAX_PATH + 1) 0\<rparr>"

definition usageSeen :: "LockdepClass \<Rightarrow> nat \<Rightarrow> bool" where
  "usageSeen c u \<longleftrightarrow> usageMask c AND push_bit u 1 \<noteq> 0"

text \<open>The inversion loop over the held locks of the segment, from index \<open>i\<close>.\<close>

function checkOrder :: "LockdepGraph \<Rightarrow> LockdepHeldStack \<Rightarrow> nat \<Rightarrow> nat \<Rightarrow> (LockdepGraph \<times> LockdepFinding option) option" where
  "checkOrder g hs cid i =
     (if i < depth hs then
        let h = h_classId (held hs ! i)
        in if h = cid \<or> adjTest g h cid then checkOrder g hs cid (i + 1)
           else case bfsFind g cid h of
               (g', True) \<Rightarrow> (case buildPath g' cid h ((findingInit LOCKDEP_REPORT_INVERSION cid)\<lparr>heldClass := h, heldIndex := i\<rparr>) of
                   None \<Rightarrow> None | Some f \<Rightarrow> Some (g', Some f))
             | (g', False) \<Rightarrow> checkOrder g' hs cid (i + 1)
      else Some (g, None))"
  by pat_completeness auto
termination by (relation "measure (\<lambda>(g, hs, cid, i). depth hs - i)") auto

declare checkOrder.simps [simp del]

definition lockdepCoreCheckAcquire ::
  "LockdepGraph \<Rightarrow> LockdepHeldStack \<Rightarrow> u64 \<Rightarrow> nat \<Rightarrow> u8 \<Rightarrow> bool \<Rightarrow> bool \<Rightarrow> (LockdepGraph \<times> LockdepFinding option) option" where
  "lockdepCoreCheckAcquire g hs inst cid ctx irqsOn trylock =
     (if depth hs \<ge> LOCKDEP_MAX_HELD then Some (g, Some (findingInit LOCKDEP_REPORT_HELD_OVERFLOW cid))
      else case find (\<lambda>i. h_instance (held hs ! i) = inst) [0..<depth hs] of
          Some i \<Rightarrow> Some (g, Some ((findingInit LOCKDEP_REPORT_RECURSION cid)\<lparr>heldClass := cid, heldIndex := i, sameInstance := True\<rparr>))
        | None \<Rightarrow>
            (let base = segmentBase hs ctx
             in case (if trylock then None else find (\<lambda>i. h_classId (held hs ! i) = cid) [base..<depth hs]) of
                 Some i \<Rightarrow> Some (g, Some ((findingInit LOCKDEP_REPORT_RECURSION cid)\<lparr>heldClass := cid, heldIndex := i\<rparr>))
               | None \<Rightarrow>
                   (let cls = classes g (cid - 1)
                    in if ctx \<noteq> 0 \<and> usageSeen cls LOCKDEP_USAGE_IRQS_ON then
                         Some (g, Some ((findingInit LOCKDEP_REPORT_IRQ_INCONSISTENT cid)
                           \<lparr>usageNew := LOCKDEP_USAGE_IN_HARDIRQ, usageOld := LOCKDEP_USAGE_IRQS_ON\<rparr>))
                       else if ctx = 0 \<and> irqsOn \<and> usageSeen cls LOCKDEP_USAGE_IN_HARDIRQ then
                         Some (g, Some ((findingInit LOCKDEP_REPORT_IRQ_INCONSISTENT cid)
                           \<lparr>usageNew := LOCKDEP_USAGE_IRQS_ON, usageOld := LOCKDEP_USAGE_IN_HARDIRQ\<rparr>))
                       else if trylock then Some (g, None) else checkOrder g hs cid base)))"

definition runCapture :: "capture \<Rightarrow> LockdepTrace \<Rightarrow> LockdepTrace" where
  "runCapture cap t = (case cap of None \<Rightarrow> t | Some f \<Rightarrow> f t)"

definition markUsage :: "capture \<Rightarrow> nat \<Rightarrow> LockdepClass \<Rightarrow> LockdepClass" where
  "markUsage cap u c =
     (if usageSeen c u then c
      else c\<lparr>usageMask := usageMask c OR push_bit u 1, usageTrace := (usageTrace c)(u := runCapture cap (usageTrace c u))\<rparr>)"

definition setClass :: "nat \<Rightarrow> (LockdepClass \<Rightarrow> LockdepClass) \<Rightarrow> LockdepGraph \<Rightarrow> LockdepGraph" where
  "setClass cid f g = g\<lparr>classes := (classes g)(cid - 1 := f (classes g (cid - 1)))\<rparr>"

definition addEdge :: "capture \<Rightarrow> nat \<Rightarrow> nat \<Rightarrow> LockdepGraph \<Rightarrow> LockdepGraph" where
  "addEdge cap h cid g =
     (let e = \<lparr>e_from = h, e_to = cid, e_trace = runCapture cap ((e_trace (edges g (edgeCount g)))\<lparr>tr_count := 0\<rparr>)\<rparr>
      in adjSet (g\<lparr>edges := (edges g)(edgeCount g := e), edgeCount := edgeCount g + 1\<rparr>) h cid)"

definition commitEdges :: "capture \<Rightarrow> LockdepHeldStack \<Rightarrow> nat \<Rightarrow> nat \<Rightarrow> LockdepGraph \<Rightarrow> LockdepGraph \<times> LockdepVerdict" where
  "commitEdges cap hs cid base g = fold (\<lambda>i (g, r).
     let h = h_classId (held hs ! i)
     in if h = cid \<or> adjTest g h cid then (g, r)
        else if edgeCount g = LOCKDEP_MAX_EDGES then (g, LOCKDEP_FULL)
        else (addEdge cap h cid g, r)) [base..<depth hs] (g, LOCKDEP_OK)"

definition lockdepCoreCommitAcquire ::
  "capture \<Rightarrow> LockdepGraph \<Rightarrow> LockdepHeldStack \<Rightarrow> u64 \<Rightarrow> nat \<Rightarrow> u8 \<Rightarrow> bool \<Rightarrow> bool \<Rightarrow> bool \<Rightarrow> u64
    \<Rightarrow> LockdepGraph \<times> LockdepHeldStack \<times> LockdepVerdict" where
  "lockdepCoreCommitAcquire cap g hs inst cid ctx irqsOn trylock addEdges ip =
     (let g1 = (if ctx \<noteq> 0 then setClass cid (markUsage cap LOCKDEP_USAGE_IN_HARDIRQ) g
                else if irqsOn then setClass cid (markUsage cap LOCKDEP_USAGE_IRQS_ON) g else g);
          (g2, r) = (if \<not> trylock \<and> addEdges then commitEdges cap hs cid (segmentBase hs ctx) g1 else (g1, LOCKDEP_OK));
          hs' = (if depth hs < LOCKDEP_MAX_HELD then
                   hs\<lparr>held := (held hs)[depth hs := \<lparr>h_instance = inst, h_classId = cid, h_irqCtx = ctx,
                        h_trylock = trylock, h_irqsOn = irqsOn, h_ip = ip\<rparr>], depth := depth hs + 1\<rparr>
                 else hs)
      in (g2, hs', r))"

primrec heldFrom :: "LockdepHeldStack \<Rightarrow> u64 \<Rightarrow> nat \<Rightarrow> nat option" where
  "heldFrom hs inst 0 = None"
| "heldFrom hs inst (Suc i) = (if h_instance (held hs ! i) = inst then Some i else heldFrom hs inst i)"

definition heldFind :: "LockdepHeldStack \<Rightarrow> u64 \<Rightarrow> nat option" where
  "heldFind hs inst = heldFrom hs inst (depth hs)"

definition lockdepCoreCheckRelease :: "LockdepGraph \<Rightarrow> LockdepHeldStack \<Rightarrow> u64 \<Rightarrow> bool \<Rightarrow> LockdepFinding option" where
  "lockdepCoreCheckRelease g hs inst irqsOn =
     (case heldFind hs inst of
        None \<Rightarrow> Some (findingInit LOCKDEP_REPORT_NOT_HELD 0)
      | Some idx \<Rightarrow>
          (let h = held hs ! idx
           in if h_irqCtx h = 0 \<and> \<not> h_irqsOn h \<and> irqsOn \<and> usageSeen (classes g (h_classId h - 1)) LOCKDEP_USAGE_IN_HARDIRQ
              then Some ((findingInit LOCKDEP_REPORT_IRQ_INCONSISTENT (h_classId h))\<lparr>heldIndex := idx,
                     usageNew := LOCKDEP_USAGE_IRQS_ON, usageOld := LOCKDEP_USAGE_IN_HARDIRQ\<rparr>)
              else None))"

definition lockdepCoreCommitRelease ::
  "capture \<Rightarrow> LockdepGraph \<Rightarrow> LockdepHeldStack \<Rightarrow> u64 \<Rightarrow> bool \<Rightarrow> LockdepGraph \<times> LockdepHeldStack" where
  "lockdepCoreCommitRelease cap g hs inst irqsOn =
     (case heldFind hs inst of
        None \<Rightarrow> (g, hs)
      | Some idx \<Rightarrow>
          (let h = held hs ! idx;
               g' = (if h_irqCtx h = 0 \<and> irqsOn then setClass (h_classId h) (markUsage cap LOCKDEP_USAGE_IRQS_ON) g else g)
           in (g', hs\<lparr>held := arr_close (held hs) idx (depth hs), depth := depth hs - 1\<rparr>)))"

section \<open>Correctness of the search\<close>

definition lockEdges :: "LockdepGraph \<Rightarrow> (nat \<times> nat) set" where
  "lockEdges g = {(a, b). a \<in> {1..<257} \<and> b \<in> {1..<257} \<and> adjTest g a b}"

text \<open>The search changes its scratch fields only.\<close>

definition sameGraph :: "LockdepGraph \<Rightarrow> LockdepGraph \<Rightarrow> bool" where
  "sameGraph g h \<longleftrightarrow> classCount h = classCount g \<and> edgeCount h = edgeCount g \<and> classes h = classes g
     \<and> adj h = adj g \<and> edges h = edges g"

text \<open>The state of the search: \<open>Q\<close> lists the nodes queued so far.\<close>

definition bfsInv :: "LockdepGraph \<Rightarrow> nat \<Rightarrow> LockdepGraph \<Rightarrow> nat \<Rightarrow> nat list \<Rightarrow> bool" where
  "bfsInv g0 src g hp Q \<longleftrightarrow> sameGraph g0 g
     \<and> Q \<noteq> [] \<and> Q ! 0 = src \<and> distinct Q \<and> hp \<le> length Q \<and> (\<forall>i < length Q. bfsQueue g i = Q ! i)
     \<and> set Q = {n \<in> {1..<257}. seenBit g n}
     \<and> (\<forall>i < hp. \<forall>n. (Q ! i, n) \<in> lockEdges g0 \<longrightarrow> n \<in> set Q)
     \<and> bfsParent g (src - 1) = 0
     \<and> (\<forall>i < length Q. 0 < i \<longrightarrow> (\<exists>j < i. bfsParent g (Q ! i - 1) = Q ! j \<and> (Q ! j, Q ! i) \<in> lockEdges g0))"

lemma bfsInv_reach:
  assumes "bfsInv g0 src g hp Q" "i < length Q"
  shows "(src, Q ! i) \<in> (lockEdges g0)\<^sup>*"
  using assms(2)
proof (induction i rule: less_induct)
  case (less i)
  show ?case
  proof (cases "i = 0")
    case True
    then show ?thesis using assms(1) by (simp add: bfsInv_def)
  next
    case False
    then obtain j where "j < i" "(Q ! j, Q ! i) \<in> lockEdges g0" using assms(1) less.prems unfolding bfsInv_def by blast
    then show ?thesis using less.IH [of j] less.prems by (meson dual_order.strict_trans rtrancl.rtrancl_into_rtrancl)
  qed
qed

lemma bfsInv_closed:
  assumes "bfsInv g0 src g (length Q) Q" "(src, x) \<in> (lockEdges g0)\<^sup>*"
  shows "x \<in> set Q"
  using assms(2)
proof (induction rule: rtrancl_induct)
  case base
  then show ?case using assms(1) by (metis bfsInv_def length_greater_0_conv nth_mem)
next
  case (step y z)
  then show ?case using assms(1) unfolding bfsInv_def by (metis in_set_conv_nth)
qed

lemma lockEdges_cong: "adj g = adj h \<Longrightarrow> lockEdges g = lockEdges h"
  by (simp add: lockEdges_def adjTest_def)

lemma bfsInv_step:
  assumes I: "bfsInv g0 src g hp Q" and hp: "hp < length Q" and sc: "bfsScan (Q ! hp) g (length Q) = (g', tail')"
  shows "\<exists>ns. tail' = length (Q @ ns) \<and> bfsInv g0 src g' (hp + 1) (Q @ ns)"
proof -
  let ?cur = "Q ! hp"
  define ns where "ns = filter (\<lambda>n. adjTest g ?cur n \<and> \<not> seenBit g n) [1..<257]"
  have eqs: "tail' = length (Q @ ns)" "g' = pushNodes ns ?cur (\<lambda>w. if w < 4 then bfsSeen g w OR adj g (?cur - 1) w else bfsSeen g w) g (length Q)"
    using sc by (auto simp: bfsScan_eq Let_def ns_def simp del: upt_rec_numeral)
  have g: "sameGraph g0 g" "Q \<noteq> []" "Q ! 0 = src" "distinct Q"
    "\<And>i. i < length Q \<Longrightarrow> bfsQueue g i = Q ! i" and sQ: "set Q = {n \<in> {1..<257}. seenBit g n}"
    and cl: "\<And>i n. i < hp \<Longrightarrow> (Q ! i, n) \<in> lockEdges g0 \<Longrightarrow> n \<in> set Q" and p0: "bfsParent g (src - 1) = 0"
    and pr: "\<And>i. i < length Q \<Longrightarrow> 0 < i \<Longrightarrow> \<exists>j < i. bfsParent g (Q ! i - 1) = Q ! j \<and> (Q ! j, Q ! i) \<in> lockEdges g0"
    using I unfolding bfsInv_def by blast+
  have aeq: "adj g = adj g0" using g(1) by (simp add: sameGraph_def)
  then have at: "adjTest g a n = adjTest g0 a n" for a n by (simp add: adjTest_def)
  have cur: "?cur \<in> {1..<257}" using hp sQ nth_mem by blast
  have nsn: "n \<in> set ns \<longleftrightarrow> n \<in> {1..<257} \<and> (?cur, n) \<in> lockEdges g0 \<and> n \<notin> set Q" for n
    using cur sQ by (auto simp: ns_def lockEdges_def at)
  have seen: "seenBit g' n \<longleftrightarrow> seenBit g n \<or> adjTest g ?cur n" if "n \<in> {1..<257}" for n
    using that by (auto simp: eqs(2) pushNodes_def seenBit_def adjTest_bit bit_simps)
  have srcQ: "src \<in> set Q" using g(2,3) nth_mem [of 0 Q] by auto
  have "bfsInv g0 src g' (hp + 1) (Q @ ns)"
    unfolding bfsInv_def
  proof (intro conjI allI impI)
    show "sameGraph g0 g'" using g(1) by (simp add: eqs(2) pushNodes_def sameGraph_def)
    show "Q @ ns \<noteq> []" "(Q @ ns) ! 0 = src" using g(2,3) by (simp_all add: nth_append)
    show "distinct (Q @ ns)" using g(4) nsn by (auto simp: ns_def)
    show "hp + 1 \<le> length (Q @ ns)" using hp by simp
    show "bfsQueue g' i = (Q @ ns) ! i" if "i < length (Q @ ns)" for i
      using that g(5) by (auto simp: eqs(2) pushNodes_def nth_append)
    show "set (Q @ ns) = {n \<in> {1..<257}. seenBit g' n}"
      using nsn sQ seen cur by (auto simp: lockEdges_def at)
    show "n \<in> set (Q @ ns)" if "i < hp + 1" "((Q @ ns) ! i, n) \<in> lockEdges g0" for i n
    proof (cases "i < hp")
      case True
      then show ?thesis using that(2) cl [of i n] hp by (simp add: nth_append)
    next
      case False
      then have "i = hp" using that(1) by simp
      then show ?thesis using that(2) hp nsn [of n] by (auto simp: nth_append lockEdges_def)
    qed
    have "Suc (src - 1) \<notin> set ns" using srcQ sQ nsn by auto
    then show "bfsParent g' (src - 1) = 0" using p0 by (simp add: eqs(2) pushNodes_def)
    show "\<exists>j < i. bfsParent g' ((Q @ ns) ! i - 1) = (Q @ ns) ! j \<and> ((Q @ ns) ! j, (Q @ ns) ! i) \<in> lockEdges g0"
      if il: "i < length (Q @ ns)" and i0: "0 < i" for i
    proof (cases "i < length Q")
      case True
      then obtain j where j: "j < i" "bfsParent g (Q ! i - 1) = Q ! j" "(Q ! j, Q ! i) \<in> lockEdges g0" using pr i0 by blast
      have "Q ! i \<in> set Q" "Q ! i \<in> {1..<257}" using True sQ nth_mem by blast+
      then have "Suc (Q ! i - 1) \<notin> set ns" using nsn by auto
      then show ?thesis using j True by (intro exI [of _ j]) (simp add: eqs(2) pushNodes_def nth_append)
    next
      case False
      then have "ns ! (i - length Q) \<in> set ns" using il by (intro nth_mem) auto
      then have "(?cur, ns ! (i - length Q)) \<in> lockEdges g0" "Suc (ns ! (i - length Q) - 1) \<in> set ns" using nsn by auto
      then show ?thesis using False hp by (intro exI [of _ hp]) (simp add: eqs(2) pushNodes_def nth_append)
    qed
  qed
  then show ?thesis using eqs(1) by blast
qed

lemma bfsLoop_correct:
  assumes "bfsInv g0 src g hp Q" "dst \<notin> set (take hp Q)" "tail = length Q" "bfsLoop dst g hp tail = (g', b)"
  shows "(b \<longleftrightarrow> (src, dst) \<in> (lockEdges g0)\<^sup>*) \<and> (\<exists>Q' hp'. bfsInv g0 src g' hp' Q' \<and> (b \<longrightarrow> dst \<in> set Q'))"
  using assms
proof (induction dst g hp tail arbitrary: Q rule: bfsLoop.induct)
  case (1 dst g hp tail)
  note I = 1(2)
  show ?case
  proof (cases "hp < tail")
    case False
    then have "hp = length Q" using 1(4) I by (auto simp: bfsInv_def)
    moreover have "b = False" "g' = g" using 1(5) False by (auto simp: bfsLoop.simps)
    ultimately show ?thesis using bfsInv_closed [of g0 src g Q dst] I 1(3) by auto
  next
    case True
    then have hp: "hp < length Q" and q: "bfsQueue g hp = Q ! hp" using I 1(4) by (auto simp: bfsInv_def)
    show ?thesis
    proof (cases "Q ! hp = dst")
      case True
      then have "b = True" "g' = g" using 1(5) \<open>hp < tail\<close> q by (auto simp: bfsLoop.simps)
      then show ?thesis using bfsInv_reach [OF I hp] True hp I nth_mem by blast
    next
      case False
      obtain g1 t1 where sc: "bfsScan (Q ! hp) g (length Q) = (g1, t1)" by fastforce
      then obtain ns where Q1: "t1 = length (Q @ ns)" "bfsInv g0 src g1 (hp + 1) (Q @ ns)" using bfsInv_step [OF I hp] by blast
      have r: "bfsLoop dst g1 (hp + 1) t1 = (g', b)"
        using 1(5) \<open>hp < tail\<close> False q sc 1(4) by (subst (asm) bfsLoop.simps) simp
      have "dst \<notin> set (take (hp + 1) (Q @ ns))" using 1(3) False hp by (simp add: take_Suc_conv_app_nth)
      then show ?thesis using 1(1) [OF \<open>hp < tail\<close> q [symmetric] False _ _ Q1(2) _ Q1(1) r] sc 1(4) by auto
    qed
  qed
qed

lemma fold_clear: "fold (\<lambda>i s. s(i := 0)) [0..<k] s = (\<lambda>w. if w < k then 0 else s w)"
  by (induction k) (auto simp: fun_eq_iff)

lemma bfsFind_correct:
  assumes src: "src \<in> {1..<257}" and r: "bfsFind g src dst = (g', b)"
  shows "b \<longleftrightarrow> (src, dst) \<in> (lockEdges g)\<^sup>*" and "sameGraph g g'"
    and "b \<Longrightarrow> \<exists>Q hp. bfsInv g src g' hp Q \<and> dst \<in> set Q"
proof -
  define g1 where "g1 = g\<lparr>bfsSeen := (\<lambda>w. if w < 4 then 0 else bfsSeen g w)((src - 1) div 64 := 0 OR push_bit ((src - 1) mod 64) 1),
                bfsQueue := (bfsQueue g)(0 := src), bfsParent := (bfsParent g)(src - 1 := 0)\<rparr>"
  have lt: "(src - 1) div 64 < 4" using src by auto
  have r1: "bfsLoop dst g1 0 1 = (g', b)"
    using r lt by (simp add: bfsFind_def fold_clear Let_def g1_def del: upt_rec_numeral)
  have sb: "seenBit g1 n \<longleftrightarrow> n = src" if "n \<in> {1..<257}" for n
  proof -
    have "(n - 1) div 64 < 4" using that by auto
    moreover have "n = src" if "(n - 1) div 64 = (src - 1) div 64" "(n - 1) mod 64 = (src - 1) mod 64"
      using that src \<open>n \<in> {1..<257}\<close> by (metis Suc_diff_1 atLeastLessThan_iff div_mult_mod_eq less_le_trans zero_less_one)
    ultimately show ?thesis by (auto simp: seenBit_def g1_def bit_simps)
  qed
  have inv: "bfsInv g src g1 0 [src]"
    unfolding bfsInv_def using src sb by (auto simp: sameGraph_def g1_def)
  have "dst \<notin> set (take 0 [src])" "1 = length [src]" by simp_all
  note R = bfsLoop_correct [OF inv this r1]
  show "b \<longleftrightarrow> (src, dst) \<in> (lockEdges g)\<^sup>*" "b \<Longrightarrow> \<exists>Q hp. bfsInv g src g' hp Q \<and> dst \<in> set Q" using R by blast+
  show "sameGraph g g'" using R by (auto simp: bfsInv_def)
qed

text \<open>The chain a report shows: each class has an edge to the next.\<close>

fun chain :: "(nat \<times> nat) set \<Rightarrow> nat list \<Rightarrow> bool" where
  "chain E (a # b # xs) \<longleftrightarrow> (a, b) \<in> E \<and> chain E (b # xs)"
| "chain E xs \<longleftrightarrow> True"

lemma chain_append: "chain E (xs @ [a]) \<Longrightarrow> (a, b) \<in> E \<Longrightarrow> chain E (xs @ [a, b])"
  by (induction E xs rule: chain.induct) auto

lemma chain_drop: "chain E xs \<Longrightarrow> chain E (drop n xs)"
proof (induction n arbitrary: xs)
  case (Suc n)
  then show ?case by (cases xs rule: list.exhaust; cases "tl xs") auto
qed simp

lemma pathLoop_walk:
  assumes I: "bfsInv g0 src g hp Q" and i: "i < length Q"
  shows "\<exists>xs. xs \<noteq> [] \<and> hd xs = src \<and> last xs = Q ! i \<and> chain (lockEdges g0) xs
     \<and> (\<forall>rv cnt. length rv \<le> 17 \<longrightarrow> pathLoop g src (Q ! i) rv cnt = Some (take 17 (rv @ rev xs), cnt + length xs))"
  using i
proof (induction i rule: less_induct)
  case (less i)
  have sQ: "Q ! 0 = src" "distinct Q" "Q \<noteq> []" using I unfolding bfsInv_def by blast+
  have "Q ! i \<in> {n \<in> {1..<257}. seenBit g n}" using I less.prems nth_mem [of i Q] unfolding bfsInv_def by metis
  then have nz: "Q ! i \<noteq> 0" by simp
  show ?case
  proof (cases "i = 0")
    case True
    then have "Q ! i = src" "src \<noteq> 0" using sQ nz by auto
    then show ?thesis
      by (intro exI [of _ "[src]"]) (auto simp: pathLoop.simps)
  next
    case False
    have ns: "Q ! i \<noteq> src" using sQ False less.prems nth_eq_iff_index_eq [of Q i 0] by auto
    obtain j where j: "j < i" "bfsParent g (Q ! i - 1) = Q ! j" "(Q ! j, Q ! i) \<in> lockEdges g0"
      using I less.prems False unfolding bfsInv_def by blast
    obtain xs where xs: "xs \<noteq> []" "hd xs = src" "last xs = Q ! j" "chain (lockEdges g0) xs"
      and lp: "\<And>rv cnt. length rv \<le> 17 \<Longrightarrow> pathLoop g src (Q ! j) rv cnt = Some (take 17 (rv @ rev xs), cnt + length xs)"
      using less.IH [OF j(1)] j(1) less.prems by auto
    obtain ys where "xs = ys @ [Q ! j]" using xs(1,3) by (metis append_butlast_last_id)
    then have "chain (lockEdges g0) (xs @ [Q ! i])" using chain_append [of _ ys "Q ! j"] xs(4) j(3) by simp
    moreover have "pathLoop g src (Q ! i) rv cnt = Some (take 17 (rv @ rev (xs @ [Q ! i])), cnt + length (xs @ [Q ! i]))"
      if "length rv \<le> 17" for rv cnt
    proof -
      have "length rv < 17 \<Longrightarrow> 17 - length rv = Suc (16 - length rv)" by simp
      then show ?thesis using that nz ns j(2) lp by (subst pathLoop.simps) (auto simp: Let_def)
    qed
    ultimately show ?thesis using xs by (intro exI [of _ "xs @ [Q ! i]"]) auto
  qed
qed

section \<open>Well-formed validator states\<close>

definition lockWf :: "LockdepGraph \<Rightarrow> bool" where
  "lockWf g \<longleftrightarrow> classCount g \<le> LOCKDEP_MAX_CLASSES \<and> edgeCount g \<le> LOCKDEP_MAX_EDGES
     \<and> inj_on (\<lambda>i. c_key (classes g i)) {..<classCount g}
     \<and> (\<forall>a b. (a, b) \<in> lockEdges g \<longrightarrow> a \<le> classCount g \<and> b \<le> classCount g)
     \<and> lockEdges g = (\<lambda>i. (e_from (edges g i), e_to (edges g i))) ` {..<edgeCount g}
     \<and> inj_on (\<lambda>i. (e_from (edges g i), e_to (edges g i))) {..<edgeCount g}"

definition heldWf :: "LockdepGraph \<Rightarrow> LockdepHeldStack \<Rightarrow> bool" where
  "heldWf g hs \<longleftrightarrow> length (held hs) = LOCKDEP_MAX_HELD \<and> depth hs \<le> LOCKDEP_MAX_HELD
     \<and> (\<forall>i < depth hs. h_classId (held hs ! i) \<in> {1..classCount g})"

definition segmentClasses :: "LockdepHeldStack \<Rightarrow> u8 \<Rightarrow> nat set" where
  "segmentClasses hs ctx = (\<lambda>i. h_classId (held hs ! i)) ` {segmentBase hs ctx..<depth hs}"

lemma segmentFrom_le: "segmentFrom hs ctx n \<le> n"
  by (induction n) auto

lemma sameGraph_facts:
  assumes "sameGraph g h"
  shows "lockEdges h = lockEdges g" "adjTest h = adjTest g" "lockWf h = lockWf g" "heldWf h = heldWf g" "classes h = classes g"
proof -
  show e: "lockEdges h = lockEdges g" using assms by (intro lockEdges_cong) (simp add: sameGraph_def)
  show "adjTest h = adjTest g" using assms by (simp add: sameGraph_def adjTest_def fun_eq_iff)
  show "lockWf h = lockWf g" using assms e by (simp add: lockWf_def sameGraph_def)
  show "heldWf h = heldWf g" using assms by (simp add: heldWf_def sameGraph_def fun_eq_iff)
  show "classes h = classes g" using assms by (simp add: sameGraph_def)
qed

lemma sameGraph_refl [simp]: "sameGraph g g"
  by (simp add: sameGraph_def)

lemma sameGraph_trans: "sameGraph g h \<Longrightarrow> sameGraph h k \<Longrightarrow> sameGraph g k"
  by (simp add: sameGraph_def)

definition reportsPath :: "LockdepGraph \<Rightarrow> nat \<Rightarrow> LockdepFinding \<Rightarrow> bool" where
  "reportsPath g cid f \<longleftrightarrow> f_kind f = LOCKDEP_REPORT_INVERSION \<and> newClass f = cid
     \<and> (cid, heldClass f) \<in> (lockEdges g)\<^sup>* \<and> pathLen f \<le> LOCKDEP_MAX_PATH \<and> length (pathClass f) = LOCKDEP_MAX_PATH + 1
     \<and> chain (lockEdges g) (take (pathLen f + 1) (pathClass f)) \<and> pathClass f ! pathLen f = heldClass f
     \<and> (\<not> pathTruncated f \<longrightarrow> pathClass f ! 0 = cid)"

lemma buildPath_correct:
  assumes I: "bfsInv g0 cid g hp Q" and d: "h \<in> set Q"
    and f: "f_kind f = LOCKDEP_REPORT_INVERSION" "newClass f = cid" "heldClass f = h" "length (pathClass f) = 17"
  shows "\<exists>f'. buildPath g cid h f = Some f' \<and> reportsPath g0 cid f' \<and> heldClass f' = h \<and> heldIndex f' = heldIndex f"
proof -
  obtain i where i: "i < length Q" "Q ! i = h" using d by (auto simp: in_set_conv_nth)
  obtain xs where xs: "xs \<noteq> []" "hd xs = cid" "last xs = h" "chain (lockEdges g0) xs"
    and lp: "pathLoop g cid h [] 0 = Some (take 17 (rev xs), length xs)"
    using pathLoop_walk [OF I i(1)] i(2) by auto
  define rv where "rv = take 17 (rev xs)"
  define f' where "f' = f\<lparr>pathTruncated := length xs > length rv, pathLen := length rv - 1, pathClass := rev rv @ drop (length rv) (pathClass f)\<rparr>"
  have r: "buildPath g cid h f = Some f'" using lp by (simp add: buildPath_def f'_def rv_def)
  have rr: "rev rv = drop (length xs - 17) xs" by (simp add: rv_def take_rev)
  have len: "length rv = min 17 (length xs)" "rv \<noteq> []" using xs(1) by (auto simp: rv_def)
  have le: "length rv \<le> 17" by (simp add: rv_def)
  have l1: "pathLen f' + 1 = length rv" using len(2) by (cases rv) (auto simp: f'_def)
  have path: "take (pathLen f' + 1) (pathClass f') = rev rv" unfolding l1 by (simp add: f'_def)
  have "pathClass f' ! pathLen f' = last (rev rv)" using len(2) by (simp add: f'_def nth_append last_conv_nth)
  also have "\<dots> = h" unfolding rr using xs len by (subst last_drop) (auto split: if_splits)
  finally have last: "pathClass f' ! pathLen f' = h" .
  have first: "pathClass f' ! 0 = cid" if "\<not> pathTruncated f'"
    using that len xs(1,2) rr by (simp add: f'_def nth_append hd_conv_nth)
  have ff: "f_kind f' = LOCKDEP_REPORT_INVERSION" "newClass f' = cid" "heldClass f' = h" "heldIndex f' = heldIndex f"
    using f by (simp_all add: f'_def)
  have "length (pathClass f') = 17" using f(4) le by (simp add: f'_def)
  moreover have "(cid, h) \<in> (lockEdges g0)\<^sup>*" using bfsInv_reach [OF I i(1)] i(2) by simp
  moreover have "chain (lockEdges g0) (rev rv)" unfolding rr by (rule chain_drop [OF xs(4)])
  ultimately have "reportsPath g0 cid f'" unfolding reportsPath_def path ff last using l1 le first by simp
  then show ?thesis using r ff by blast
qed

lemma checkOrder_correct:
  assumes c: "cid \<in> {1..<257}" and h: "\<forall>j \<in> {i..<depth hs}. h_classId (held hs ! j) \<noteq> cid"
  shows "\<exists>g' r. checkOrder g hs cid i = Some (g', r) \<and> sameGraph g g' \<and>
     (case r of
        None \<Rightarrow> \<forall>j \<in> {i..<depth hs}. adjTest g (h_classId (held hs ! j)) cid \<or> (cid, h_classId (held hs ! j)) \<notin> (lockEdges g)\<^sup>*
      | Some f \<Rightarrow> reportsPath g cid f \<and> heldIndex f \<in> {i..<depth hs} \<and> heldClass f = h_classId (held hs ! heldIndex f)
          \<and> \<not> adjTest g (heldClass f) cid)"
  using c h
proof (induction g hs cid i rule: checkOrder.induct)
  case (1 g hs cid i)
  show ?case
  proof (cases "i < depth hs")
    case False
    then show ?thesis by (subst checkOrder.simps) simp
  next
    case True
    let ?h = "h_classId (held hs ! i)"
    have hs': "\<forall>j \<in> {i + 1..<depth hs}. h_classId (held hs ! j) \<noteq> cid" and ne: "?h \<noteq> cid" using 1(4) True by auto
    have range: "{i..<depth hs} = insert i {i + 1..<depth hs}" using True by auto
    show ?thesis
    proof (cases "adjTest g ?h cid")
      case adj: True
      have "checkOrder g hs cid i = checkOrder g hs cid (i + 1)" using True adj by (subst checkOrder.simps) simp
      with 1(1) [OF True refl disjI2 [OF adj] 1(3) hs'] obtain g' r where R: "checkOrder g hs cid i = Some (g', r)" "sameGraph g g'"
        "case r of
           None \<Rightarrow> \<forall>j \<in> {i + 1..<depth hs}. adjTest g (h_classId (held hs ! j)) cid \<or> (cid, h_classId (held hs ! j)) \<notin> (lockEdges g)\<^sup>*
         | Some f \<Rightarrow> reportsPath g cid f \<and> heldIndex f \<in> {i + 1..<depth hs} \<and> heldClass f = h_classId (held hs ! heldIndex f)
             \<and> \<not> adjTest g (heldClass f) cid" by auto
      then show ?thesis using adj unfolding range by (cases r) auto
    next
      case adj: False
      obtain g1 b where bf: "bfsFind g cid ?h = (g1, b)" by fastforce
      note B = bfsFind_correct [OF 1(3) bf]
      show ?thesis
      proof (cases b)
        case b: True
        obtain Q hp where Q: "bfsInv g cid g1 hp Q" "?h \<in> set Q" using B(3) [OF b] by blast
        obtain f where f: "buildPath g1 cid ?h ((findingInit LOCKDEP_REPORT_INVERSION cid)\<lparr>heldClass := ?h, heldIndex := i\<rparr>) = Some f"
          "reportsPath g cid f" "heldClass f = ?h" "heldIndex f = i"
          using buildPath_correct [OF Q, of "(findingInit LOCKDEP_REPORT_INVERSION cid)\<lparr>heldClass := ?h, heldIndex := i\<rparr>"]
          by (auto simp: findingInit_def)
        have "checkOrder g hs cid i = Some (g1, Some f)" using True adj ne bf b f(1) by (subst checkOrder.simps) (simp add: Let_def)
        then show ?thesis using B(2) f adj True by auto
      next
        case b: False
        then have bF: "b = False" by simp
        have eq: "checkOrder g hs cid i = checkOrder g1 hs cid (i + 1)" using True adj ne bf b by (subst checkOrder.simps) (simp add: Let_def)
        have nd: "\<not> (?h = cid \<or> adjTest g ?h cid)" using adj ne by simp
        note S = sameGraph_facts [OF B(2)]
        have rp: "reportsPath g1 = reportsPath g" by (simp add: reportsPath_def fun_eq_iff S(1))
        from 1(2) [OF True refl nd bf [symmetric] bF 1(3) hs', unfolded S(1,2) rp] eq sameGraph_trans [OF B(2)]
        obtain g' r where R: "checkOrder g hs cid i = Some (g', r)" "sameGraph g g'"
          "case r of
             None \<Rightarrow> \<forall>j \<in> {i + 1..<depth hs}. adjTest g (h_classId (held hs ! j)) cid \<or> (cid, h_classId (held hs ! j)) \<notin> (lockEdges g)\<^sup>*
           | Some f \<Rightarrow> reportsPath g cid f \<and> heldIndex f \<in> {i + 1..<depth hs} \<and> heldClass f = h_classId (held hs ! heldIndex f)
               \<and> \<not> adjTest g (heldClass f) cid" by auto
        then show ?thesis using B(1) b unfolding range by (cases r) auto
      qed
    qed
  qed
qed

section \<open>Recording acquires and releases\<close>

lemma adjTest_adjSet:
  assumes "x \<ge> 1" "y \<ge> 1" "a \<ge> 1" "b \<ge> 1"
  shows "adjTest (adjSet g a b) x y \<longleftrightarrow> adjTest g x y \<or> (x = a \<and> y = b)"
proof -
  have "x - 1 = a - 1 \<longleftrightarrow> x = a" using assms by auto
  moreover have "(y - 1) div 64 = (b - 1) div 64 \<and> (y - 1) mod 64 = (b - 1) mod 64 \<longleftrightarrow> y = b"
    using assms by (metis Suc_diff_1 div_mult_mod_eq less_le_trans zero_less_one)
  ultimately show ?thesis by (auto simp: adjTest_bit adjSet_def bit_simps)
qed

lemma addEdge_effect:
  fixes cap :: capture
  assumes w: "lockWf g" and r: "h \<in> {1..classCount g}" "cid \<in> {1..classCount g}" "\<not> adjTest g h cid" "edgeCount g \<noteq> LOCKDEP_MAX_EDGES"
  defines "g' \<equiv> addEdge cap h cid g"
  shows "lockWf g'" "lockEdges g' = insert (h, cid) (lockEdges g)" "classCount g' = classCount g"
proof -
  have cc: "classCount g \<le> 256" and ec: "edgeCount g \<le> 512" using w by (auto simp: lockWf_def)
  have at: "adjTest g' x y \<longleftrightarrow> adjTest g x y \<or> (x = h \<and> y = cid)" if "x \<ge> 1" "y \<ge> 1" for x y
    using adjTest_adjSet [of x y h cid] that r by (simp add: g'_def addEdge_def Let_def adjTest_def)
  have f: "classCount g' = classCount g" "classes g' = classes g" "edgeCount g' = edgeCount g + 1"
    "edges g' = (edges g)(edgeCount g := \<lparr>e_from = h, e_to = cid, e_trace = runCapture cap ((e_trace (edges g (edgeCount g)))\<lparr>tr_count := 0\<rparr>)\<rparr>)"
    by (simp_all add: g'_def addEdge_def Let_def adjSet_def)
  then show "classCount g' = classCount g" by simp
  show le: "lockEdges g' = insert (h, cid) (lockEdges g)"
    using at r cc by (auto simp: lockEdges_def)
  have new: "(h, cid) \<notin> lockEdges g" using r by (simp add: lockEdges_def)
  have im: "lockEdges g = (\<lambda>i. (e_from (edges g i), e_to (edges g i))) ` {..<edgeCount g}"
    and inj: "inj_on (\<lambda>i. (e_from (edges g i), e_to (edges g i))) {..<edgeCount g}" using w by (auto simp: lockWf_def)
  have ee: "(\<lambda>i. (e_from (edges g' i), e_to (edges g' i))) = (\<lambda>i. (e_from (edges g i), e_to (edges g i)))(edgeCount g := (h, cid))"
    by (auto simp: f fun_eq_iff)
  have "(\<lambda>i. (e_from (edges g' i), e_to (edges g' i))) ` {..<edgeCount g'} = insert (h, cid) (lockEdges g)"
    unfolding ee im f lessThan_Suc Suc_eq_plus1 [symmetric] by auto
  moreover have "inj_on (\<lambda>i. (e_from (edges g' i), e_to (edges g' i))) {..<edgeCount g'}"
    unfolding ee f Suc_eq_plus1 [symmetric] lessThan_Suc using inj new unfolding im
    by (auto simp: inj_on_def)
  moreover have "\<forall>a b. (a, b) \<in> lockEdges g \<longrightarrow> a \<le> classCount g \<and> b \<le> classCount g" "inj_on (\<lambda>i. c_key (classes g i)) {..<classCount g}"
    using w unfolding lockWf_def by blast+
  ultimately show "lockWf g'" unfolding lockWf_def f(1,2) using cc ec r f(3) le by auto
qed

lemma commitEdges_effect:
  assumes "lockWf g" "\<forall>i \<in> set is. h_classId (held hs ! i) \<in> {1..classCount g}" "cid \<in> {1..classCount g}"
    and "fold (\<lambda>i (g, r). let h = h_classId (held hs ! i)
     in if h = cid \<or> adjTest g h cid then (g, r) else if edgeCount g = LOCKDEP_MAX_EDGES then (g, LOCKDEP_FULL)
        else (addEdge cap h cid g, r)) is (g, r) = (g', r')"
  defines "H \<equiv> (\<lambda>i. h_classId (held hs ! i)) ` set is - {cid}"
  shows "lockWf g' \<and> classCount g' = classCount g \<and> lockEdges g \<subseteq> lockEdges g' \<and> lockEdges g' \<subseteq> lockEdges g \<union> H \<times> {cid}
     \<and> (r' = LOCKDEP_OK \<longrightarrow> r = LOCKDEP_OK \<and> lockEdges g' = lockEdges g \<union> H \<times> {cid})"
  using assms(1-4) unfolding H_def
proof (induction "is" arbitrary: g r)
  case (Cons i is')
  let ?h = "h_classId (held hs ! i)"
  have cc: "classCount g \<le> 256" using Cons.prems(1) by (simp add: lockWf_def)
  have edge: "adjTest g ?h cid \<longleftrightarrow> (?h, cid) \<in> lockEdges g" using Cons.prems(2,3) cc by (auto simp: lockEdges_def)
  consider (skip) "?h = cid \<or> adjTest g ?h cid" | (full) "\<not> (?h = cid \<or> adjTest g ?h cid)" "edgeCount g = LOCKDEP_MAX_EDGES"
    | (add) "\<not> (?h = cid \<or> adjTest g ?h cid)" "edgeCount g \<noteq> LOCKDEP_MAX_EDGES" by blast
  then show ?case
  proof cases
    case skip
    then show ?thesis using Cons.IH [of g r] Cons.prems edge by (auto simp: Let_def)
  next
    case full
    then show ?thesis using Cons.IH [of g LOCKDEP_FULL] Cons.prems by (auto simp: Let_def)
  next
    case add
    note E = addEdge_effect [OF Cons.prems(1), of ?h cid cap]
    show ?thesis using Cons.IH [of "addEdge cap ?h cid g" r] Cons.prems add E by (auto simp: Let_def)
  qed
qed simp

text \<open>Edges into one new node keep a relation acyclic when no target reaches back.\<close>

lemma reach_new:
  assumes "(c, x) \<in> (E \<union> H \<times> {c})\<^sup>*"
  shows "(c, x) \<in> E\<^sup>*"
  using assms by (induction rule: rtrancl_induct) (auto intro: rtrancl_into_rtrancl)

lemma acyclic_new:
  assumes "acyclic E" "finite H" "\<forall>h \<in> H. (c, h) \<notin> E\<^sup>*"
  shows "acyclic (E \<union> H \<times> {c})"
  using assms(2,3)
proof (induction H rule: finite_induct)
  case empty
  then show ?case using assms(1) by simp
next
  case (insert h H)
  then have "acyclic (insert (h, c) (E \<union> H \<times> {c}))"
    using reach_new [of c h E H] by (auto simp: acyclic_insert)
  moreover have eq: "insert (h, c) (E \<union> H \<times> {c}) = E \<union> insert h H \<times> {c}" by blast
  ultimately show ?case unfolding eq by blast
qed

lemma setClass_facts:
  "lockEdges (setClass c (markUsage cap u) g) = lockEdges g" "classCount (setClass c (markUsage cap u) g) = classCount g"
  "lockWf (setClass c (markUsage cap u) g) = lockWf g" "adjTest (setClass c (markUsage cap u) g) = adjTest g"
proof -
  let ?g = "setClass c (markUsage cap u) g"
  have k: "(\<lambda>i. c_key (classes ?g i)) = (\<lambda>i. c_key (classes g i))" by (auto simp: setClass_def markUsage_def)
  have f: "classCount ?g = classCount g" "edgeCount ?g = edgeCount g" "edges ?g = edges g" "adj ?g = adj g" by (simp_all add: setClass_def)
  show e: "lockEdges ?g = lockEdges g" by (rule lockEdges_cong [OF f(4)])
  show "classCount ?g = classCount g" by (rule f)
  show "lockWf ?g = lockWf g" unfolding lockWf_def k f e ..
  show "adjTest ?g = adjTest g" by (simp add: adjTest_def fun_eq_iff f)
qed

section \<open>Runs of the validator\<close>

text \<open>
  One acquire as \<open>lockdepAcquire\<close> of \<open>kernel/sync/lockdep.c\<close> performs it: check, then record, adding
  the order edges only if the check was clean. The result carries the finding and the table verdict.
\<close>

definition acquireStep ::
  "capture \<Rightarrow> LockdepGraph \<Rightarrow> LockdepHeldStack \<Rightarrow> u64 \<Rightarrow> nat \<Rightarrow> u8 \<Rightarrow> bool \<Rightarrow> bool \<Rightarrow> u64
    \<Rightarrow> (LockdepGraph \<times> LockdepHeldStack \<times> LockdepFinding option \<times> LockdepVerdict) option" where
  "acquireStep cap g hs inst cid ctx irqsOn trylock ip =
     (case lockdepCoreCheckAcquire g hs inst cid ctx irqsOn trylock of
        None \<Rightarrow> None
      | Some (g1, r) \<Rightarrow>
          (case lockdepCoreCommitAcquire cap g1 hs inst cid ctx irqsOn trylock (r = None) ip of
             (g2, hs2, v) \<Rightarrow> Some (g2, hs2, r, v)))"

text \<open>Any interleaving of registrations, acquires and releases on any number of CPUs.\<close>

inductive lockReach :: "LockdepGraph \<Rightarrow> (nat \<Rightarrow> LockdepHeldStack) \<Rightarrow> bool" where
  start: "classCount g = 0 \<Longrightarrow> edgeCount g = 0 \<Longrightarrow> adj g = (\<lambda>_ _. 0) \<Longrightarrow>
     (\<And>c. length (held (S c)) = LOCKDEP_MAX_HELD \<and> depth (S c) = 0) \<Longrightarrow> lockReach g S"
| register: "lockReach g S \<Longrightarrow> lockdepCoreClassOf g ky nm = (g', r) \<Longrightarrow> lockReach g' S"
| acquire: "lockReach g S \<Longrightarrow> cid \<in> {1..classCount g} \<Longrightarrow>
     acquireStep cap g (S c) inst cid ctx irqsOn trylock ip = Some (g', hs', r, v) \<Longrightarrow> lockReach g' (S(c := hs'))"
| release: "lockReach g S \<Longrightarrow> lockdepCoreCommitRelease cap g (S c) inst irqsOn = (g', hs') \<Longrightarrow> lockReach g' (S(c := hs'))"

definition lockInv :: "LockdepGraph \<Rightarrow> (nat \<Rightarrow> LockdepHeldStack) \<Rightarrow> bool" where
  "lockInv g S \<longleftrightarrow> lockWf g \<and> acyclic (lockEdges g) \<and> (\<forall>c. heldWf g (S c))"

definition acquireClean :: "LockdepGraph \<Rightarrow> LockdepHeldStack \<Rightarrow> u64 \<Rightarrow> nat \<Rightarrow> u8 \<Rightarrow> bool \<Rightarrow> bool \<Rightarrow> bool" where
  "acquireClean g hs inst cid ctx irqsOn trylock \<longleftrightarrow>
     depth hs < LOCKDEP_MAX_HELD \<and> (\<forall>i < depth hs. h_instance (held hs ! i) \<noteq> inst)
     \<and> (ctx \<noteq> 0 \<longrightarrow> \<not> usageSeen (classes g (cid - 1)) LOCKDEP_USAGE_IRQS_ON)
     \<and> (ctx = 0 \<and> irqsOn \<longrightarrow> \<not> usageSeen (classes g (cid - 1)) LOCKDEP_USAGE_IN_HARDIRQ)
     \<and> (\<not> trylock \<longrightarrow> (\<forall>h \<in> segmentClasses hs ctx. h \<noteq> cid \<and> (cid, h) \<notin> (lockEdges g)\<^sup>*))"

lemma find_None_all: "find P [a..<b] = None \<longleftrightarrow> (\<forall>i. a \<le> i \<and> i < b \<longrightarrow> \<not> P i)"
  by (auto simp: find_None_iff)

lemma check_exact:
  assumes w: "lockWf g" "heldWf g hs" "acyclic (lockEdges g)" and c: "cid \<in> {1..classCount g}"
  shows "\<exists>g' r. lockdepCoreCheckAcquire g hs inst cid ctx irqsOn trylock = Some (g', r) \<and> sameGraph g g'
     \<and> (r = None \<longleftrightarrow> acquireClean g hs inst cid ctx irqsOn trylock)
     \<and> (\<forall>f. r = Some f \<and> f_kind f = LOCKDEP_REPORT_INVERSION \<longrightarrow>
          \<not> trylock \<and> reportsPath g cid f \<and> heldClass f \<in> segmentClasses hs ctx)"
proof -
  let ?base = "segmentBase hs ctx" and ?E = "lockEdges g" and ?chk = "lockdepCoreCheckAcquire g hs inst cid ctx irqsOn trylock"
  let ?cls = "classes g (cid - 1)"
  have cc: "classCount g \<le> 256" using w(1) by (simp add: lockWf_def)
  have c': "cid \<in> {1..<257}" using c cc by auto
  have nback: "(cid, h) \<notin> ?E\<^sup>*" if "adjTest g h cid" "h \<in> segmentClasses hs ctx" for h
  proof -
    have "(h, cid) \<in> ?E" using that w(2) cc c' by (auto simp: lockEdges_def segmentClasses_def heldWf_def)
    then show ?thesis using w(3) by (meson acyclic_def rtrancl_into_trancl2)
  qed
  consider (deep) "depth hs \<ge> LOCKDEP_MAX_HELD"
    | (inst) i where "depth hs < LOCKDEP_MAX_HELD" "find (\<lambda>i. h_instance (held hs ! i) = inst) [0..<depth hs] = Some i"
    | (cls) i where "depth hs < LOCKDEP_MAX_HELD" "find (\<lambda>i. h_instance (held hs ! i) = inst) [0..<depth hs] = None"
        "\<not> trylock" "find (\<lambda>i. h_classId (held hs ! i) = cid) [?base..<depth hs] = Some i"
    | (usage) "depth hs < LOCKDEP_MAX_HELD" "find (\<lambda>i. h_instance (held hs ! i) = inst) [0..<depth hs] = None"
        "trylock \<or> find (\<lambda>i. h_classId (held hs ! i) = cid) [?base..<depth hs] = None"
        "(ctx \<noteq> 0 \<and> usageSeen ?cls LOCKDEP_USAGE_IRQS_ON) \<or> (ctx = 0 \<and> irqsOn \<and> usageSeen ?cls LOCKDEP_USAGE_IN_HARDIRQ)"
    | (order) "depth hs < LOCKDEP_MAX_HELD" "find (\<lambda>i. h_instance (held hs ! i) = inst) [0..<depth hs] = None"
        "trylock \<or> find (\<lambda>i. h_classId (held hs ! i) = cid) [?base..<depth hs] = None"
        "\<not> (ctx \<noteq> 0 \<and> usageSeen ?cls LOCKDEP_USAGE_IRQS_ON)" "\<not> (ctx = 0 \<and> irqsOn \<and> usageSeen ?cls LOCKDEP_USAGE_IN_HARDIRQ)"
    by (metis leI not_None_eq)
  then show ?thesis
  proof cases
    case deep
    then show ?thesis by (auto simp: lockdepCoreCheckAcquire_def acquireClean_def findingInit_def)
  next
    case inst
    have "i < depth hs" "h_instance (held hs ! i) = inst" using inst(2) by (auto simp: find_Some_iff)
    then show ?thesis using inst by (auto simp: lockdepCoreCheckAcquire_def acquireClean_def findingInit_def)
  next
    case cls
    then have "cid \<in> segmentClasses hs ctx" by (auto simp: find_Some_iff segmentClasses_def)
    then show ?thesis using cls by (auto simp: lockdepCoreCheckAcquire_def acquireClean_def findingInit_def Let_def)
  next
    case usage
    then show ?thesis by (auto simp: lockdepCoreCheckAcquire_def acquireClean_def findingInit_def Let_def)
  next
    case order
    have other: "depth hs < LOCKDEP_MAX_HELD \<and> (\<forall>i < depth hs. h_instance (held hs ! i) \<noteq> inst)"
      using order(1,2) by (simp add: find_None_all)
    show ?thesis
    proof (cases trylock)
      case True
      then show ?thesis using order other by (auto simp: lockdepCoreCheckAcquire_def acquireClean_def Let_def)
    next
      case False
      then have nc: "\<forall>j \<in> {?base..<depth hs}. h_classId (held hs ! j) \<noteq> cid" using order(3) by (simp add: find_None_all)
      have eq: "?chk = checkOrder g hs cid ?base" using order False by (auto simp: lockdepCoreCheckAcquire_def Let_def)
      obtain g' r where R: "?chk = Some (g', r)" "sameGraph g g'"
        "case r of
           None \<Rightarrow> \<forall>j \<in> {?base..<depth hs}. adjTest g (h_classId (held hs ! j)) cid \<or> (cid, h_classId (held hs ! j)) \<notin> ?E\<^sup>*
         | Some f \<Rightarrow> reportsPath g cid f \<and> heldIndex f \<in> {?base..<depth hs} \<and> heldClass f = h_classId (held hs ! heldIndex f)
             \<and> \<not> adjTest g (heldClass f) cid"
        using checkOrder_correct [OF c' nc, of g] eq by auto
      show ?thesis
      proof (cases r)
        case None
        then have "\<forall>h \<in> segmentClasses hs ctx. h \<noteq> cid \<and> (cid, h) \<notin> ?E\<^sup>*"
          using R(3) nc nback by (auto simp: segmentClasses_def)
        then show ?thesis using R None order other by (auto simp: acquireClean_def)
      next
        case (Some f)
        then have f: "reportsPath g cid f" "heldClass f \<in> segmentClasses hs ctx" using R(3) by (auto simp: segmentClasses_def)
        then have "(cid, heldClass f) \<in> ?E\<^sup>*" by (simp add: reportsPath_def)
        then show ?thesis using R Some f False by (auto simp: acquireClean_def)
      qed
    qed
  qed
qed

lemma commit_inv:
  assumes w: "lockWf g" "acyclic (lockEdges g)" "\<forall>c. heldWf g (S c)" and c: "cid \<in> {1..classCount g}"
    and clean: "ae \<longrightarrow> acquireClean g (S x) inst cid ctx irqsOn trylock"
    and r: "lockdepCoreCommitAcquire cap g (S x) inst cid ctx irqsOn trylock ae ip = (g', hs', v)"
  shows "lockInv g' (S(x := hs'))"
proof -
  let ?hs = "S x" and ?base = "segmentBase (S x) ctx"
  define g1 where "g1 = (if ctx \<noteq> 0 then setClass cid (markUsage cap LOCKDEP_USAGE_IN_HARDIRQ) g
                else if irqsOn then setClass cid (markUsage cap LOCKDEP_USAGE_IRQS_ON) g else g)"
  have g1: "lockWf g1" "lockEdges g1 = lockEdges g" "classCount g1 = classCount g" "adjTest g1 = adjTest g"
    using w(1) by (simp_all add: g1_def setClass_facts)
  have hw: "heldWf g ?hs" using w(3) by blast
  have hc: "\<forall>i \<in> set [?base..<depth ?hs]. h_classId (held ?hs ! i) \<in> {1..classCount g1}"
    using hw by (auto simp: heldWf_def g1(3))
  have c1: "cid \<in> {1..classCount g1}" using c g1(3) by simp
  have G: "lockWf g' \<and> classCount g' = classCount g \<and> acyclic (lockEdges g')"
  proof (cases "\<not> trylock \<and> ae")
    case False
    then have "g' = g1" using r by (auto simp: lockdepCoreCommitAcquire_def g1_def Let_def split: if_splits)
    then show ?thesis using g1 w by simp
  next
    case True
    then obtain v' where ce: "commitEdges cap ?hs cid ?base g1 = (g', v')"
      using r by (auto simp: lockdepCoreCommitAcquire_def g1_def [symmetric] Let_def split: prod.splits)
    note E = commitEdges_effect [OF g1(1) hc c1 ce [unfolded commitEdges_def]]
    have "\<forall>h \<in> segmentClasses ?hs ctx. (cid, h) \<notin> (lockEdges g)\<^sup>*" using clean True by (simp add: acquireClean_def)
    then have "acyclic (lockEdges g \<union> segmentClasses ?hs ctx \<times> {cid})"
      by (intro acyclic_new [OF w(2)]) (auto simp: segmentClasses_def)
    moreover have "lockEdges g' \<subseteq> lockEdges g \<union> segmentClasses ?hs ctx \<times> {cid}"
      using E unfolding g1(2) segmentClasses_def by auto
    ultimately have "acyclic (lockEdges g')" by (rule acyclic_subset)
    then show ?thesis using E g1(3) by simp
  qed
  have "hs' = ?hs \<or> hs' = ?hs\<lparr>held := (held ?hs)[depth ?hs := \<lparr>h_instance = inst, h_classId = cid, h_irqCtx = ctx,
          h_trylock = trylock, h_irqsOn = irqsOn, h_ip = ip\<rparr>], depth := depth ?hs + 1\<rparr> \<and> depth ?hs < LOCKDEP_MAX_HELD"
    using r by (auto simp: lockdepCoreCommitAcquire_def Let_def split: prod.splits if_splits)
  then have "heldWf g hs'" using hw c by (auto simp: heldWf_def nth_list_update less_Suc_eq)
  then show ?thesis using G w(3) by (simp add: lockInv_def heldWf_def)
qed

lemma heldFrom_lt: "heldFrom hs inst n = Some i \<Longrightarrow> i < n"
  by (induction n) (auto split: if_splits)

lemma release_inv:
  assumes w: "lockInv g S" and r: "lockdepCoreCommitRelease cap g (S x) inst irqsOn = (g', hs')"
  shows "lockInv g' (S(x := hs'))"
proof (cases "heldFind (S x) inst")
  case None
  then have "g' = g" "hs' = S x" using r by (simp_all add: lockdepCoreCommitRelease_def)
  then show ?thesis using w by (simp add: fun_upd_idem)
next
  case (Some idx)
  then have i: "idx < depth (S x)" using heldFrom_lt by (simp add: heldFind_def)
  have hw: "heldWf g (S x)" using w by (simp add: lockInv_def)
  have hs': "hs' = (S x)\<lparr>held := arr_close (held (S x)) idx (depth (S x)), depth := depth (S x) - 1\<rparr>"
    and g': "g' = g \<or> g' = setClass (h_classId (held (S x) ! idx)) (markUsage cap LOCKDEP_USAGE_IRQS_ON) g"
    using r Some by (auto simp: lockdepCoreCommitRelease_def Let_def)
  have "heldWf g hs'" using hw i by (auto simp: heldWf_def hs' arr_simps nth_arr_close)
  moreover have "lockWf g'" "lockEdges g' = lockEdges g" "classCount g' = classCount g"
    using g' w by (auto simp: setClass_facts lockInv_def)
  ultimately show ?thesis using w by (simp add: lockInv_def heldWf_def)
qed

lemma classOf_inv:
  assumes w: "lockInv g S" and r: "lockdepCoreClassOf g ky nm = (g', v)"
  shows "lockInv g' S"
proof (cases "classCount g' = classCount g")
  case True
  then have "g' = g" using r by (auto simp: lockdepCoreClassOf_def split: if_splits option.splits)
  then show ?thesis using w by simp
next
  case False
  then have n: "find (\<lambda>i. c_key (classes g i) = ky) [0..<classCount g] = None" "classCount g \<noteq> 256"
    and g': "g' = g\<lparr>classes := (classes g)(classCount g := (classes g (classCount g))\<lparr>c_key := ky, c_name := nm, usageMask := 0\<rparr>),
                   classCount := classCount g + 1\<rparr>"
    using r by (auto simp: lockdepCoreClassOf_def split: if_splits option.splits)
  have e: "lockEdges g' = lockEdges g" by (rule lockEdges_cong) (simp add: g')
  have k: "\<forall>i < classCount g. c_key (classes g i) \<noteq> ky" using n(1) by (simp add: find_None_all)
  have "lockWf g" using w by (simp add: lockInv_def)
  then have "lockWf g'" unfolding lockWf_def e using n(2) k
    by (auto simp: g' inj_on_def less_Suc_eq le_SucI)
  moreover have "heldWf g' (S c)" for c using w by (fastforce simp: lockInv_def heldWf_def g' intro: le_SucI)
  ultimately show ?thesis using w e by (simp add: lockInv_def)
qed

lemma lockReach_inv: "lockReach g S \<Longrightarrow> lockInv g S"
proof (induction rule: lockReach.induct)
  case (start g S)
  then have "lockEdges g = {}" by (simp add: lockEdges_def adjTest_def)
  then show ?case using start by (simp add: lockInv_def lockWf_def heldWf_def acyclic_def)
next
  case (register g S ky nm g' r)
  then show ?case using classOf_inv by blast
next
  case (acquire g S cid cap c inst ctx irqsOn trylock ip g' hs' r v)
  have w: "lockWf g" "heldWf g (S c)" "acyclic (lockEdges g)" "\<forall>c. heldWf g (S c)" using acquire by (auto simp: lockInv_def)
  obtain g1 where ch: "lockdepCoreCheckAcquire g (S c) inst cid ctx irqsOn trylock = Some (g1, r)"
    and cm: "lockdepCoreCommitAcquire cap g1 (S c) inst cid ctx irqsOn trylock (r = None) ip = (g', hs', v)"
    using acquire(3) by (auto simp: acquireStep_def split: option.splits prod.splits)
  have sg: "sameGraph g g1" and cl: "r = None \<longleftrightarrow> acquireClean g (S c) inst cid ctx irqsOn trylock"
    using check_exact [OF w(1-3) acquire(2), of inst ctx irqsOn trylock] ch by auto
  note F = sameGraph_facts [OF sg]
  have "(r = None) \<longrightarrow> acquireClean g1 (S c) inst cid ctx irqsOn trylock" using cl by (simp add: acquireClean_def F)
  then show ?case
    using commit_inv [of g1 S cid "r = None" c inst ctx irqsOn trylock cap ip g' hs' v] w F cm acquire(2) sg
    by (simp add: sameGraph_def fun_upd_def)
next
  case (release g S cap c inst irqsOn g' hs')
  then show ?case using release_inv by blast
qed

section \<open>Properties\<close>

definition demoHeld :: LockdepHeldStack where
  "demoHeld = \<lparr>held = replicate 16 \<lparr>h_instance = 0, h_classId = 0, h_irqCtx = 0, h_trylock = False, h_irqsOn = False, h_ip = 0\<rparr>, depth = 0\<rparr>"

definition demoTrace :: LockdepTrace where
  "demoTrace = \<lparr>pc = replicate 10 0, tr_count = 0\<rparr>"

definition demoGraph :: LockdepGraph where
  "demoGraph = \<lparr>classCount = 0, edgeCount = 0, classes = (\<lambda>_. \<lparr>c_key = 0, c_name = 0, usageMask = 0, usageTrace = \<lambda>_. demoTrace\<rparr>),
     adj = (\<lambda>_ _. 0), edges = (\<lambda>_. \<lparr>e_from = 0, e_to = 0, e_trace = demoTrace\<rparr>), bfsQueue = (\<lambda>_. 0), bfsParent = (\<lambda>_. 0), bfsSeen = (\<lambda>_. 0)\<rparr>"

lemma demo_reach: "lockReach demoGraph (\<lambda>_. demoHeld)"
  by (rule lockReach.start) (simp_all add: demoGraph_def demoHeld_def)

text \<open>Two registered classes, and the first one taken on CPU 0.\<close>

definition demoGraph2 :: LockdepGraph where
  "demoGraph2 = fst (lockdepCoreClassOf (fst (lockdepCoreClassOf demoGraph 0x10 0x1)) 0x20 0x2)"

lemma demo_reach2: "lockReach demoGraph2 (\<lambda>_. demoHeld)"
  unfolding demoGraph2_def
  by (rule lockReach.register [OF lockReach.register [OF demo_reach prod.collapse [symmetric]] prod.collapse [symmetric]])

lemma demo_count2: "classCount demoGraph2 = 2"
  by (simp add: demoGraph2_def lockdepCoreClassOf_def demoGraph_def)

text \<open>
  C21: The recorded lock order is always a partial order. Whatever classes are registered and however
  acquires (blocking or not, in any context) and releases interleave on any number of CPUs, the
  order graph never has a cycle, stays inside its tables, agrees with the edge table entry for
  entry, and no held stack overflows its array.
\<close>

theorem lockdep_order_acyclic:
  assumes "lockReach g S"
  shows "acyclic (lockEdges g) \<and> classCount g \<le> LOCKDEP_MAX_CLASSES \<and> edgeCount g \<le> LOCKDEP_MAX_EDGES
     \<and> (\<forall>a b. (a, b) \<in> lockEdges g \<longleftrightarrow> (\<exists>i < edgeCount g. e_from (edges g i) = a \<and> e_to (edges g i) = b))
     \<and> (\<forall>c. depth (S c) \<le> LOCKDEP_MAX_HELD)"
  using lockReach_inv [OF assms] by (auto simp: lockInv_def lockWf_def heldWf_def)

theorem lockdep_order_acyclic_witness: "acyclic (lockEdges demoGraph2)"
  using lockdep_order_acyclic [OF demo_reach2] by blast

text \<open>
  C22: In every reachable state the acquire check terminates, changes nothing but its scratch space,
  and is exact: it is clean if and only if the stack has room, the lock is not already held, its
  usage in and outside interrupt context is consistent, and, unless it is a trylock, no lock held in
  the same context has the same class or is reachable from it in the order graph. An inversion
  report names such a held class and shows a real chain of recorded edges that ends in it and,
  unless it is marked truncated, starts at the class being acquired.
\<close>

theorem lockdep_check_exact:
  assumes "lockReach g S" and "cid \<in> {1..classCount g}"
  shows "\<exists>g' r. lockdepCoreCheckAcquire g (S c) inst cid ctx irqsOn trylock = Some (g', r) \<and> sameGraph g g'
     \<and> (r = None \<longleftrightarrow> depth (S c) < LOCKDEP_MAX_HELD \<and> (\<forall>i < depth (S c). h_instance (held (S c) ! i) \<noteq> inst)
          \<and> (ctx \<noteq> 0 \<longrightarrow> \<not> usageSeen (classes g (cid - 1)) LOCKDEP_USAGE_IRQS_ON)
          \<and> (ctx = 0 \<and> irqsOn \<longrightarrow> \<not> usageSeen (classes g (cid - 1)) LOCKDEP_USAGE_IN_HARDIRQ)
          \<and> (\<not> trylock \<longrightarrow> (\<forall>h \<in> segmentClasses (S c) ctx. h \<noteq> cid \<and> (cid, h) \<notin> (lockEdges g)\<^sup>*)))
     \<and> (\<forall>f. r = Some f \<and> f_kind f = LOCKDEP_REPORT_INVERSION \<longrightarrow> heldClass f \<in> segmentClasses (S c) ctx
          \<and> chain (lockEdges g) (take (pathLen f + 1) (pathClass f)) \<and> pathClass f ! pathLen f = heldClass f
          \<and> (\<not> pathTruncated f \<longrightarrow> pathClass f ! 0 = cid))"
proof -
  have w: "lockWf g" "heldWf g (S c)" "acyclic (lockEdges g)" using lockReach_inv [OF assms(1)] by (auto simp: lockInv_def)
  show ?thesis
    using check_exact [OF w assms(2), of inst ctx irqsOn trylock] unfolding acquireClean_def reportsPath_def by blast
qed

theorem lockdep_check_exact_witness:
  "\<exists>g'. lockdepCoreCheckAcquire demoGraph2 demoHeld 0x77 1 0 True False = Some (g', None)"
proof -
  have c: "1 \<in> {1..classCount demoGraph2}" by (simp add: demo_count2)
  have "\<not> usageSeen (classes demoGraph2 0) LOCKDEP_USAGE_IN_HARDIRQ" "depth demoHeld = 0" "segmentClasses demoHeld 0 = {}"
    by (simp_all add: demoGraph2_def demoGraph_def lockdepCoreClassOf_def usageSeen_def demoHeld_def segmentClasses_def)
  then show ?thesis using lockdep_check_exact [OF demo_reach2 c, where inst = "0x77" and ctx = 0 and irqsOn = True and trylock = False] by auto
qed

end
