(* ===== verification/Timer_Heap.thy ===== *)
theory Timer_Heap
  imports Prelude "HOL-Library.Product_Lexorder"
begin

text \<open>
  The timer heap of \<open>kernel/core/time-core.c\<close>: a binary min-heap in a fixed array, ordered by
  deadline and then by arming order. A timer is a pointer (a 64-bit word, 0 for NULL) into a store of
  timer objects, so that the back-pointers the heap keeps inside the objects are modelled too. The
  heap is proved to be a priority queue.
\<close>

section \<open>Timer heap\<close>

abbreviation TIMER_HEAP_CAP :: nat where "TIMER_HEAP_CAP \<equiv> 256"

datatype TimerState = TIMER_IDLE | TIMER_ARMED | TIMER_EXPIRED

record TimerObj =
  deadlineNs :: u64
  seq :: u64
  fn :: u64
  tctx :: u64
  batchNext :: u64
  heapIndex :: nat
  tstate :: TimerState

text \<open>The heap and the timer objects it points to.\<close>

record TimerHeap =
  slot :: "u64 list"
  count :: nat
  nextSeq :: u64
  timers :: "u64 \<Rightarrow> TimerObj"

definition timerBefore :: "TimerHeap \<Rightarrow> u64 \<Rightarrow> u64 \<Rightarrow> bool" where
  "timerBefore h a b \<longleftrightarrow> deadlineNs (timers h a) < deadlineNs (timers h b)
     \<or> (deadlineNs (timers h a) = deadlineNs (timers h b) \<and> seq (timers h a) < seq (timers h b))"

definition heapPlace :: "nat \<Rightarrow> u64 \<Rightarrow> TimerHeap \<Rightarrow> TimerHeap" where
  "heapPlace i t h = h\<lparr>slot := (slot h)[i := t], timers := (timers h)(t := (timers h t)\<lparr>heapIndex := i\<rparr>)\<rparr>"

function siftUpLoop :: "u64 \<Rightarrow> nat \<Rightarrow> TimerHeap \<Rightarrow> TimerHeap" where
  "siftUpLoop t i h =
     (if i > 0 \<and> timerBefore h t (slot h ! ((i - 1) div 2))
      then siftUpLoop t ((i - 1) div 2) (heapPlace i (slot h ! ((i - 1) div 2)) h)
      else heapPlace i t h)"
  by pat_completeness auto
termination by (relation "measure (\<lambda>(t, i, h). i)") auto

definition siftUp :: "nat \<Rightarrow> TimerHeap \<Rightarrow> TimerHeap" where
  "siftUp i h = siftUpLoop (slot h ! i) i h"

definition bestChild :: "TimerHeap \<Rightarrow> nat \<Rightarrow> nat" where
  "bestChild h i =
     (let child = 2 * i + 1
      in if child + 1 < count h \<and> timerBefore h (slot h ! (child + 1)) (slot h ! child) then child + 1 else child)"

function siftDownLoop :: "u64 \<Rightarrow> nat \<Rightarrow> TimerHeap \<Rightarrow> TimerHeap" where
  "siftDownLoop t i h =
     (if 2 * i + 1 < count h \<and> timerBefore h (slot h ! bestChild h i) t
      then siftDownLoop t (bestChild h i) (heapPlace i (slot h ! bestChild h i) h)
      else heapPlace i t h)"
  by pat_completeness auto
termination
  by (relation "measure (\<lambda>(t, i, h). count h - i)") (auto simp: bestChild_def heapPlace_def Let_def)

definition siftDown :: "nat \<Rightarrow> TimerHeap \<Rightarrow> TimerHeap" where
  "siftDown i h = siftDownLoop (slot h ! i) i h"

declare siftUpLoop.simps [simp del] siftDownLoop.simps [simp del]

definition timerHeapInit :: "TimerHeap \<Rightarrow> TimerHeap" where
  "timerHeapInit h = h\<lparr>count := 0, nextSeq := 0, slot := fold (\<lambda>i s. s[i := 0]) [0..<TIMER_HEAP_CAP] (slot h)\<rparr>"

definition timerHeapInsert :: "u64 \<Rightarrow> TimerHeap \<Rightarrow> Status + TimerHeap" where
  "timerHeapInsert t h =
     (if count h \<ge> TIMER_HEAP_CAP then Inl STATUS_ERR_NO_MEMORY
      else let h1 = h\<lparr>timers := (timers h)(t := (timers h t)\<lparr>seq := nextSeq h, tstate := TIMER_ARMED\<rparr>), nextSeq := nextSeq h + 1\<rparr>;
               i = count h1;
               h2 = heapPlace i t (h1\<lparr>count := count h1 + 1\<rparr>)
        in Inr (siftUp i h2))"

definition timerHeapRemove :: "u64 \<Rightarrow> TimerHeap \<Rightarrow> TimerHeap" where
  "timerHeapRemove t h =
     (let i = heapIndex (timers h t);
          last' = count h - 1;
          moved = slot h ! last';
          h1 = h\<lparr>count := last', slot := (slot h)[last' := 0]\<rparr>
      in if i = last' then h1
         else let h2 = heapPlace i moved h1
           in if i > 0 \<and> timerBefore h2 moved (slot h2 ! ((i - 1) div 2)) then siftUp i h2 else siftDown i h2)"

definition timerHeapPeek :: "TimerHeap \<Rightarrow> u64" where
  "timerHeapPeek h = (if count h = 0 then 0 else slot h ! 0)"

definition timerHeapPop :: "TimerHeap \<Rightarrow> u64 \<times> TimerHeap" where
  "timerHeapPop h = (let t = timerHeapPeek h in (t, if t \<noteq> 0 then timerHeapRemove t h else h))"

definition timerHeapCheck :: "TimerHeap \<Rightarrow> bool" where
  "timerHeapCheck h \<longleftrightarrow> count h \<le> TIMER_HEAP_CAP
     \<and> list_all (\<lambda>i. slot h ! i \<noteq> 0 \<and> heapIndex (timers h (slot h ! i)) = i
         \<and> \<not> (i > 0 \<and> timerBefore h (slot h ! i) (slot h ! ((i - 1) div 2)))) [0..<count h]
     \<and> list_all (\<lambda>i. slot h ! i = 0) [count h..<TIMER_HEAP_CAP]"

section \<open>The heap as a priority queue\<close>

definition tkey :: "TimerHeap \<Rightarrow> u64 \<Rightarrow> u64 \<times> u64" where
  "tkey h t = (deadlineNs (timers h t), seq (timers h t))"

lemma timerBefore_key: "timerBefore h a b \<longleftrightarrow> tkey h a < tkey h b"
  by (auto simp: timerBefore_def tkey_def)

lemma tkey_heapPlace [simp]: "tkey (heapPlace i t h) = tkey h"
  by (auto simp: tkey_def heapPlace_def fun_eq_iff)

definition par :: "nat \<Rightarrow> nat" where
  "par i = (i - 1) div 2"

lemma par_less: "0 < i \<Longrightarrow> par i < i"
  by (simp add: par_def)

lemma par_child: "0 < j \<Longrightarrow> par j = i \<longleftrightarrow> j = 2 * i + 1 \<or> j = 2 * i + 2"
  by (auto simp: par_def)

text \<open>
  The order of a heap under a key, with a hole at \<open>i\<close>: while sifting up only the hole may be smaller
  than its parent, while sifting down only the children of the hole may be smaller than it; in both
  cases the children of the hole respect the parent of the hole.
\<close>

definition heapOrd :: "('a \<Rightarrow> 'k :: linorder) \<Rightarrow> 'a list \<Rightarrow> nat \<Rightarrow> bool" where
  "heapOrd k A n \<longleftrightarrow> (\<forall>j < n. 0 < j \<longrightarrow> k (A ! par j) \<le> k (A ! j))"

definition grandOrd :: "('a \<Rightarrow> 'k :: linorder) \<Rightarrow> 'a list \<Rightarrow> nat \<Rightarrow> nat \<Rightarrow> bool" where
  "grandOrd k A n i \<longleftrightarrow> (\<forall>j < n. 0 < j \<longrightarrow> 0 < i \<longrightarrow> par j = i \<longrightarrow> k (A ! par i) \<le> k (A ! j))"

definition upOrd :: "('a \<Rightarrow> 'k :: linorder) \<Rightarrow> 'a list \<Rightarrow> nat \<Rightarrow> nat \<Rightarrow> bool" where
  "upOrd k A n i \<longleftrightarrow> (\<forall>j < n. 0 < j \<longrightarrow> j \<noteq> i \<longrightarrow> k (A ! par j) \<le> k (A ! j)) \<and> grandOrd k A n i"

definition downOrd :: "('a \<Rightarrow> 'k :: linorder) \<Rightarrow> 'a list \<Rightarrow> nat \<Rightarrow> nat \<Rightarrow> bool" where
  "downOrd k A n i \<longleftrightarrow> (\<forall>j < n. 0 < j \<longrightarrow> par j \<noteq> i \<longrightarrow> k (A ! par j) \<le> k (A ! j)) \<and> grandOrd k A n i"

lemma upOrd_step:
  assumes u: "upOrd k A n i" and i: "0 < i" "i < n" "n \<le> length A" and lt: "k (A ! i) < k (A ! par i)"
  shows "upOrd k (A[i := A ! par i, par i := A ! i]) n (par i)"
proof -
  let ?p = "par i" and ?B = "A[i := A ! par i, par i := A ! i]"
  have pi: "?p < i" by (rule par_less [OF i(1)])
  have B: "?B ! i = A ! ?p" "?B ! ?p = A ! i" "\<And>j. j \<noteq> i \<Longrightarrow> j \<noteq> ?p \<Longrightarrow> ?B ! j = A ! j"
    using i pi by (auto simp: nth_list_update)
  have U: "\<And>j. j < n \<Longrightarrow> 0 < j \<Longrightarrow> j \<noteq> i \<Longrightarrow> k (A ! par j) \<le> k (A ! j)"
    and G: "\<And>j. j < n \<Longrightarrow> 0 < j \<Longrightarrow> par j = i \<Longrightarrow> k (A ! ?p) \<le> k (A ! j)"
    using u i by (auto simp: upOrd_def grandOrd_def)
  have "k (?B ! par j) \<le> k (?B ! j)" if j: "j < n" "0 < j" "j \<noteq> ?p" for j
  proof -
    consider "j = i" | "j \<noteq> i" "par j = i" | "j \<noteq> i" "par j = ?p" | "j \<noteq> i" "par j \<noteq> i" "par j \<noteq> ?p" by blast
    then show ?thesis
    proof cases
      case 1
      then show ?thesis using lt by (simp only: B)
    next
      case 2
      then show ?thesis using G [OF j(1,2)] B(1) B(3) [OF 2(1) j(3)] by simp
    next
      case 3
      then have "k (A ! ?p) \<le> k (A ! j)" using U [OF j(1,2) 3(1)] by simp
      then have "k (A ! i) \<le> k (A ! j)" using lt by (meson less_imp_le order_trans)
      then show ?thesis using B(2) B(3) [OF 3(1) j(3)] 3(2) by simp
    next
      case 4
      then show ?thesis using U [OF j(1,2) 4(1)] B(3) [OF 4(1) j(3)] B(3) [OF 4(2,3)] by simp
    qed
  qed
  moreover have "grandOrd k ?B n ?p"
    unfolding grandOrd_def
  proof (intro allI impI)
    fix j assume j: "j < n" "0 < j" "0 < ?p" "par j = ?p"
    have pp: "par ?p < ?p" by (rule par_less [OF j(3)])
    have gp: "k (A ! par ?p) \<le> k (A ! ?p)" using U [of ?p] j(3) pi i(2) by simp
    have bp: "?B ! par ?p = A ! par ?p" using pp pi by (intro B(3)) auto
    show "k (?B ! par ?p) \<le> k (?B ! j)"
    proof (cases "j = i")
      case True
      then show ?thesis using gp bp B(1) by simp
    next
      case False
      have "j \<noteq> ?p" using j(4) par_less [OF j(2)] by auto
      then have "?B ! j = A ! j" using False by (intro B(3)) auto
      moreover have "k (A ! ?p) \<le> k (A ! j)" using U [OF j(1,2) False] j(4) by simp
      ultimately show ?thesis using gp bp by simp
    qed
  qed
  ultimately show ?thesis by (simp add: upOrd_def)
qed

lemma upOrd_done:
  assumes "upOrd k A n i" "i = 0 \<or> \<not> k (A ! i) < k (A ! par i)"
  shows "heapOrd k A n"
  using assms unfolding upOrd_def heapOrd_def by (metis leI not_gr_zero)

lemma downOrd_step:
  assumes d: "downOrd k A n i" and c: "c < n" "0 < c" "par c = i" "n \<le> length A"
    and mn: "\<And>j. j < n \<Longrightarrow> 0 < j \<Longrightarrow> par j = i \<Longrightarrow> k (A ! c) \<le> k (A ! j)" and lt: "k (A ! c) < k (A ! i)"
  shows "downOrd k (A[i := A ! c, c := A ! i]) n c"
proof -
  let ?B = "A[i := A ! c, c := A ! i]"
  have ic: "i < c" using par_less [OF c(2)] c(3) by simp
  have B: "?B ! i = A ! c" "?B ! c = A ! i" "\<And>j. j \<noteq> i \<Longrightarrow> j \<noteq> c \<Longrightarrow> ?B ! j = A ! j"
    using c ic by (auto simp: nth_list_update)
  have D: "\<And>j. j < n \<Longrightarrow> 0 < j \<Longrightarrow> par j \<noteq> i \<Longrightarrow> k (A ! par j) \<le> k (A ! j)"
    and G: "\<And>j. j < n \<Longrightarrow> 0 < j \<Longrightarrow> 0 < i \<Longrightarrow> par j = i \<Longrightarrow> k (A ! par i) \<le> k (A ! j)"
    using d by (auto simp: downOrd_def grandOrd_def)
  have "k (?B ! par j) \<le> k (?B ! j)" if j: "j < n" "0 < j" "par j \<noteq> c" for j
  proof -
    have pj: "par j < j" by (rule par_less [OF j(2)])
    consider "j = c" | "j \<noteq> c" "par j = i" | "j = i" | "j \<noteq> i" "j \<noteq> c" "par j \<noteq> i" by blast
    then show ?thesis
    proof cases
      case 1
      then show ?thesis using lt B(1,2) c(3) by simp
    next
      case 2
      then show ?thesis using mn [OF j(1,2) 2(2)] B(1) B(3) [of j] pj by simp
    next
      case 3
      then have "?B ! par i = A ! par i" using pj ic by (intro B(3)) auto
      then show ?thesis using 3 G [OF c(1,2) _ c(3)] j(2) B(1) by simp
    next
      case 4
      then show ?thesis using D [OF j(1,2) 4(3)] B(3) [of j] B(3) [of "par j"] j(3) by simp
    qed
  qed
  moreover have "grandOrd k ?B n c"
    unfolding grandOrd_def
  proof (intro allI impI)
    fix j assume j: "j < n" "0 < j" "0 < c" "par j = c"
    have "j > c" using par_less [OF j(2)] j(4) by simp
    then have "?B ! j = A ! j" using ic by (intro B(3)) auto
    moreover have "k (A ! c) \<le> k (A ! j)" using D [OF j(1,2)] j(4) ic by simp
    ultimately show "k (?B ! par c) \<le> k (?B ! j)" using B(1) c(3) by simp
  qed
  ultimately show ?thesis by (simp add: downOrd_def)
qed

lemma heapOrd_min:
  assumes "heapOrd k A n" "j < n"
  shows "k (A ! 0) \<le> k (A ! j)"
  using assms(2)
proof (induction j rule: less_induct)
  case (less j)
  show ?case
  proof (cases "j = 0")
    case False
    then have "k (A ! 0) \<le> k (A ! par j)" using less par_less [of j] by simp
    also have "\<dots> \<le> k (A ! j)" using assms(1) less.prems False by (simp add: heapOrd_def)
    finally show ?thesis .
  qed simp
qed

text \<open>A heap with a hole at \<open>i\<close> that is to receive \<open>t\<close>, and what sifting makes of it.\<close>

definition holeOk :: "TimerHeap \<Rightarrow> u64 \<Rightarrow> nat \<Rightarrow> bool" where
  "holeOk h t i \<longleftrightarrow> count h \<le> length (slot h) \<and> i < count h
     \<and> (\<forall>j < count h. j \<noteq> i \<longrightarrow> heapIndex (timers h (slot h ! j)) = j \<and> slot h ! j \<noteq> t)"

definition sifted :: "TimerHeap \<Rightarrow> u64 list \<Rightarrow> TimerHeap \<Rightarrow> bool" where
  "sifted h A h' \<longleftrightarrow> count h' = count h \<and> nextSeq h' = nextSeq h \<and> length (slot h') = length (slot h)
     \<and> (\<forall>j \<ge> count h. slot h' ! j = slot h ! j)
     \<and> mset (take (count h) (slot h')) = mset (take (count h) A)
     \<and> heapOrd (tkey h) (slot h') (count h)
     \<and> (\<forall>j < count h. heapIndex (timers h' (slot h' ! j)) = j)
     \<and> (\<forall>x. \<exists>k. timers h' x = (timers h x)\<lparr>heapIndex := k\<rparr>)
     \<and> (\<forall>x. x \<notin> set (take (count h) A) \<longrightarrow> timers h' x = timers h x)"

lemma heapPlace_fields [simp]:
  "count (heapPlace i t h) = count h" "nextSeq (heapPlace i t h) = nextSeq h" "slot (heapPlace i t h) = (slot h)[i := t]"
  "timers (heapPlace i t h) = (timers h)(t := (timers h t)\<lparr>heapIndex := i\<rparr>)"
  by (simp_all add: heapPlace_def)

lemma place_sifted:
  assumes h: "holeOk h t i" and o: "heapOrd (tkey h) ((slot h)[i := t]) (count h)"
  shows "sifted h ((slot h)[i := t]) (heapPlace i t h)"
proof -
  have i: "i < count h" "count h \<le> length (slot h)" and H: "\<And>j. j < count h \<Longrightarrow> j \<noteq> i \<Longrightarrow> heapIndex (timers h (slot h ! j)) = j \<and> slot h ! j \<noteq> t"
    using h by (auto simp: holeOk_def)
  have "t \<in> set (take (count h) ((slot h)[i := t]))"
    using i by (simp add: take_update_swap set_update_memI)
  moreover have "heapIndex (timers (heapPlace i t h) ((slot h)[i := t] ! j)) = j" if "j < count h" for j
    using H [OF that] that i by (cases "j = i") auto
  moreover have "\<exists>k. timers (heapPlace i t h) x = (timers h x)\<lparr>heapIndex := k\<rparr>" for x
    by (cases "x = t") (auto intro: exI [of _ "heapIndex (timers h x)"])
  ultimately show ?thesis using o i by (auto simp: sifted_def)
qed

lemma hole_moves:
  assumes h: "holeOk h t i" and c: "c < count h" "c \<noteq> i"
  defines "h1 \<equiv> heapPlace i (slot h ! c) h" and "A \<equiv> (slot h)[i := t]"
  shows "holeOk h1 t c" "(slot h1)[c := t] = A[i := A ! c, c := A ! i]" "A ! i = t" "A ! c = slot h ! c"
    and "sifted h1 ((slot h1)[c := t]) h' \<Longrightarrow> sifted h A h'"
proof -
  have i: "i < count h" "count h \<le> length (slot h)" and H: "\<And>j. j < count h \<Longrightarrow> j \<noteq> i \<Longrightarrow> heapIndex (timers h (slot h ! j)) = j \<and> slot h ! j \<noteq> t"
    using h by (auto simp: holeOk_def)
  show A: "A ! i = t" "A ! c = slot h ! c" using i c by (auto simp: A_def)
  have "heapIndex (timers h1 (slot h1 ! j)) = j \<and> slot h1 ! j \<noteq> t" if "j < count h" "j \<noteq> c" for j
  proof (cases "j = i")
    case True
    then show ?thesis using i H [OF c] by (simp add: h1_def)
  next
    case False
    have "slot h ! j \<noteq> slot h ! c" using H [OF that(1) False] H [OF c] that(2) by metis
    then show ?thesis using False H [OF that(1) False] by (simp add: h1_def)
  qed
  then show "holeOk h1 t c" using i c by (simp add: holeOk_def h1_def)
  show eq: "(slot h1)[c := t] = A[i := A ! c, c := A ! i]" using A c by (simp add: h1_def A_def)
  assume s: "sifted h1 ((slot h1)[c := t]) h'"
  have ms: "mset (take (count h) (A[i := A ! c, c := A ! i])) = mset (take (count h) A)"
    using i c mset_swap [of c "take (count h) A" i] by (simp add: take_update_swap A_def)
  have st: "set (take (count h) (A[i := A ! c, c := A ! i])) = set (take (count h) A)"
    by (metis ms set_mset_mset)
  have t: "\<exists>k. timers h1 x = (timers h x)\<lparr>heapIndex := k\<rparr>" for x
    by (cases "x = slot h ! c") (auto simp: h1_def intro: exI [of _ "heapIndex (timers h x)"])
  have "\<exists>k. timers h' x = (timers h x)\<lparr>heapIndex := k\<rparr>" for x
  proof -
    obtain k1 k2 where "timers h' x = (timers h1 x)\<lparr>heapIndex := k1\<rparr>" "timers h1 x = (timers h x)\<lparr>heapIndex := k2\<rparr>"
      using s t [of x] unfolding sifted_def by metis
    then show ?thesis by auto
  qed
  moreover have "timers h1 x = timers h x" if "x \<notin> set (take (count h) A)" for x
  proof -
    have "A ! c \<in> set (take (count h) A)" using c i by (metis A_def length_list_update length_take min.absorb2 nth_mem nth_take)
    then show ?thesis using that A by (auto simp: h1_def)
  qed
  moreover have "tkey h1 = tkey h" by (simp add: h1_def)
  moreover have "\<forall>j \<ge> count h. slot h1 ! j = slot h ! j" using i by (auto simp: h1_def)
  ultimately show "sifted h A h'"
    using s c unfolding sifted_def eq using ms st by (simp add: h1_def)
qed

lemma siftUpLoop_sifted:
  assumes "holeOk h t i" "upOrd (tkey h) ((slot h)[i := t]) (count h) i"
  shows "sifted h ((slot h)[i := t]) (siftUpLoop t i h)"
  using assms
proof (induction t i h rule: siftUpLoop.induct)
  case (1 t i h)
  let ?A = "(slot h)[i := t]" and ?p = "(i - 1) div 2"
  have i: "i < count h" "count h \<le> length (slot h)" using 1(2) by (auto simp: holeOk_def)
  have p: "?p = par i" by (simp add: par_def)
  show ?case
  proof (cases "i > 0 \<and> timerBefore h t (slot h ! ?p)")
    case False
    have "?A ! par i = slot h ! ?p" if "i > 0" using par_less [OF that] unfolding p by simp
    then have "heapOrd (tkey h) ?A (count h)"
      using upOrd_done [OF 1(3)] False i by (cases "i = 0") (auto simp: timerBefore_key)
    then show ?thesis using place_sifted [OF 1(2)] by (simp only: siftUpLoop.simps [of t i h] False if_False)
  next
    case True
    then have pl: "?p < count h" "?p \<noteq> i" using par_less [of i] i by (auto simp: p)
    note M = hole_moves [OF 1(2) pl]
    have lt: "tkey h (?A ! i) < tkey h (?A ! par i)" using True M(3,4) by (simp add: timerBefore_key par_def)
    have up: "upOrd (tkey (heapPlace i (slot h ! ?p) h)) ((slot (heapPlace i (slot h ! ?p) h))[?p := t]) (count (heapPlace i (slot h ! ?p) h)) ?p"
      unfolding M(2) unfolding p using upOrd_step [OF 1(3) conjunct1 [OF True] i(1) _ lt] i by simp
    show ?thesis using 1(1) [OF True M(1) up] M(5) by (simp only: siftUpLoop.simps [of t i h] True if_True simp_thms)
  qed
qed

lemma bestChild_min:
  assumes "2 * i + 1 < count h"
  shows "bestChild h i < count h" "par (bestChild h i) = i" "0 < bestChild h i"
    "j < count h \<Longrightarrow> 0 < j \<Longrightarrow> par j = i \<Longrightarrow> tkey h (slot h ! bestChild h i) \<le> tkey h (slot h ! j)"
proof -
  show b: "bestChild h i < count h" "par (bestChild h i) = i" "0 < bestChild h i"
    using assms by (auto simp: bestChild_def Let_def par_def)
  show "tkey h (slot h ! bestChild h i) \<le> tkey h (slot h ! j)" if "j < count h" "0 < j" "par j = i"
    using that assms by (auto simp: par_child bestChild_def Let_def timerBefore_key not_less)
qed

lemma siftDownLoop_sifted:
  assumes "holeOk h t i" "downOrd (tkey h) ((slot h)[i := t]) (count h) i"
  shows "sifted h ((slot h)[i := t]) (siftDownLoop t i h)"
  using assms
proof (induction t i h rule: siftDownLoop.induct)
  case (1 t i h)
  let ?A = "(slot h)[i := t]" and ?c = "bestChild h i"
  have i: "i < count h" "count h \<le> length (slot h)" using 1(2) by (auto simp: holeOk_def)
  show ?case
  proof (cases "2 * i + 1 < count h \<and> timerBefore h (slot h ! ?c) t")
    case False
    have "tkey h (?A ! par j) \<le> tkey h (?A ! j)" if j: "j < count h" "0 < j" for j
    proof (cases "par j = i")
      case True
      then have c: "2 * i + 1 < count h" using j by (auto simp: par_child)
      have "j \<noteq> i" using par_less [OF j(2)] True by simp
      then show ?thesis using bestChild_min(4) [OF c j True] False c True i by (simp add: timerBefore_key not_less)
    next
      case False
      then show ?thesis using 1(3) j by (simp add: downOrd_def)
    qed
    then have "heapOrd (tkey h) ?A (count h)" by (simp add: heapOrd_def)
    then show ?thesis using place_sifted [OF 1(2)] by (simp only: siftDownLoop.simps [of t i h] False if_False)
  next
    case True
    note C = bestChild_min [OF conjunct1 [OF True]]
    have ci: "?c \<noteq> i" using par_less [OF C(3)] C(2) by simp
    note M = hole_moves [OF 1(2) C(1) ci]
    have lt: "tkey h (?A ! ?c) < tkey h (?A ! i)" using True M(3,4) by (simp add: timerBefore_key)
    have mn: "tkey h (?A ! ?c) \<le> tkey h (?A ! j)" if "j < count h" "0 < j" "par j = i" for j
    proof -
      have "j \<noteq> i" using par_less [OF that(2)] that(3) by simp
      then show ?thesis using C(4) [OF that] M(4) by simp
    qed
    have dn: "downOrd (tkey (heapPlace i (slot h ! ?c) h)) ((slot (heapPlace i (slot h ! ?c) h))[?c := t]) (count (heapPlace i (slot h ! ?c) h)) ?c"
      unfolding M(2) unfolding tkey_heapPlace heapPlace_fields(1) by (rule downOrd_step [OF 1(3) C(1,3,2) _ mn lt]) (use i in simp_all)
    show ?thesis using 1(1) [OF True M(1) dn] M(5) by (simp only: siftDownLoop.simps [of t i h] True if_True simp_thms)
  qed
qed

definition heapWf :: "TimerHeap \<Rightarrow> bool" where
  "heapWf h \<longleftrightarrow> length (slot h) = TIMER_HEAP_CAP \<and> timerHeapCheck h"

definition armed :: "TimerHeap \<Rightarrow> u64 set" where
  "armed h = set (take (count h) (slot h))"

lemma heapWf_iff:
  "heapWf h \<longleftrightarrow> length (slot h) = TIMER_HEAP_CAP \<and> count h \<le> TIMER_HEAP_CAP
     \<and> (\<forall>i < count h. slot h ! i \<noteq> 0 \<and> heapIndex (timers h (slot h ! i)) = i) \<and> heapOrd (tkey h) (slot h) (count h)
     \<and> (\<forall>i. count h \<le> i \<and> i < TIMER_HEAP_CAP \<longrightarrow> slot h ! i = 0)"
proof -
  have "list_all (\<lambda>i. slot h ! i \<noteq> 0 \<and> heapIndex (timers h (slot h ! i)) = i
         \<and> \<not> (i > 0 \<and> timerBefore h (slot h ! i) (slot h ! ((i - 1) div 2)))) [0..<count h]
     \<longleftrightarrow> (\<forall>i < count h. slot h ! i \<noteq> 0 \<and> heapIndex (timers h (slot h ! i)) = i) \<and> heapOrd (tkey h) (slot h) (count h)"
    by (simp add: list_all_iff heapOrd_def par_def timerBefore_key not_less Ball_def) blast
  moreover have "list_all (\<lambda>i. slot h ! i = 0) [count h..<TIMER_HEAP_CAP]
     \<longleftrightarrow> (\<forall>i. count h \<le> i \<and> i < TIMER_HEAP_CAP \<longrightarrow> slot h ! i = 0)" by (auto simp: list_all_iff)
  ultimately show ?thesis unfolding heapWf_def timerHeapCheck_def by blast
qed

lemma armed_iff: "count h \<le> length (slot h) \<Longrightarrow> t \<in> armed h \<longleftrightarrow> (\<exists>i < count h. slot h ! i = t)"
  by (auto simp: armed_def in_set_conv_nth)

lemma sifted_wf:
  assumes s: "sifted h A h'" and h: "length (slot h) = TIMER_HEAP_CAP" "count h \<le> TIMER_HEAP_CAP"
    "\<forall>i. count h \<le> i \<and> i < TIMER_HEAP_CAP \<longrightarrow> slot h ! i = 0" and A: "0 \<notin> set (take (count h) A)"
  shows "heapWf h'" "armed h' = set (take (count h) A)" "tkey h' = tkey h"
proof -
  have "mset (take (count h) (slot h')) = mset (take (count h) A)" using s by (simp add: sifted_def)
  from arg_cong [OF this, of set_mset] have st: "set (take (count h) (slot h')) = set (take (count h) A)" by simp
  show "armed h' = set (take (count h) A)" using s st by (simp add: armed_def sifted_def)
  have "tkey h' x = tkey h x" for x
  proof -
    obtain k where "timers h' x = (timers h x)\<lparr>heapIndex := k\<rparr>" using s unfolding sifted_def by blast
    then show ?thesis by (simp add: tkey_def)
  qed
  then show tk: "tkey h' = tkey h" by (rule ext)
  have "slot h' ! i \<noteq> 0" if "i < count h" for i
  proof -
    have "slot h' ! i \<in> set (take (count h) (slot h'))" using that s h by (auto simp: sifted_def in_set_conv_nth)
    then show ?thesis using st A by auto
  qed
  then show "heapWf h'" unfolding heapWf_iff tk using s h by (simp add: sifted_def)
qed

lemma armed_placed:
  assumes "i < n" "n \<le> length A"
  shows "set (take n (A[i := t])) = insert t ((\<lambda>j. A ! j) ` ({..<n} - {i}))"
proof -
  have "set (take n (A[i := t])) = (\<lambda>j. A[i := t] ! j) ` {..<n}" using assms nth_image [of n "A[i := t]"] by (simp add: atLeast0LessThan)
  moreover have "{..<n} = insert i ({..<n} - {i})" using assms by auto
  ultimately have "set (take n (A[i := t])) = insert (A[i := t] ! i) ((\<lambda>j. A[i := t] ! j) ` ({..<n} - {i}))"
    by (metis image_insert)
  moreover have "(\<lambda>j. A[i := t] ! j) ` ({..<n} - {i}) = (\<lambda>j. A ! j) ` ({..<n} - {i})" by (rule image_cong) auto
  ultimately show ?thesis using assms by simp
qed

lemma slot_inj:
  assumes "heapWf h" "i < count h" "j < count h" "slot h ! i = slot h ! j"
  shows "i = j"
  using assms unfolding heapWf_iff by metis

lemma insert_correct:
  assumes w: "heapWf h" and t: "t \<noteq> 0" "t \<notin> armed h" and c: "count h < TIMER_HEAP_CAP"
  shows "\<exists>h'. timerHeapInsert t h = Inr h' \<and> heapWf h' \<and> armed h' = insert t (armed h) \<and> count h' = count h + 1
     \<and> (\<forall>x. x \<noteq> t \<longrightarrow> tkey h' x = tkey h x) \<and> tkey h' t = (deadlineNs (timers h t), nextSeq h) \<and> nextSeq h' = nextSeq h + 1"
proof -
  define h1 where "h1 = h\<lparr>timers := (timers h)(t := (timers h t)\<lparr>seq := nextSeq h, tstate := TIMER_ARMED\<rparr>), nextSeq := nextSeq h + 1, count := count h + 1\<rparr>"
  define h2 where "h2 = heapPlace (count h) t h1"
  have r: "timerHeapInsert t h = Inr (siftUpLoop t (count h) h2)"
    using c w by (simp add: timerHeapInsert_def siftUp_def Let_def h2_def h1_def heapPlace_def heapWf_iff)
  note W = w [unfolded heapWf_iff]
  have nt: "slot h ! j \<noteq> t" if "j < count h" for j using t(2) that W by (auto simp: armed_iff)
  have key: "tkey h2 x = tkey h x" if "x \<noteq> t" for x using that by (simp add: h2_def h1_def tkey_def)
  have hole: "holeOk h2 t (count h)"
    using W c nt by (auto simp: holeOk_def h2_def h1_def)
  have A: "(slot h2)[count h := t] = (slot h)[count h := t]" "count h2 = count h + 1" by (simp_all add: h2_def h1_def)
  have up: "upOrd (tkey h2) ((slot h2)[count h := t]) (count h2) (count h)"
    unfolding upOrd_def grandOrd_def A
  proof (intro conjI allI impI)
    fix j assume j: "j < count h + 1" "0 < j" "j \<noteq> count h"
    then have "par j < count h" "j < count h" using par_less [of j] by auto
    moreover have "tkey h (slot h ! par j) \<le> tkey h (slot h ! j)" using W j by (simp add: heapOrd_def)
    ultimately show "tkey h2 ((slot h)[count h := t] ! par j) \<le> tkey h2 ((slot h)[count h := t] ! j)"
      using nt by (simp add: key)
  next
    fix j assume "j < count h + 1" "0 < j" "par j = count h"
    then show "tkey h2 ((slot h)[count h := t] ! par (count h)) \<le> tkey h2 ((slot h)[count h := t] ! j)"
      using par_less [of j] by simp
  qed
  note S = siftUpLoop_sifted [OF hole up]
  have st: "set (take (count h2) ((slot h2)[count h := t])) = insert t (armed h)"
  proof -
    have "(\<lambda>j. slot h ! j) ` ({..<Suc (count h)} - {count h}) = armed h" using W by (auto simp: armed_iff image_def lessThan_Suc)
    then show ?thesis unfolding A using armed_placed [of "count h" "count h + 1" "slot h" t] W c by simp
  qed
  have z: "0 \<notin> insert t (armed h)" using t(1) W by (auto simp: armed_iff)
  have "length (slot h2) = 256" "count h2 \<le> 256" "\<forall>i. count h2 \<le> i \<and> i < 256 \<longrightarrow> slot h2 ! i = 0"
    using W c by (auto simp: h2_def h1_def)
  note F = sifted_wf [OF S this, unfolded st, OF z]
  have "count (siftUpLoop t (count h) h2) = count h + 1" "nextSeq (siftUpLoop t (count h) h2) = nextSeq h + 1"
    using S by (simp_all add: sifted_def h2_def h1_def)
  moreover have "tkey h2 t = (deadlineNs (timers h t), nextSeq h)" by (simp add: tkey_def h2_def h1_def)
  ultimately show ?thesis using r F key by auto
qed

lemma remove_correct:
  assumes w: "heapWf h" and t: "t \<in> armed h"
  shows "heapWf (timerHeapRemove t h) \<and> armed (timerHeapRemove t h) = armed h - {t} \<and> tkey (timerHeapRemove t h) = tkey h"
proof -
  note W = w [unfolded heapWf_iff]
  obtain i where i: "i < count h" "slot h ! i = t" using t W by (auto simp: armed_iff)
  have hi: "heapIndex (timers h t) = i" using W i by auto
  define l where "l = count h - 1"
  define h1 where "h1 = h\<lparr>count := l, slot := (slot h)[l := 0]\<rparr>"
  have l: "l < count h" "count h = Suc l" "l < 256" using i W by (auto simp: l_def)
  have inj: "slot h ! j = slot h ! k \<Longrightarrow> j < count h \<Longrightarrow> k < count h \<Longrightarrow> j = k" for j k using slot_inj [OF w] by blast
  have key1: "tkey h1 = tkey h" by (simp add: h1_def tkey_def fun_eq_iff)
  show ?thesis
  proof (cases "i = l")
    case True
    then have r: "timerHeapRemove t h = h1" by (simp add: timerHeapRemove_def hi h1_def l_def Let_def)
    have "heapOrd (tkey h) ((slot h)[l := 0]) l"
      unfolding heapOrd_def
    proof (intro allI impI)
      fix j assume j: "j < l" "0 < j"
      then have "par j < l" using par_less [of j] by simp
      then show "tkey h ((slot h)[l := 0] ! par j) \<le> tkey h ((slot h)[l := 0] ! j)" using W j l by (simp add: heapOrd_def)
    qed
    moreover have "\<forall>j. l \<le> j \<and> j < 256 \<longrightarrow> (slot h)[l := 0] ! j = 0" using W l by (auto simp: nth_list_update)
    ultimately have "heapWf h1" using W l unfolding heapWf_iff key1 by (simp add: h1_def)
    moreover have "armed h1 = armed h - {t}"
    proof -
      have "armed h = (\<lambda>j. slot h ! j) ` {..<count h}" using W by (auto simp: armed_iff)
      moreover have "armed h1 = (\<lambda>j. slot h ! j) ` {..<l}"
        using W l nth_image [of l "slot h"] by (simp add: armed_def h1_def atLeast0LessThan)
      moreover have "t \<notin> (\<lambda>j. slot h ! j) ` {..<l}" 
      proof
        assume "t \<in> (\<lambda>j. slot h ! j) ` {..<l}"
        then obtain x where "x < l" "slot h ! x = t" by auto
        then show False using inj [of x i] i True l by simp
      qed
      ultimately show ?thesis using i True l by (auto simp: lessThan_Suc)
    qed
    ultimately show ?thesis using key1 r by simp
  next
    case False
    define mv h2 where "mv = slot h ! l" and "h2 = heapPlace i mv h1"
    have il: "i < l" using False i l by simp
    have r: "timerHeapRemove t h = (if i > 0 \<and> timerBefore h2 mv (slot h2 ! par i) then siftUp i h2 else siftDown i h2)"
      unfolding timerHeapRemove_def Let_def hi l_def [symmetric] h1_def [symmetric] h2_def [symmetric] mv_def [symmetric] par_def
      using False by simp
    have A: "(slot h2)[i := mv] = slot h2" "count h2 = l" "length (slot h2) = 256" "slot h2 ! i = mv" and key2: "tkey h2 = tkey h"
      and sl: "\<And>j. j < l \<Longrightarrow> j \<noteq> i \<Longrightarrow> slot h2 ! j = slot h ! j"
      using il l W key1 by (simp_all add: h2_def h1_def mv_def)
    have nm: "slot h ! j \<noteq> mv" if "j < l" for j using inj [of j l] that l unfolding mv_def by auto
    have nt: "slot h ! j \<noteq> t" if "j < count h" "j \<noteq> i" for j using inj [of j i] that i by auto
    have hole: "holeOk h2 mv i"
      using W il l nm by (auto simp: holeOk_def h2_def h1_def)
    have H: "tkey h (slot h ! par j) \<le> tkey h (slot h ! j)" if "j < l" "0 < j" for j using W that l by (simp add: heapOrd_def)
    have far: "tkey h (slot h2 ! par j) \<le> tkey h (slot h2 ! j)" if "j < l" "0 < j" "j \<noteq> i" "par j \<noteq> i" for j
      using H [OF that(1,2)] sl [OF that(1,3)] sl [of "par j"] that par_less [OF that(2)] by simp
    have grand: "grandOrd (tkey h) (slot h2) l i"
      unfolding grandOrd_def
    proof (intro allI impI)
      fix j assume j: "j < l" "0 < j" "0 < i" "par j = i"
      have "j \<noteq> i" using par_less [OF j(2)] j(4) by simp
      then have "slot h2 ! j = slot h ! j" "slot h2 ! par i = slot h ! par i" using sl j par_less [OF j(3)] il by auto
      then show "tkey h (slot h2 ! par i) \<le> tkey h (slot h2 ! j)" using H [OF j(1,2)] H [OF il j(3)] j(4) by simp
    qed
    have "sifted h2 (slot h2) (timerHeapRemove t h)"
    proof (cases "i > 0 \<and> timerBefore h2 mv (slot h2 ! par i)")
      case True
      then have lt: "tkey h mv < tkey h (slot h ! par i)" using sl [of "par i"] par_less [of i] il by (simp add: timerBefore_key key2)
      have "tkey h (slot h2 ! par j) \<le> tkey h (slot h2 ! j)" if j: "j < l" "0 < j" "j \<noteq> i" for j
      proof (cases "par j = i")
        case pj: True
        have "tkey h mv \<le> tkey h (slot h ! j)" using lt H [OF il] True H [OF j(1,2)] pj by simp
        then show ?thesis using pj A(4) sl [OF j(1,3)] by simp
      qed (use far [OF j] in simp)
      then have "upOrd (tkey h2) ((slot h2)[i := mv]) (count h2) i" using grand by (simp add: upOrd_def A key2)
      from siftUpLoop_sifted [OF hole this] show ?thesis by (simp only: r True if_True simp_thms siftUp_def A)
    next
      case nb: False
      have "tkey h (slot h2 ! par j) \<le> tkey h (slot h2 ! j)" if j: "j < l" "0 < j" "par j \<noteq> i" for j
        using nb far [OF j(1,2) _ j(3)] j A(4) by (cases "j = i") (auto simp: timerBefore_key key2 not_less)
      then have "downOrd (tkey h2) ((slot h2)[i := mv]) (count h2) i" using grand by (simp add: downOrd_def A key2)
      from siftDownLoop_sifted [OF hole this] show ?thesis by (simp only: r nb if_False siftDown_def A)
    qed
    moreover have st: "set (take (count h2) (slot h2)) = armed h - {t}"
    proof -
      have "set (take (count h2) (slot h2)) = (\<lambda>j. slot h2 ! j) ` {..<l}" using A l nth_image [of l "slot h2"] by (simp add: atLeast0LessThan)
      also have "\<dots> = insert mv ((\<lambda>j. slot h ! j) ` ({..<l} - {i}))" using il sl A(4) by (auto simp: image_def) (metis lessThan_iff)+
      also have "\<dots> = (\<lambda>j. slot h ! j) ` {..<count h} - {t}"
        using nt [of l] nt i il l by (auto simp: mv_def lessThan_Suc)
      finally show ?thesis using W by (auto simp: armed_iff)
    qed
    moreover have "0 \<notin> armed h - {t}" using W by (auto simp: armed_iff)
    moreover have "\<forall>i. count h2 \<le> i \<and> i < 256 \<longrightarrow> slot h2 ! i = 0" using W l il by (auto simp: h2_def h1_def nth_list_update)
    ultimately show ?thesis using sifted_wf [of h2 "slot h2" "timerHeapRemove t h"] A(2,3) l key2 by simp
  qed
qed

subsection \<open>The queue interface\<close>

text \<open>What the expiry pass relies on: popping yields a least element and keeps the rest.\<close>

locale priority_queue =
  fixes wf :: "'s \<Rightarrow> bool"
    and elems :: "'s \<Rightarrow> 'e set"
    and key :: "'s \<Rightarrow> 'e \<Rightarrow> 'k :: linorder"
    and pop :: "'s \<Rightarrow> ('e \<times> 's) option"
  assumes finite_elems: "wf s \<Longrightarrow> finite (elems s)"
    and pop_None: "wf s \<Longrightarrow> pop s = None \<longleftrightarrow> elems s = {}"
    and pop_min: "wf s \<Longrightarrow> pop s = Some (x, s') \<Longrightarrow> x \<in> elems s \<and> (\<forall>y \<in> elems s. key s x \<le> key s y)"
    and pop_rest: "wf s \<Longrightarrow> pop s = Some (x, s') \<Longrightarrow> wf s' \<and> elems s' = elems s - {x} \<and> key s' = key s"
begin

primrec drain :: "nat \<Rightarrow> 's \<Rightarrow> 'e list" where
  "drain 0 s = []"
| "drain (Suc n) s = (case pop s of None \<Rightarrow> [] | Some (x, s') \<Rightarrow> x # drain n s')"

lemma drain_sorted:
  "wf s \<Longrightarrow> card (elems s) \<le> n \<Longrightarrow>
     set (drain n s) = elems s \<and> distinct (drain n s) \<and> sorted (map (key s) (drain n s))"
proof (induction n arbitrary: s)
  case 0
  then show ?case using finite_elems by simp
next
  case (Suc n)
  show ?case
  proof (cases "pop s")
    case None
    then show ?thesis using pop_None [OF Suc.prems(1)] by simp
  next
    case (Some y)
    obtain x s' where y: "y = (x, s')" by fastforce
    note M = pop_min [OF Suc.prems(1) Some [unfolded y]] and R = pop_rest [OF Suc.prems(1) Some [unfolded y]]
    have "card (elems s') \<le> n" using R M Suc.prems finite_elems [OF Suc.prems(1)] by simp
    from Suc.IH [OF _ this] R have "set (drain n s') = elems s - {x}" "distinct (drain n s')" "sorted (map (key s) (drain n s'))" by auto
    then show ?thesis using Some y M by auto
  qed
qed

end

definition timerPop :: "TimerHeap \<Rightarrow> (u64 \<times> TimerHeap) option" where
  "timerPop h = (case timerHeapPop h of (t, h') \<Rightarrow> if t = 0 then None else Some (t, h'))"

lemma peek_correct:
  assumes w: "heapWf h"
  shows "timerHeapPeek h = 0 \<longleftrightarrow> armed h = {}"
    and "armed h \<noteq> {} \<Longrightarrow> timerHeapPeek h \<in> armed h \<and> (\<forall>y \<in> armed h. tkey h (timerHeapPeek h) \<le> tkey h y)"
proof -
  note W = w [unfolded heapWf_iff]
  have z: "\<And>t. t \<in> armed h \<longleftrightarrow> (\<exists>i < count h. slot h ! i = t)" using W by (simp add: armed_iff)
  show "timerHeapPeek h = 0 \<longleftrightarrow> armed h = {}" using W z by (cases "count h") (auto simp: timerHeapPeek_def)
  assume "armed h \<noteq> {}"
  then have c: "count h > 0" using z by auto
  then show "timerHeapPeek h \<in> armed h \<and> (\<forall>y \<in> armed h. tkey h (timerHeapPeek h) \<le> tkey h y)"
    using z heapOrd_min [of "tkey h" "slot h" "count h"] W by (auto simp: timerHeapPeek_def)
qed

interpretation timer: priority_queue heapWf armed tkey timerPop
proof (unfold_locales, goal_cases)
  case (1 s)
  then show ?case by (simp add: armed_def)
next
  case (2 s)
  then show ?case using peek_correct(1) [OF 2] by (auto simp: timerPop_def timerHeapPop_def Let_def)
next
  case (3 s x s')
  then show ?case using peek_correct [OF 3(1)] by (auto simp: timerPop_def timerHeapPop_def Let_def split: if_splits)
next
  case (4 s x s')
  then have x: "x = timerHeapPeek s" "x \<noteq> 0" "s' = timerHeapRemove x s"
    by (auto simp: timerPop_def timerHeapPop_def Let_def split: if_splits)
  then have "x \<in> armed s" using peek_correct [OF 4(1)] by auto
  then show ?case using remove_correct [OF 4(1)] x by simp
qed

section \<open>Arming and expiring sequences\<close>

primrec armAll :: "u64 list \<Rightarrow> TimerHeap \<Rightarrow> Status + TimerHeap" where
  "armAll [] h = Inr h"
| "armAll (t # ts) h = (case timerHeapInsert t h of Inl e \<Rightarrow> Inl e | Inr h' \<Rightarrow> armAll ts h')"

primrec popAll :: "nat \<Rightarrow> TimerHeap \<Rightarrow> u64 list" where
  "popAll 0 h = []"
| "popAll (Suc n) h = (case timerPop h of None \<Rightarrow> [] | Some (t, h') \<Rightarrow> t # popAll n h')"

lemma popAll_drain: "popAll n h = timer.drain n h"
  by (induction n arbitrary: h) (auto split: option.splits)

lemma card_armed:
  assumes "heapWf h" shows "card (armed h) = count h"
proof -
  have "count h \<le> length (slot h)" using assms by (simp add: heapWf_iff)
  moreover have "distinct (take (count h) (slot h))"
    using slot_inj [OF assms] calculation by (auto simp: distinct_conv_nth)
  ultimately show ?thesis by (simp add: armed_def distinct_card)
qed

lemma fold_zero_slots: "length s = n \<Longrightarrow> k \<le> n \<Longrightarrow> fold (\<lambda>i s. s[i := 0]) [0..<k] s = replicate k 0 @ drop k s"
  by (induction k) (auto simp: list_update_append replicate_append_same Cons_nth_drop_Suc [symmetric])

lemma init_correct:
  assumes "length (slot h) = TIMER_HEAP_CAP"
  shows "heapWf (timerHeapInit h)" and "armed (timerHeapInit h) = {}" and "nextSeq (timerHeapInit h) = 0"
    and "timers (timerHeapInit h) = timers h" and "count (timerHeapInit h) = 0"
  using assms by (simp_all add: heapWf_iff heapOrd_def armed_def timerHeapInit_def fold_zero_slots del: upt_rec_numeral upt_Suc)

lemma insort_pair:
  "\<forall>y \<in> set ys. s x < s y \<Longrightarrow> insort_key f x ys = insort_key (\<lambda>x. (f x, s x)) x ys"
  by (induction ys) (auto simp: less_le)

lemma sort_pair:
  "sorted_wrt (\<lambda>x y. s x < s y) xs \<Longrightarrow> sort_key f xs = sort_key (\<lambda>x. (f x, s x)) xs"
  by (induction xs) (simp_all add: insort_pair)

text \<open>Arming a list numbers its timers in order; with at most 256 of them the counter does not wrap.\<close>

lemma armAll_correct:
  assumes "heapWf h" "distinct ts" "0 \<notin> set ts" "set ts \<inter> armed h = {}" "count h + length ts \<le> TIMER_HEAP_CAP"
    and "nextSeq h = of_nat (count h)"
  shows "\<exists>h'. armAll ts h = Inr h' \<and> heapWf h' \<and> armed h' = armed h \<union> set ts \<and> count h' = count h + length ts
     \<and> (\<forall>x. x \<notin> set ts \<longrightarrow> tkey h' x = tkey h x)
     \<and> (\<forall>k < length ts. tkey h' (ts ! k) = (fst (tkey h (ts ! k)), of_nat (count h + k)))"
  using assms
proof (induction ts arbitrary: h)
  case (Cons t ts)
  obtain h1 where h1: "timerHeapInsert t h = Inr h1" "heapWf h1" "armed h1 = insert t (armed h)" "count h1 = count h + 1"
    "\<And>x. x \<noteq> t \<Longrightarrow> tkey h1 x = tkey h x" "tkey h1 t = (deadlineNs (timers h t), nextSeq h)" "nextSeq h1 = nextSeq h + 1"
    using insert_correct [of h t] Cons.prems by fastforce
  obtain h' where h': "armAll ts h1 = Inr h'" "heapWf h'" "armed h' = armed h1 \<union> set ts" "count h' = count h1 + length ts"
    "\<And>x. x \<notin> set ts \<Longrightarrow> tkey h' x = tkey h1 x"
    "\<And>k. k < length ts \<Longrightarrow> tkey h' (ts ! k) = (fst (tkey h1 (ts ! k)), of_nat (count h1 + k))"
    using Cons.IH [of h1] h1 Cons.prems by fastforce
  have "tkey h' ((t # ts) ! k) = (fst (tkey h ((t # ts) ! k)), of_nat (count h + k))" if k: "k < Suc (length ts)" for k
  proof (cases k)
    case 0
    then show ?thesis using h'(5) [of t] h1(6) Cons.prems by (simp add: tkey_def)
  next
    case (Suc j)
    then have j: "j < length ts" "ts ! j \<noteq> t" using k Cons.prems(2) by auto
    then show ?thesis using h'(6) [OF j(1)] h1(4,5) Suc by simp
  qed
  moreover have "tkey h' x = tkey h x" if "x \<notin> set (t # ts)" for x using that h'(5) h1(5) by simp
  ultimately show ?case using h1 h' by auto
qed auto

lemma armAll_popAll:
  assumes "heapWf h" "distinct ts" "0 \<notin> set ts" "length ts \<le> TIMER_HEAP_CAP" "armed h = {}" "count h = 0" "nextSeq h = 0"
  shows "\<exists>h'. armAll ts h = Inr h' \<and> popAll (length ts) h' = sort_key (\<lambda>t. deadlineNs (timers h t)) ts"
proof -
  obtain h' where h': "armAll ts h = Inr h'" "heapWf h'" "armed h' = set ts"
    "\<And>k. k < length ts \<Longrightarrow> tkey h' (ts ! k) = (deadlineNs (timers h (ts ! k)), of_nat k)"
    using armAll_correct [of h ts] assms by (auto simp: tkey_def)
  define s where "s = (\<lambda>t. snd (tkey h' t))"
  have key: "tkey h' t = (deadlineNs (timers h t), s t)" if "t \<in> set ts" for t
    using that h'(4) by (auto simp: in_set_conv_nth s_def)
  have "s (ts ! i) < s (ts ! j)" if "i < j" "j < length ts" for i j
    using that h'(4) [of i] h'(4) [of j] assms(4) by (simp add: s_def word_less_nat_alt unat_of_nat_eq)
  then have sw: "sorted_wrt (\<lambda>x y. s x < s y) ts" by (simp add: sorted_wrt_iff_nth_less)
  let ?d = "timer.drain (length ts) h'" and ?q = "sort_key (\<lambda>t. (deadlineNs (timers h t), s t)) ts"
  have d: "set ?d = set ts" "distinct ?d" "sorted (map (tkey h') ?d)"
    using timer.drain_sorted [OF h'(2), of "length ts"] h'(3) assms(2) by (simp_all add: distinct_card)
  have inj: "inj_on (tkey h') (set ts)"
    using sw key by (auto simp: inj_on_def in_set_conv_nth sorted_wrt_iff_nth_less) (metis nat_neq_iff order_less_irrefl nth_mem prod.inject)
  have m: "map (tkey h') ?q = map (\<lambda>t. (deadlineNs (timers h t), s t)) ?q" by (simp add: key)
  have q: "sorted (map (tkey h') ?q)" unfolding m by simp
  have "?d = ?q"
    using inj d q assms(2)
    by (intro map_sorted_distinct_set_unique [of "tkey h'"]) (simp_all add: distinct_map)
  then show ?thesis using h'(1) sort_pair [OF sw, of "\<lambda>t. deadlineNs (timers h t)"] by (auto simp: popAll_drain)
qed

definition demoHeap :: TimerHeap where
  "demoHeap = \<lparr>slot = replicate 256 0, count = 0, nextSeq = 0,
     timers = (\<lambda>t. \<lparr>deadlineNs = 1000 - t, seq = 0, fn = 0, tctx = 0, batchNext = 0, heapIndex = 0, tstate = TIMER_IDLE\<rparr>)\<rparr>"

lemma demoHeap_wf: "heapWf demoHeap"
  by (simp add: heapWf_iff heapOrd_def demoHeap_def)

lemma demoHeap_armed: "armed demoHeap = {}" "card (armed demoHeap) = 0"
  by (simp_all add: armed_def demoHeap_def)

section \<open>Properties\<close>

text \<open>
  C24: The array heap implements a set of armed timers ordered by deadline and arming order. From a
  well-formed heap, arming a new timer below the capacity succeeds, adds exactly it and orders it after
  every earlier timer of equal deadline; at the capacity it fails and nothing changes; cancelling
  removes exactly that timer; the timer at the top is one no other armed timer precedes; and every
  result is well formed again.
\<close>

theorem timer_heap_refines:
  assumes "heapWf h" and "t \<noteq> 0"
  shows "(t \<notin> armed h \<and> card (armed h) < TIMER_HEAP_CAP \<longrightarrow>
       (\<exists>h'. timerHeapInsert t h = Inr h' \<and> heapWf h' \<and> armed h' = insert t (armed h)
          \<and> tkey h' = (tkey h)(t := (deadlineNs (timers h t), nextSeq h))))
     \<and> (card (armed h) = TIMER_HEAP_CAP \<longrightarrow> timerHeapInsert t h = Inl STATUS_ERR_NO_MEMORY)
     \<and> (t \<in> armed h \<longrightarrow> heapWf (timerHeapRemove t h) \<and> armed (timerHeapRemove t h) = armed h - {t}
          \<and> tkey (timerHeapRemove t h) = tkey h)
     \<and> (armed h \<noteq> {} \<longrightarrow> timerHeapPeek h \<in> armed h \<and> (\<forall>y \<in> armed h. tkey h (timerHeapPeek h) \<le> tkey h y))"
proof -
  have c: "card (armed h) = count h" by (rule card_armed [OF assms(1)])
  have "\<exists>h'. timerHeapInsert t h = Inr h' \<and> heapWf h' \<and> armed h' = insert t (armed h)
          \<and> tkey h' = (tkey h)(t := (deadlineNs (timers h t), nextSeq h))" if "t \<notin> armed h" "count h < TIMER_HEAP_CAP"
    using insert_correct [OF assms that] by (auto simp: fun_eq_iff)
  then show ?thesis
    using remove_correct [OF assms(1)] peek_correct(2) [OF assms(1)] by (auto simp: c timerHeapInsert_def)
qed

theorem timer_heap_refines_witness:
  "\<exists>h'. timerHeapInsert 8 demoHeap = Inr h' \<and> heapWf h' \<and> armed h' = {8}"
  using timer_heap_refines [of demoHeap 8] by (auto simp: demoHeap_wf demoHeap_armed)

text \<open>
  C23: Timers fire in the right order: after arming any at most 256 distinct timers on an initialised
  heap, popping until the heap is empty returns exactly those timers, by increasing deadline, and
  timers of equal deadline in the order they were armed.
\<close>

theorem timers_expire_in_order:
  assumes "distinct ts" and "0 \<notin> set ts" and "length ts \<le> TIMER_HEAP_CAP" and "length (slot h) = TIMER_HEAP_CAP"
  shows "\<exists>h'. armAll ts (timerHeapInit h) = Inr h' \<and> popAll (length ts) h' = sort_key (\<lambda>t. deadlineNs (timers h t)) ts"
  using armAll_popAll [OF init_correct(1) assms(1-3), of h] init_correct [OF assms(4)] assms(4) by auto

theorem timers_expire_in_order_witness:
  "\<exists>h'. armAll [8, 16, 24] (timerHeapInit demoHeap) = Inr h' \<and> popAll 3 h' = [24, 16, 8]"
proof -
  have "sort_key (\<lambda>t. deadlineNs (timers demoHeap t)) [8, 16, 24] = [24, 16, 8]" "length (slot demoHeap) = 256"
    by (simp_all add: demoHeap_def)
  then show ?thesis using timers_expire_in_order [of "[8, 16, 24]" demoHeap] by (simp add: numeral_3_eq_3 del: armAll.simps popAll.simps)
qed

end
