(* ===== verification/Time_Core.thy ===== *)
theory Time_Core
  imports Prelude
begin

text \<open>
  The first half of the timekeeping core, \<open>kernel/core/time-core.c\<close>: tick-rate conversion by
  multiplier, the calendar and the real-time-clock decoder. Integers keep their C width. The day
  count of the calendar is proved equal to counting whole years and months.
\<close>

section \<open>Rates\<close>

abbreviation TIME_SHIFT :: nat where "TIME_SHIFT \<equiv> 32"

type_synonym u128 = "128 word"

definition timeScale :: "u64 \<Rightarrow> u64 \<Rightarrow> u64" where
  "timeScale v mul = ucast (drop_bit TIME_SHIFT ((ucast v :: u128) * ucast mul))"

definition timeMakeMult :: "u64 \<Rightarrow> u64 \<Rightarrow> Status + u64" where
  "timeMakeMult from' to =
     (if from' = 0 then Inl STATUS_ERR_INVALID
      else let whole = to div from'; rem = to mod from'
        in if whole \<ge> push_bit 32 1 \<or> rem \<ge> push_bit 32 1 then Inl STATUS_ERR_INVALID
           else Inr (push_bit 32 whole + push_bit 32 rem div from'))"

definition timeCalcHz :: "u64 \<Rightarrow> u64 \<Rightarrow> u64 \<Rightarrow> Status + u64" where
  "timeCalcHz ticks refTicks refHz =
     (if refTicks = 0 \<or> unat ticks * unat refHz \<ge> 2 ^ 64 then Inl STATUS_ERR_INVALID
      else Inr (ticks * refHz div refTicks))"

definition timeMedian3 :: "u64 \<Rightarrow> u64 \<Rightarrow> u64 \<Rightarrow> u64" where
  "timeMedian3 a b c =
     (let (a, b) = (if a > b then (b, a) else (a, b));
          b = (if b > c then c else b)
      in if a > b then a else b)"

definition timeRefDelta :: "u32 \<Rightarrow> u32 \<Rightarrow> u32 \<Rightarrow> u32" where
  "timeRefDelta now then' msk = (now - then') AND msk"

section \<open>Calendar and real-time clock\<close>

definition isLeap :: "u32 \<Rightarrow> bool" where
  "isLeap y \<longleftrightarrow> (y mod 4 = 0 \<and> y mod 100 \<noteq> 0) \<or> y mod 400 = 0"

definition monthDays :: "u32 list" where
  "monthDays = [31, 28, 31, 30, 31, 30, 31, 31, 30, 31, 30, 31]"

definition timeDaysInMonth :: "u32 \<Rightarrow> u32 \<Rightarrow> u32" where
  "timeDaysInMonth year mon =
     (if mon < 1 \<or> mon > 12 then 0
      else monthDays ! unat (mon - 1) + (if mon = 2 \<and> isLeap year then 1 else 0))"

definition timeCivilToEpoch :: "u32 \<Rightarrow> u32 \<Rightarrow> u32 \<Rightarrow> u32 \<Rightarrow> u32 \<Rightarrow> u32 \<Rightarrow> u64" where
  "timeCivilToEpoch year mon day hour min' sec =
     (let y = ucast (year - (if mon \<le> 2 then 1 else 0)) :: u64;
          era = y div 400;
          yoe = y - era * 400;
          doy = (153 * ucast (if mon > 2 then mon - 3 else mon + 9) + 2) div 5 + ucast day - 1;
          doe = yoe * 365 + yoe div 4 - yoe div 100 + doy;
          days = era * 146097 + doe - 719468
      in days * 86400 + ucast hour * 3600 + ucast min' * 60 + ucast sec)"

definition rtcField :: "u8 \<Rightarrow> bool \<Rightarrow> u32 option" where
  "rtcField v binary =
     (if binary then Some (ucast v)
      else if v AND 0x0F > 9 \<or> drop_bit 4 v > 9 then None
      else Some (ucast (drop_bit 4 v) * 10 + ucast (v AND 0x0F)))"

record TimeRtcRaw =
  r_sec :: u8
  r_min :: u8
  r_hour :: u8
  r_day :: u8
  r_mon :: u8
  r_year :: u8
  r_century :: u8
  regB :: u8
  hasCentury :: bool

record TimeCivil =
  year :: u32
  mon :: u32
  day :: u32
  hour :: u32
  minute :: u32
  second :: u32

definition rtcYear :: "TimeRtcRaw \<Rightarrow> bool \<Rightarrow> u32 \<Rightarrow> u32" where
  "rtcYear raw binary yy =
     (case (if hasCentury raw then rtcField (r_century raw) binary else None) of
        Some cent \<Rightarrow> if cent \<ge> 19 \<and> cent \<le> 29 then cent * 100 + yy else 2000 + yy
      | None \<Rightarrow> 2000 + yy)"

definition timeRtcDecode :: "TimeRtcRaw \<Rightarrow> Status + (u64 \<times> TimeCivil)" where
  "timeRtcDecode raw =
     (let binary = (regB raw AND 0x04 \<noteq> 0);
          h24 = (regB raw AND 0x02 \<noteq> 0);
          pm = (\<not> h24 \<and> r_hour raw AND 0x80 \<noteq> 0);
          hourReg = (if h24 then r_hour raw else r_hour raw AND 0x7F)
      in case (rtcField (r_sec raw) binary, rtcField (r_min raw) binary, rtcField hourReg binary,
               rtcField (r_day raw) binary, rtcField (r_mon raw) binary, rtcField (r_year raw) binary) of
           (Some sec, Some mi, Some hr0, Some dy, Some mo, Some yy) \<Rightarrow>
             if \<not> h24 \<and> (hr0 < 1 \<or> hr0 > 12) then Inl STATUS_ERR_INVALID
             else let hr = (if h24 then hr0 else hr0 mod 12 + (if pm then 12 else 0))
               in if yy > 99 then Inl STATUS_ERR_INVALID
                  else let yr = rtcYear raw binary yy
                    in if yr < 1970 \<or> sec > 59 \<or> mi > 59 \<or> hr > 23 \<or> mo < 1 \<or> mo > 12 \<or> dy < 1 \<or> dy > timeDaysInMonth yr mo
                       then Inl STATUS_ERR_INVALID
                       else Inr (timeCivilToEpoch yr mo dy hr mi sec,
                              \<lparr>year = yr, mon = mo, day = dy, hour = hr, minute = mi, second = sec\<rparr>)
         | _ \<Rightarrow> Inl STATUS_ERR_INVALID)"

section \<open>The calendar against a day count\<close>

declare unat_ucast_32_64 [simp] unat_ucast_8_32 [simp]

definition leapYear :: "nat \<Rightarrow> bool" where
  "leapYear y \<longleftrightarrow> (4 dvd y \<and> \<not> 100 dvd y) \<or> 400 dvd y"

definition monthLen :: "nat \<Rightarrow> nat \<Rightarrow> nat" where
  "monthLen y m = (if m = 2 then (if leapYear y then 29 else 28) else if m \<in> {4, 6, 9, 11} then 30 else 31)"

text \<open>Days from 1970-01-01, by counting whole years and whole months.\<close>

definition civilDays :: "nat \<Rightarrow> nat \<Rightarrow> nat \<Rightarrow> nat" where
  "civilDays y m d = (\<Sum>k = 1970..<y. if leapYear k then 366 else 365) + (\<Sum>k \<leftarrow> [0..<m - 1]. monthLen y (k + 1)) + d - 1"

definition yearDays :: "nat \<Rightarrow> nat" where
  "yearDays y = 365 * y + y div 4 + y div 400 - y div 100"

lemma yearDays_Suc: "yearDays (Suc y) = yearDays y + (if leapYear (Suc y) then 366 else 365)"
proof -
  have l: "y div 100 \<le> y div 4" "Suc y div 100 \<le> Suc y div 4" by (simp_all add: div_le_mono2)
  have d: "400 dvd Suc y \<Longrightarrow> 100 dvd Suc y" "100 dvd Suc y \<Longrightarrow> 4 dvd Suc y"
    using dvd_trans [of 100 400 "Suc y"] dvd_trans [of 4 100 "Suc y"] by auto
  have s: "Suc y div n = y div n + (if n dvd Suc y then 1 else 0)" for n
    by (simp add: div_Suc mod_eq_0_iff_dvd)
  show ?thesis
    using l d unfolding yearDays_def leapYear_def s
    by (cases "4 dvd Suc y"; cases "100 dvd Suc y"; cases "400 dvd Suc y") (simp_all add: ac_simps)
qed

lemma years_sum:
  assumes "1970 \<le> y"
  shows "(\<Sum>k = 1970..<y. if leapYear k then 366 else 365) + 719162 = yearDays (y - 1)"
  using assms
proof (induction y rule: nat_induct_at_least)
  case base
  then show ?case by (simp add: yearDays_def)
next
  case (Suc n)
  then obtain k where "n = Suc k" by (cases n) auto
  then show ?case using Suc yearDays_Suc [of k] by simp
qed

text \<open>The closed form of the code, over naturals.\<close>

definition epochDays :: "nat \<Rightarrow> nat \<Rightarrow> nat \<Rightarrow> nat" where
  "epochDays y m d = yearDays (if m \<le> 2 then y - 1 else y) + (153 * (if m > 2 then m - 3 else m + 9) + 2) div 5 + d - 1 - 719468"

lemma epochDays_civil:
  assumes "1970 \<le> y" "1 \<le> m" "m \<le> 12" "1 \<le> d"
  shows "epochDays y m d = civilDays y m d"
proof -
  define T where "T = (\<Sum>k = 1970..<y. if leapYear k then 366 else 365 :: nat)"
  have S: "yearDays (y - 1) = T + 719162" using years_sum [OF assms(1)] by (simp add: T_def)
  have Y: "yearDays y = T + 719162 + (if leapYear y then 366 else 365)"
    using yearDays_Suc [of "y - 1"] assms(1) S by simp
  have "m = 1 \<or> m = 2 \<or> m = 3 \<or> m = 4 \<or> m = 5 \<or> m = 6 \<or> m = 7 \<or> m = 8 \<or> m = 9 \<or> m = 10 \<or> m = 11 \<or> m = 12"
    using assms(2,3) by arith
  then show ?thesis
    using assms(4) unfolding epochDays_def civilDays_def monthLen_def T_def [symmetric]
    by (elim disjE) (simp_all add: upt_rec S [unfolded One_nat_def] Y)
qed

lemma yearDays_era:
  "y div 400 * 146097 + ((y mod 400) * 365 + (y mod 400) div 4 - (y mod 400) div 100) = yearDays y"
proof -
  define a b where "a = y div 400" and "b = y mod 400"
  have y: "y = 400 * a + b" by (simp add: a_def b_def)
  have y4: "b + (100 * a) * 4 = y" and y100: "b + (4 * a) * 100 = y" using y by simp_all
  have "y div 4 = 100 * a + b div 4" "y div 100 = 4 * a + b div 100"
    using div_mult_self1 [of 4 b "100 * a"] div_mult_self1 [of 100 b "4 * a"] unfolding y4 y100 by simp_all
  moreover have "y div 400 = a" by (simp add: a_def)
  moreover have "b div 100 \<le> b div 4" by (simp add: div_le_mono2)
  ultimately show ?thesis unfolding a_def [symmetric] b_def [symmetric] yearDays_def using y by (simp add: mult.commute)
qed

lemma word_eq_of_nat: "unat x = n \<Longrightarrow> x = of_nat n" for x :: "'a::len word"
  by auto

lemma of_nat_div_64: "n < 2 ^ 64 \<Longrightarrow> (of_nat n :: u64) div numeral k = of_nat (n div numeral k)" if "numeral k < (2 :: nat) ^ 64" for k
proof -
  assume n: "n < 2 ^ 64"
  have k: "unat (numeral k :: u64) = numeral k" using unat_of_nat_eq [of "numeral k", where 'a = 64] that by simp
  have "n div numeral k < 2 ^ 64" using n div_le_dividend le_less_trans by blast
  then have "unat ((of_nat n :: u64) div numeral k) = unat (of_nat (n div numeral k) :: u64)"
    using n k by (simp add: unat_div unat_of_nat_eq)
  then show ?thesis by (simp only: unat_inj)
qed

lemma timeCivilToEpoch_nat:
  assumes y: "1970 \<le> unat yr" and m: "1 \<le> unat mo" "unat mo \<le> 12" and d: "1 \<le> unat dy" "unat dy \<le> 31"
    and t: "unat hr < 24" "unat mi < 60" "unat sec < 60"
  shows "unat (timeCivilToEpoch yr mo dy hr mi sec)
    = epochDays (unat yr) (unat mo) (unat dy) * 86400 + unat hr * 3600 + unat mi * 60 + unat sec"
proof -
  define Y M D where "Y = unat yr" and "M = unat mo" and "D = unat dy"
  define n where "n = (if M \<le> 2 then Y - 1 else Y)"
  define mp where "mp = (if M > 2 then M - 3 else M + 9)"
  define dy0 where "dy0 = (153 * mp + 2) div 5 + D - 1"
  define N where "N = epochDays Y M D * 86400 + unat hr * 3600 + unat mi * 60 + unat sec"
  have ml: "mo \<le> 2 \<longleftrightarrow> M \<le> 2" "mo > 2 \<longleftrightarrow> M > 2" by (simp_all add: M_def word_le_nat_alt word_less_nat_alt)
  have yb: "Y < 2 ^ 32" using unat_lt_32 [of yr] by (simp add: Y_def)
  have nb: "n < 2 ^ 32" using yb unfolding n_def by (cases Y) auto
  have "unat (ucast (yr - (if mo \<le> 2 then 1 else 0)) :: u64) = n"
    using y by (auto simp: n_def M_def Y_def unat_sub_le word_le_nat_alt)
  then have wy: "(ucast (yr - (if mo \<le> 2 then 1 else 0)) :: u64) = of_nat n" by (rule word_eq_of_nat)
  have "unat (ucast (if mo > 2 then mo - 3 else mo + 9) :: u64) = mp"
    using m by (auto simp: mp_def M_def unat_sub_le word_le_nat_alt word_less_nat_alt unat_add_nowrap)
  then have wm: "(ucast (if mo > 2 then mo - 3 else mo + 9) :: u64) = of_nat mp" by (rule word_eq_of_nat)
  have wc: "(ucast x :: u64) = of_nat (unat x)" for x :: u32 by (rule word_eq_of_nat) simp
  have n64: "n < 2 ^ 64" "n mod 400 < 2 ^ 64" "153 * mp + 2 < 2 ^ 64" using nb m by (auto simp: mp_def M_def)
  have era: "(of_nat n :: u64) div 400 = of_nat (n div 400)" by (rule of_nat_div_64 [OF _ n64(1)]) simp
  have "(of_nat n :: u64) = of_nat (n div 400 * 400 + n mod 400)" by simp
  then have yoe: "(of_nat n :: u64) - of_nat (n div 400) * 400 = of_nat (n mod 400)" unfolding of_nat_add of_nat_mult by simp
  have d4: "(of_nat (n mod 400) :: u64) div 4 = of_nat (n mod 400 div 4)" "(of_nat (n mod 400) :: u64) div 100 = of_nat (n mod 400 div 100)"
    by (rule of_nat_div_64 [OF _ n64(2)], simp)+
  have "(153 * of_nat mp + 2 :: u64) = of_nat (153 * mp + 2)" by simp
  then have d5: "(153 * of_nat mp + 2 :: u64) div 5 = of_nat ((153 * mp + 2) div 5)"
    using of_nat_div_64 [OF _ n64(3), of "num.Bit1 (num.Bit0 num.One)"] by (simp only:) simp
  have doy: "(of_nat ((153 * mp + 2) div 5) + of_nat D - 1 :: u64) = of_nat dy0"
    using d unfolding dy0_def D_def by (subst of_nat_diff) simp_all
  have le: "n mod 400 div 100 \<le> n mod 400 div 4" by (simp add: div_le_mono2)
  have doe: "(of_nat (n mod 400) * 365 + of_nat (n mod 400 div 4) - of_nat (n mod 400 div 100) + of_nat dy0 :: u64)
      = of_nat (n mod 400 * 365 + n mod 400 div 4 - n mod 400 div 100 + dy0)"
    using le by (simp add: of_nat_diff)
  have tot: "n div 400 * 146097 + (n mod 400 * 365 + n mod 400 div 4 - n mod 400 div 100 + dy0) = yearDays n + dy0"
    using yearDays_era [of n] by linarith
  have ge: "719468 \<le> yearDays n + dy0"
  proof -
    have "1969 \<le> n" using y by (auto simp: n_def Y_def)
    then have "yearDays 1969 \<le> yearDays n" by (rule lift_Suc_mono_le [of yearDays, rotated]) (simp add: yearDays_Suc)
    then have a: "719162 \<le> yearDays n" by (simp add: yearDays_def)
    show ?thesis
    proof (cases "M \<le> 2")
      case True
      then have "M = 1 \<or> M = 2" using m by (auto simp: M_def)
      then have "306 \<le> dy0" using d by (auto simp: dy0_def mp_def D_def)
      then show ?thesis using a by simp
    next
      case False
      then have "1970 \<le> n" using y by (simp add: n_def Y_def)
      then have "yearDays 1970 \<le> yearDays n" by (rule lift_Suc_mono_le [of yearDays, rotated]) (simp add: yearDays_Suc)
      then show ?thesis by (simp add: yearDays_def)
    qed
  qed
  have ed: "epochDays Y M D = yearDays n + dy0 - 719468" using d by (simp add: epochDays_def n_def mp_def dy0_def D_def)
  have days: "(of_nat (n div 400) * 146097 + of_nat (n mod 400 * 365 + n mod 400 div 4 - n mod 400 div 100 + dy0) - 719468 :: u64)
      = of_nat (epochDays Y M D)"
  proof -
    have "(of_nat (n div 400) * 146097 + of_nat (n mod 400 * 365 + n mod 400 div 4 - n mod 400 div 100 + dy0) :: u64)
        = of_nat (n div 400 * 146097 + (n mod 400 * 365 + n mod 400 div 4 - n mod 400 div 100 + dy0))" by simp
    also have "\<dots> = of_nat (yearDays n + dy0)" unfolding tot ..
    finally show ?thesis unfolding ed using ge by (simp add: of_nat_diff)
  qed
  have "timeCivilToEpoch yr mo dy hr mi sec = of_nat N"
    unfolding timeCivilToEpoch_def Let_def wy wm
    unfolding wc [of dy] wc [of hr] wc [of mi] wc [of sec] D_def [symmetric] era yoe d4 d5 doy doe days N_def by simp
  moreover have "N < 2 ^ 64"
  proof -
    have "yearDays n \<le> 400 * n" by (simp add: yearDays_def)
    moreover have "mp \<le> 11" using m by (auto simp: mp_def M_def)
    then have "(153 * mp + 2) div 5 \<le> (153 * 11 + 2) div 5" by (intro div_le_mono) simp
    then have "dy0 \<le> 400" using d by (simp add: dy0_def D_def)
    ultimately have "epochDays Y M D < 2 ^ 42" using nb unfolding ed by simp
    then show ?thesis using t by (simp add: N_def)
  qed
  ultimately have "unat (timeCivilToEpoch yr mo dy hr mi sec) = N" using unat_of_nat_eq [of N, where 'a = 64] by simp
  then show ?thesis unfolding N_def Y_def M_def D_def .
qed

lemma timeDaysInMonth_nat:
  assumes "1 \<le> unat mo" "unat mo \<le> 12"
  shows "unat (timeDaysInMonth yr mo) = monthLen (unat yr) (unat mo)"
proof -
  have l: "isLeap yr \<longleftrightarrow> leapYear (unat yr)"
    by (simp add: isLeap_def leapYear_def dvd_eq_mod_eq_0 unat_eq_0 [symmetric] unat_mod del: unat_eq_0)
  have "unat mo = 1 \<or> unat mo = 2 \<or> unat mo = 3 \<or> unat mo = 4 \<or> unat mo = 5 \<or> unat mo = 6 \<or> unat mo = 7 \<or> unat mo = 8
    \<or> unat mo = 9 \<or> unat mo = 10 \<or> unat mo = 11 \<or> unat mo = 12" using assms by arith
  then have "mo \<in> {1, 2, 3, 4, 5, 6, 7, 8, 9, 10, 11, 12}" by (elim disjE) (drule word_eq_of_nat, simp)+
  then show ?thesis
    by (auto simp: timeDaysInMonth_def monthDays_def monthLen_def l)
qed

section \<open>Properties\<close>

definition civilOk :: "TimeCivil \<Rightarrow> bool" where
  "civilOk c \<longleftrightarrow> 1970 \<le> unat (year c) \<and> 1 \<le> unat (mon c) \<and> unat (mon c) \<le> 12
     \<and> 1 \<le> unat (day c) \<and> unat (day c) \<le> monthLen (unat (year c)) (unat (mon c))
     \<and> unat (hour c) < 24 \<and> unat (minute c) < 60 \<and> unat (second c) < 60"

lemma monthLen_31: "monthLen y m \<le> 31"
  by (simp add: monthLen_def)

lemma timeCivilToEpoch_civil:
  assumes "civilOk c"
  shows "unat (timeCivilToEpoch (year c) (mon c) (day c) (hour c) (minute c) (second c))
    = civilDays (unat (year c)) (unat (mon c)) (unat (day c)) * 86400 + unat (hour c) * 3600 + unat (minute c) * 60 + unat (second c)"
proof -
  have c: "1970 \<le> unat (year c)" "1 \<le> unat (mon c)" "unat (mon c) \<le> 12" "1 \<le> unat (day c)" "unat (day c) \<le> 31"
    "unat (hour c) < 24" "unat (minute c) < 60" "unat (second c) < 60"
    using assms le_trans [OF _ monthLen_31] by (auto simp: civilOk_def)
  show ?thesis using timeCivilToEpoch_nat [OF c] epochDays_civil [OF c(1-4)] by simp
qed

text \<open>A clock that holds a given date: packed decimal, 24-hour mode, with the century register.\<close>

definition bcd :: "nat \<Rightarrow> u8" where
  "bcd n = of_nat (16 * (n div 10) + n mod 10)"

definition rtcOf :: "TimeCivil \<Rightarrow> TimeRtcRaw" where
  "rtcOf c = \<lparr>r_sec = bcd (unat (second c)), r_min = bcd (unat (minute c)), r_hour = bcd (unat (hour c)),
     r_day = bcd (unat (day c)), r_mon = bcd (unat (mon c)), r_year = bcd (unat (year c) mod 100),
     r_century = bcd (unat (year c) div 100), regB = 0x02, hasCentury = True\<rparr>"

lemma rtcField_bcd: "n < 100 \<Longrightarrow> rtcField (bcd n) False = Some (of_nat n)"
proof -
  have "list_all (\<lambda>n. rtcField (bcd n) False = Some (of_nat n)) [0..<100]" by code_simp
  then show "n < 100 \<Longrightarrow> ?thesis" by (auto simp: list_all_iff)
qed

lemma rtcYear_le:
  assumes "yy \<le> 99"
  shows "unat (rtcYear raw bin yy) \<le> 2999"
proof -
  have y: "unat yy \<le> 99" using assms by (simp add: word_le_nat_alt)
  have "unat (c * 100 + yy) \<le> 2999" if "c \<le> 29" for c :: u32
  proof -
    have c: "unat c \<le> 29" using that by (simp add: word_le_nat_alt)
    then have m: "unat (c * 100) = unat c * 100" by (subst unat_mult_nowrap) auto
    then show ?thesis using c y by (subst unat_add_nowrap) auto
  qed
  moreover have "unat (2000 + yy) \<le> 2999" using y by (subst unat_add_nowrap) auto
  ultimately show ?thesis by (auto simp: rtcYear_def split: option.splits)
qed

lemma timeRtcDecode_sound:
  assumes "timeRtcDecode raw = Inr (ep, c)"
  shows "civilOk c \<and> unat (year c) \<le> 2999 \<and> ep = timeCivilToEpoch (year c) (mon c) (day c) (hour c) (minute c) (second c)"
proof -
  obtain yr mo dy hr mi sec yy bin where c: "c = \<lparr>year = yr, mon = mo, day = dy, hour = hr, minute = mi, second = sec\<rparr>"
    and ep: "ep = timeCivilToEpoch yr mo dy hr mi sec" and yy: "yy \<le> 99" and yr: "yr = rtcYear raw bin yy"
    and ok: "\<not> (yr < 1970 \<or> sec > 59 \<or> mi > 59 \<or> hr > 23 \<or> mo < 1 \<or> mo > 12 \<or> dy < 1 \<or> dy > timeDaysInMonth yr mo)"
    using assms by (auto simp: timeRtcDecode_def Let_def split: option.splits if_splits)
  have mo: "1 \<le> unat mo" "unat mo \<le> 12" using ok by (auto simp: word_less_nat_alt not_less)
  have "unat yr \<le> 2999" using rtcYear_le [OF yy] yr by simp
  then show ?thesis
    using ok mo timeDaysInMonth_nat [OF mo, of yr]
    by (auto simp: c ep civilOk_def word_less_nat_alt not_less)
qed

lemma timeRtcDecode_complete:
  assumes "civilOk d" and "unat (year d) \<le> 2999"
  shows "\<exists>ep. timeRtcDecode (rtcOf d) = Inr (ep, d)"
proof -
  obtain yr mo dy hr mi sec where d: "d = \<lparr>year = yr, mon = mo, day = dy, hour = hr, minute = mi, second = sec\<rparr>"
    by (cases d) auto
  have b: "1970 \<le> unat yr" "unat yr \<le> 2999" "1 \<le> unat mo" "unat mo \<le> 12" "1 \<le> unat dy" "unat dy \<le> monthLen (unat yr) (unat mo)"
    "unat hr < 24" "unat mi < 60" "unat sec < 60"
    using assms by (auto simp: civilOk_def d)
  have dy: "unat dy < 100" using b(6) monthLen_31 [of "unat yr" "unat mo"] by simp
  define C where "C = unat yr div 100"
  have C: "19 \<le> C" "C \<le> 29" using b(1,2) by (auto simp: C_def)
  have cent: "(of_nat C :: u32) \<ge> 19" "(of_nat C :: u32) \<le> 29"
    using C by (simp_all add: word_le_nat_alt unat_of_nat_eq)
  have "(of_nat C :: u32) * 100 + of_nat (unat yr mod 100) = of_nat (C * 100 + unat yr mod 100)" by simp
  also have "C * 100 + unat yr mod 100 = unat yr" by (simp add: C_def)
  finally have y: "(of_nat C :: u32) * 100 + of_nat (unat yr mod 100) = yr" by simp
  have ry: "rtcYear (rtcOf d) False (of_nat (unat yr mod 100)) = yr"
    using C cent y by (simp add: rtcYear_def rtcOf_def d C_def [symmetric] rtcField_bcd)
  have yy: "\<not> (of_nat (unat yr mod 100) :: u32) > 99" by (simp add: word_less_nat_alt unat_of_nat_eq)
  have nb: "(0x02 :: u8) AND 0x04 = 0" "(0x02 :: u8) AND 0x02 \<noteq> 0" by simp_all
  have f: "rtcField (r_sec (rtcOf d)) False = Some sec" "rtcField (r_min (rtcOf d)) False = Some mi"
    "rtcField (r_hour (rtcOf d)) False = Some hr" "rtcField (r_day (rtcOf d)) False = Some dy"
    "rtcField (r_mon (rtcOf d)) False = Some mo" "rtcField (r_year (rtcOf d)) False = Some (of_nat (unat yr mod 100))"
    "regB (rtcOf d) = 0x02"
    using b dy by (simp_all add: rtcOf_def d rtcField_bcd)
  have ok: "\<not> (yr < 1970 \<or> sec > 59 \<or> mi > 59 \<or> hr > 23 \<or> mo < 1 \<or> mo > 12 \<or> dy < 1 \<or> dy > timeDaysInMonth yr mo)"
    using b timeDaysInMonth_nat [OF b(3,4), of yr] by (simp add: word_less_nat_alt not_less)
  show ?thesis
    using ok yy by (simp add: timeRtcDecode_def f ry nb Let_def d [symmetric] del: not_less)
qed

lemma timeRtcDecode_error: "timeRtcDecode raw = Inl e \<Longrightarrow> e = STATUS_ERR_INVALID"
  by (auto simp: timeRtcDecode_def Let_def split: option.splits if_splits)

text \<open>
  C25: Decoding the clock is sound and complete. Whatever the registers hold, a successful decode
  returns a valid date of the years 1970 to 2999 and its exact epoch seconds; and every valid date of
  those years, stored in packed decimal with its century, decodes to itself.
\<close>

theorem timeRtcDecode_correct:
  shows "(case timeRtcDecode raw of Inl e \<Rightarrow> e = STATUS_ERR_INVALID
      | Inr (ep, c) \<Rightarrow> civilOk c \<and> unat (year c) \<le> 2999 \<and> unat ep = civilDays (unat (year c)) (unat (mon c)) (unat (day c)) * 86400
          + unat (hour c) * 3600 + unat (minute c) * 60 + unat (second c))
     \<and> (civilOk d \<and> unat (year d) \<le> 2999 \<longrightarrow> (\<exists>ep. timeRtcDecode (rtcOf d) = Inr (ep, d)))"
  using timeRtcDecode_error [of raw] timeRtcDecode_sound [of raw] timeRtcDecode_complete [of d]
    timeCivilToEpoch_civil
  by (auto split: sum.splits prod.splits)

theorem timeRtcDecode_correct_witness:
  "\<exists>ep. timeRtcDecode (rtcOf \<lparr>year = 2024, mon = 2, day = 29, hour = 12, minute = 30, second = 15\<rparr>)
     = Inr (ep, \<lparr>year = 2024, mon = 2, day = 29, hour = 12, minute = 30, second = 15\<rparr>)"
  using timeRtcDecode_correct [where d = "\<lparr>year = 2024, mon = 2, day = 29, hour = 12, minute = 30, second = 15\<rparr>"]
  by (simp add: civilOk_def monthLen_def leapYear_def)

lemma timeMakeMult_nat:
  assumes "timeMakeMult fr to = Inr mul"
  shows "fr \<noteq> 0 \<and> unat mul = unat to * 2 ^ 32 div unat fr"
proof -
  define w r where "w = to div fr" and "r = to mod fr"
  have fr: "fr \<noteq> 0" and w: "\<not> w \<ge> push_bit 32 1" and r: "\<not> r \<ge> push_bit 32 1"
    and m: "mul = push_bit 32 w + push_bit 32 r div fr"
    using assms by (auto simp: timeMakeMult_def Let_def w_def r_def split: if_splits)
  have f0: "unat fr > 0" using fr by (simp add: unat_gt_0)
  have wn: "unat w < 2 ^ 32" "unat r < 2 ^ 32" using w r by (simp_all add: word_le_nat_alt push_bit_eq_mult)
  have p: "unat (push_bit 32 x) = unat x * 2 ^ 32" if "unat x < 2 ^ 32" for x :: u64
    using that by (simp add: push_bit_eq_mult) (subst unat_mult_nowrap, auto)
  have q: "unat (push_bit 32 r div fr) = unat r * 2 ^ 32 div unat fr" using p [OF wn(2)] by (simp add: unat_div)
  have rf: "unat r < unat fr" using f0 by (simp add: r_def unat_mod)
  then have "unat r * 2 ^ 32 div unat fr < 2 ^ 32" by (simp add: div_less_iff_less_mult f0 mult.commute)
  then have "unat mul = unat w * 2 ^ 32 + unat r * 2 ^ 32 div unat fr"
    unfolding m using wn p [OF wn(1)] q by (subst unat_add_nowrap) auto
  moreover have "unat to = unat w * unat fr + unat r" by (simp add: w_def r_def unat_div unat_mod)
  then have "unat to * 2 ^ 32 = unat w * 2 ^ 32 * unat fr + unat r * 2 ^ 32" by (simp add: algebra_simps)
  then have "unat to * 2 ^ 32 div unat fr = unat w * 2 ^ 32 + unat r * 2 ^ 32 div unat fr"
    using f0 by (simp add: div_mult_self1 div_mult_self2 del: mult.commute)
  ultimately show ?thesis using fr by simp
qed

lemma timeScale_nat: "unat (timeScale v mul) = (unat v * unat mul div 2 ^ 32) mod 2 ^ 64"
proof -
  have u: "unat (ucast (x :: u64) :: u128) = unat x" for x
    using unat_lt_64 [of x] by (simp add: unsigned_ucast_eq take_bit_nat_eq_self)
  have "unat v * unat mul < 2 ^ 64 * 2 ^ 64" using unat_lt_64 [of v] unat_lt_64 [of mul] by (intro mult_strict_mono) auto
  then have "unat ((ucast v :: u128) * ucast mul) = unat v * unat mul" by (subst unat_mult_nowrap) (simp_all add: u)
  then show ?thesis
    by (simp add: timeScale_def unsigned_ucast_eq unsigned_drop_bit_eq drop_bit_eq_div take_bit_eq_mod unat_div)
qed

lemma scale_bounds:
  fixes v t f :: nat
  assumes "0 < f"
  shows "v * (t * 2 ^ 32 div f) div 2 ^ 32 \<le> v * t div f"
    and "v * t div f \<le> v * (t * 2 ^ 32 div f) div 2 ^ 32 + v div 2 ^ 32 + 1"
proof -
  define u q where "u = t * 2 ^ 32 div f" and "q = v * t div f"
  have u: "u * f \<le> t * 2 ^ 32" "t * 2 ^ 32 < (u + 1) * f"
    using assms by (simp_all add: u_def dividend_less_div_times)
  have "v * u div 2 ^ 32 * f \<le> v * u * f div 2 ^ 32"
    using mult_le_mono1 [OF div_times_less_eq_dividend [of "v * u" "2 ^ 32"], of f]
    by (simp add: less_eq_div_iff_mult_less_eq mult.assoc mult.commute [of f])
  also have "\<dots> \<le> v * (t * 2 ^ 32) div 2 ^ 32" using u(1) by (intro div_le_mono) (simp add: mult.assoc)
  also have "\<dots> = v * t" by (simp add: mult.assoc [symmetric])
  finally show "v * (t * 2 ^ 32 div f) div 2 ^ 32 \<le> v * t div f"
    using assms by (simp add: u_def less_eq_div_iff_mult_less_eq)
  have "q * 2 ^ 32 * f \<le> v * t * 2 ^ 32" by (simp add: q_def)
  also have "\<dots> \<le> v * ((u + 1) * f)" using u(2) by (simp add: mult.assoc)
  finally have "f * (q * 2 ^ 32) \<le> f * (v * u + v)" by (simp add: algebra_simps)
  then have "q * 2 ^ 32 \<le> v * u + v" using assms by (simp only: mult_le_cancel1)
  then have "q \<le> (v * u + v) div 2 ^ 32" by (simp add: less_eq_div_iff_mult_less_eq)
  also have "\<dots> \<le> v * u div 2 ^ 32 + v div 2 ^ 32 + 1"
    proof -
    have "(v * u + v) div 4294967296 \<le> v * u div 4294967296 + v div 4294967296 + 1" by linarith
    then show ?thesis by simp
  qed
  finally show "v * t div f \<le> v * (t * 2 ^ 32 div f) div 2 ^ 32 + v div 2 ^ 32 + 1"
    by (simp add: q_def u_def)
qed

text \<open>
  C26: A multiplier built by \<open>timeMakeMult\<close> never makes a clock run fast and loses little: whenever the
  exact converted value fits in 64 bits, \<open>timeScale\<close> does not overflow, its result is at most the
  exact value, and it falls short by at most one tick plus one per 2^32 input ticks.
\<close>

theorem timeScale_accuracy:
  assumes "timeMakeMult fr to = Inr mul" and "unat v * unat to div unat fr < 2 ^ 64"
  shows "unat (timeScale v mul) \<le> unat v * unat to div unat fr
     \<and> unat v * unat to div unat fr \<le> unat (timeScale v mul) + unat v div 2 ^ 32 + 1"
proof -
  have m: "0 < unat fr" "unat mul = unat to * 2 ^ 32 div unat fr"
    using timeMakeMult_nat [OF assms(1)] by (simp_all add: unat_gt_0)
  note b = scale_bounds [OF m(1), of "unat v" "unat to"]
  then have "unat (timeScale v mul) = unat v * unat mul div 2 ^ 32"
    using assms(2) by (simp add: timeScale_nat m(2))
  then show ?thesis using b by (simp add: m(2))
qed

theorem timeScale_accuracy_witness:
  "unat (timeScale 14318180 299966007970) \<le> 14318180 * 1000000000 div 14318180"
  using timeScale_accuracy [of 14318180 1000000000 299966007970 14318180]
  by (simp add: timeMakeMult_def Let_def)

end
