(* ===== verification/Irq_Core.thy ===== *)
theory Irq_Core
  imports Allocator
begin

text \<open>
  The interrupt-controller core, \<open>kernel/arch/x86_64/irq-core.c\<close>: the vector bitmap, the resolution
  of legacy interrupts through the MADT overrides, redirection entries and the lookup of global
  interrupt numbers. Vector numbers and table indices are naturals; the range checks of the code keep
  them below 256. The vector map is an instance of the ledger allocator.
\<close>

section \<open>The vector bitmap\<close>

abbreviation IRQ_VECTOR_FIRST_DYNAMIC :: nat where "IRQ_VECTOR_FIRST_DYNAMIC \<equiv> 48"
abbreviation IRQ_VECTOR_LAST_DYNAMIC :: nat where "IRQ_VECTOR_LAST_DYNAMIC \<equiv> 239"
abbreviation IRQ_VECTOR_COUNT :: nat where "IRQ_VECTOR_COUNT \<equiv> 256"
abbreviation IRQ_ISA_COUNT :: nat where "IRQ_ISA_COUNT \<equiv> 16"

record IrqVectorMap =
  used :: "u64 list"

definition setUsed :: "nat \<Rightarrow> IrqVectorMap \<Rightarrow> IrqVectorMap" where
  "setUsed v m = m\<lparr>used := (used m)[v div 64 := used m ! (v div 64) OR push_bit (v mod 64) 1]\<rparr>"

definition testUsed :: "IrqVectorMap \<Rightarrow> nat \<Rightarrow> bool" where
  "testUsed m v \<longleftrightarrow> used m ! (v div 64) AND push_bit (v mod 64) 1 \<noteq> 0"

definition irqVectorMapInit :: "IrqVectorMap \<Rightarrow> IrqVectorMap" where
  "irqVectorMapInit m =
     (let m1 = fold (\<lambda>i m. m\<lparr>used := (used m)[i := 0]\<rparr>) [0..<4] m;
          m2 = fold setUsed [0..<IRQ_VECTOR_FIRST_DYNAMIC] m1
      in fold setUsed [IRQ_VECTOR_LAST_DYNAMIC + 1..<IRQ_VECTOR_COUNT] m2)"

definition irqVectorMapAlloc :: "IrqVectorMap \<Rightarrow> Status + (IrqVectorMap \<times> nat)" where
  "irqVectorMapAlloc m =
     (case find (\<lambda>v. \<not> testUsed m v) [IRQ_VECTOR_FIRST_DYNAMIC..<IRQ_VECTOR_LAST_DYNAMIC + 1] of
        Some v \<Rightarrow> Inr (setUsed v m, v)
      | None \<Rightarrow> Inl STATUS_ERR_NO_MEMORY)"

definition irqVectorMapIsAllocated :: "IrqVectorMap \<Rightarrow> nat \<Rightarrow> bool" where
  "irqVectorMapIsAllocated m v =
     (if v < IRQ_VECTOR_FIRST_DYNAMIC \<or> v > IRQ_VECTOR_LAST_DYNAMIC then False else testUsed m v)"

definition irqVectorMapFree :: "IrqVectorMap \<Rightarrow> nat \<Rightarrow> Status + IrqVectorMap" where
  "irqVectorMapFree m v =
     (if \<not> irqVectorMapIsAllocated m v then Inl STATUS_ERR_INVALID
      else Inr (m\<lparr>used := (used m)[v div 64 := used m ! (v div 64) AND NOT (push_bit (v mod 64) 1)]\<rparr>))"

definition irqVectorMapAllocatedCount :: "IrqVectorMap \<Rightarrow> u32" where
  "irqVectorMapAllocatedCount m =
     fold (\<lambda>v n. n + ucast (drop_bit (v mod 64) (used m ! (v div 64)) AND 1)) [IRQ_VECTOR_FIRST_DYNAMIC..<IRQ_VECTOR_LAST_DYNAMIC + 1] 0"

section \<open>Legacy interrupt routing\<close>

record AcpiIso =
  bus :: u8
  source :: u8
  iso_gsi :: u32
  iso_flags :: u16

record AcceptedIso =
  a_source :: u8
  a_gsi :: u32
  a_flags :: u16

record IrqIsaRoute =
  gsi :: u32
  activeLow :: bool
  level :: bool

definition acceptIso :: "AcpiIso \<Rightarrow> AcceptedIso list \<times> bool \<Rightarrow> AcceptedIso list \<times> bool" where
  "acceptIso o' = (\<lambda>(acc, warn).
     if bus o' \<noteq> 0 \<or> unat (source o') \<ge> IRQ_ISA_COUNT then (acc, True)
     else if list_ex (\<lambda>a. a_source a = source o' \<or> a_gsi a = iso_gsi o') acc then (acc, True)
     else (acc @ [\<lparr>a_source = source o', a_gsi = iso_gsi o', a_flags = iso_flags o'\<rparr>], warn))"

definition routeStep :: "nat \<Rightarrow> AcceptedIso \<Rightarrow> u32 \<times> u16 \<times> bool \<Rightarrow> u32 \<times> u16 \<times> bool" where
  "routeStep irq a r = (if unat (a_source a) = irq then (a_gsi a, a_flags a, True) else r)"

text \<open>The route, and the warning flag where the code writes it.\<close>

definition irqCoreIsaRoute :: "AcpiIso list \<Rightarrow> nat \<Rightarrow> (Status + IrqIsaRoute) \<times> bool option" where
  "irqCoreIsaRoute isos irq =
     (if irq \<ge> IRQ_ISA_COUNT then (Inl STATUS_ERR_INVALID, None)
      else let (acc, warn) = fold acceptIso isos ([], False);
               (g, flags, found) = fold (routeStep irq)
                                     acc (of_nat irq, 0, False)
        in if \<not> found \<and> list_ex (\<lambda>a. unat (a_gsi a) = irq) acc then (Inl STATUS_ERR_NOT_FOUND, Some warn)
           else let pol = flags AND 3;
                    trig = drop_bit 2 flags AND 3
             in (Inr \<lparr>gsi = g, activeLow = (pol = 3), level = (trig = 3)\<rparr>,
                 Some (warn \<or> pol = 2 \<or> trig = 2)))"

section \<open>Redirection entries and interrupt ranges\<close>

definition irqCoreRteEncode :: "u8 \<Rightarrow> bool \<Rightarrow> bool \<Rightarrow> bool \<Rightarrow> u8 \<Rightarrow> u64" where
  "irqCoreRteEncode vector aLow lvl masked dest =
     (let e = ucast vector;
          e = (if aLow then e OR push_bit 13 1 else e);
          e = (if lvl then e OR push_bit 15 1 else e);
          e = (if masked then e OR push_bit 16 1 else e)
      in e OR push_bit 56 (ucast dest))"

definition irqCoreIoapicPins :: "u32 \<Rightarrow> u32" where
  "irqCoreIoapicPins versionReg = (drop_bit 16 versionReg AND 0xFF) + 1"

record IrqGsiRange =
  gsiBase :: u32
  pins :: u32

fun gsiScan :: "nat \<Rightarrow> IrqGsiRange list \<Rightarrow> u32 \<Rightarrow> (nat \<times> u32) option" where
  "gsiScan i [] g = None"
| "gsiScan i (r # rs) g =
     (if g \<ge> gsiBase r \<and> (ucast g :: u64) < ucast (gsiBase r) + ucast (pins r) then Some (i, g - gsiBase r)
      else gsiScan (i + 1) rs g)"

definition irqCoreGsiLookup :: "IrqGsiRange list \<Rightarrow> u32 \<Rightarrow> (nat \<times> u32) option" where
  "irqCoreGsiLookup r g = gsiScan 0 r g"

definition irqCoreGsiOverlaps :: "IrqGsiRange list \<Rightarrow> IrqGsiRange \<Rightarrow> bool" where
  "irqCoreGsiOverlaps r cand =
     (if pins cand = 0 then True
      else let cLo = ucast (gsiBase cand) :: u64; cHi = cLo + ucast (pins cand)
        in list_ex (\<lambda>x. let lo = ucast (gsiBase x); hi = lo + ucast (pins x) in cLo < hi \<and> lo < cHi) r)"

section \<open>The vector map as an allocator\<close>

lemma testUsed_bit: "testUsed m v \<longleftrightarrow> bit (used m ! (v div 64)) (v mod 64)"
  by (auto simp: testUsed_def bit_iff_and_push_bit_not_eq_0)

definition vmapWf :: "IrqVectorMap \<Rightarrow> bool" where
  "vmapWf m \<longleftrightarrow> length (used m) = 4 \<and> (\<forall>v < IRQ_VECTOR_COUNT. v < 48 \<or> 239 < v \<longrightarrow> testUsed m v)"

definition vmapFree :: "IrqVectorMap \<Rightarrow> nat set" where
  "vmapFree m = {v. 48 \<le> v \<and> v \<le> 239 \<and> \<not> testUsed m v}"

definition vmapWhole :: "IrqVectorMap \<Rightarrow> nat set" where
  "vmapWhole m = {48..239}"

lemma same_slot: "v div 64 = w div 64 \<Longrightarrow> v mod 64 = w mod 64 \<Longrightarrow> v = (w :: nat)"
  by (metis div_mult_mod_eq)

lemma testUsed_setUsed:
  assumes "length (used m) = 4" "v < 256" "w < 256"
  shows "testUsed (setUsed v m) w \<longleftrightarrow> testUsed m w \<or> w = v"
proof (cases "v div 64 = w div 64")
  case True
  then have "bit (push_bit (v mod 64) (1 :: u64)) (w mod 64) \<longleftrightarrow> w = v"
    using same_slot [of v w] by (auto simp: bit_simps)
  then show ?thesis using True assms by (auto simp: testUsed_bit setUsed_def bit_simps)
next
  case False
  then show ?thesis using assms by (auto simp: testUsed_def setUsed_def nth_list_update)
qed

lemma length_setUsed [simp]: "length (used (setUsed v m)) = length (used m)"
  by (simp add: setUsed_def)

lemma setUsed_all:
  "length (used m) = 4 \<Longrightarrow> \<forall>v \<in> set vs. v < 256 \<Longrightarrow>
     length (used (fold setUsed vs m)) = 4 \<and> (\<forall>w < 256. testUsed (fold setUsed vs m) w \<longleftrightarrow> testUsed m w \<or> w \<in> set vs)"
  by (induction vs arbitrary: m) (auto simp: testUsed_setUsed)

lemma irqVectorMapInit_wf:
  assumes "length (used m) = 4"
  shows "vmapWf (irqVectorMapInit m) \<and> vmapFree (irqVectorMapInit m) = {48..239}"
proof -
  define m1 where "m1 = fold (\<lambda>i m. m\<lparr>used := (used m)[i := 0]\<rparr>) [0..<4] m"
  have 1: "used m1 = [0, 0, 0, 0]"
    using assms by (auto simp: m1_def upt_rec numeral_eq_Suc length_Suc_conv)
  have t: "\<not> testUsed m1 v" if "v < 256" for v
  proof -
    have "v div 64 < 4" using that by simp
    then have "v div 64 = 0 \<or> v div 64 = 1 \<or> v div 64 = 2 \<or> v div 64 = 3" by arith
    then show ?thesis by (auto simp: testUsed_def 1)
  qed
  define m2 where "m2 = fold setUsed [0..<48] m1"
  have 2: "length (used m2) = 4" "\<And>w. w < 256 \<Longrightarrow> testUsed m2 w \<longleftrightarrow> w < 48"
    using setUsed_all [of m1 "[0..<48]"] 1 t by (simp_all add: m2_def del: upt_rec_numeral upt_Suc)
  have 3: "irqVectorMapInit m = fold setUsed [240..<256] m2"
    by (simp add: irqVectorMapInit_def m1_def m2_def Let_def del: upt_rec_numeral upt_Suc)
  show ?thesis
    using setUsed_all [of m2 "[240..<256]"] 2
    by (auto simp: 3 vmapWf_def vmapFree_def simp del: upt_rec_numeral upt_Suc)
qed

lemma alloc_effect:
  assumes w: "vmapWf m" and a: "irqVectorMapAlloc m = Inr (m', v)"
  shows "vmapWf m'" "v \<in> vmapFree m" "\<forall>u \<in> vmapFree m. v \<le> u" "vmapFree m' = vmapFree m - {v}"
proof -
  have f: "find (\<lambda>v. \<not> testUsed m v) [48..<240] = Some v" and m': "m' = setUsed v m"
    using a by (auto simp: irqVectorMapAlloc_def split: option.splits simp del: upt_rec_numeral upt_Suc)
  obtain k where k: "k < length [48..<240]" "v = [48..<240] ! k" "\<not> testUsed m v" "\<forall>j < k. testUsed m ([48..<240] ! j)"
    using f by (auto simp: find_Some_iff simp del: upt_rec_numeral upt_Suc)
  then have v: "v = 48 + k" "k < 192" by (simp_all del: upt_rec_numeral upt_Suc)
  then show "v \<in> vmapFree m" using k by (simp add: vmapFree_def)
  show "\<forall>u \<in> vmapFree m. v \<le> u"
  proof
    fix u assume u: "u \<in> vmapFree m"
    show "v \<le> u"
    proof (rule ccontr)
      assume "\<not> v \<le> u"
      then have "u - 48 < k" using u v by (auto simp: vmapFree_def)
      then have "testUsed m ([48..<240] ! (u - 48))" using k(4) by blast
      then show False using u v \<open>u - 48 < k\<close> by (simp add: vmapFree_def del: upt_rec_numeral upt_Suc)
    qed
  qed
  show "vmapWf m'" "vmapFree m' = vmapFree m - {v}"
    using w v by (auto simp: m' vmapWf_def vmapFree_def testUsed_setUsed)
qed

lemma alloc_full:
  "irqVectorMapAlloc m = Inl e \<Longrightarrow> e = STATUS_ERR_NO_MEMORY \<and> vmapFree m = {}"
  by (auto simp: irqVectorMapAlloc_def vmapFree_def find_None_iff split: option.splits simp del: upt_rec_numeral upt_Suc)

lemma free_effect:
  assumes w: "vmapWf m" and v: "48 \<le> v" "v \<le> 239" and u: "testUsed m v"
  shows "\<exists>m'. irqVectorMapFree m v = Inr m' \<and> vmapWf m' \<and> vmapFree m' = insert v (vmapFree m)"
proof -
  define m' where "m' = m\<lparr>used := (used m)[v div 64 := used m ! (v div 64) AND NOT (push_bit (v mod 64) 1)]\<rparr>"
  have l: "length (used m) = 4" using w by (simp add: vmapWf_def)
  have t: "testUsed m' x \<longleftrightarrow> testUsed m x \<and> x \<noteq> v" if "x < 256" for x
  proof (cases "v div 64 = x div 64")
    case True
    have "x div 64 < 4" "x mod 64 < 64" using that by simp_all
    then have "bit (NOT (push_bit (v mod 64) (1 :: u64))) (x mod 64) \<longleftrightarrow> x \<noteq> v"
      using True same_slot [of v x] by (auto simp: bit_simps)
    then show ?thesis using True l \<open>x div 64 < 4\<close> by (auto simp: testUsed_bit m'_def bit_simps)
  next
    case False
    then show ?thesis using l by (auto simp: testUsed_def m'_def nth_list_update)
  qed
  have "irqVectorMapFree m v = Inr m'" using u v by (simp add: irqVectorMapFree_def irqVectorMapIsAllocated_def m'_def)
  moreover have "vmapWf m'" using w t v by (auto simp: vmapWf_def) (simp add: m'_def)
  moreover have "vmapFree m' = insert v (vmapFree m)" using t v by (auto simp: vmapFree_def)
  ultimately show ?thesis by blast
qed

definition vmapHeld :: "IrqVectorMap \<Rightarrow> nat set \<Rightarrow> bool" where
  "vmapHeld m L \<longleftrightarrow> L = {v. irqVectorMapIsAllocated m v}"

definition vmapTake :: "IrqVectorMap \<Rightarrow> unit \<Rightarrow> (IrqVectorMap \<times> nat) option" where
  "vmapTake m q = (case irqVectorMapAlloc m of Inr r \<Rightarrow> Some r | Inl e \<Rightarrow> None)"

definition vmapGive :: "IrqVectorMap \<Rightarrow> nat \<Rightarrow> IrqVectorMap option" where
  "vmapGive m v = (case irqVectorMapFree m v of Inr m' \<Rightarrow> Some m' | Inl e \<Rightarrow> None)"

lemma vmapHeld_alt: "vmapHeld m L \<longleftrightarrow> L = {48..239} - vmapFree m"
  by (auto simp: vmapHeld_def irqVectorMapIsAllocated_def vmapFree_def split: if_splits)

lemma vmapTake_effect:
  assumes "vmapWf m" "vmapTake m q = Some (m', v)"
  shows "vmapWf m'" "v \<in> vmapFree m" "vmapFree m' = vmapFree m - {v}"
  using alloc_effect [OF assms(1), of m' v] assms(2) by (auto simp: vmapTake_def split: sum.splits)

lemma vmapGive_effect:
  assumes "vmapWf m" "v \<in> {48..239}" "v \<notin> vmapFree m"
  shows "\<exists>m'. vmapGive m v = Some m' \<and> vmapWf m' \<and> vmapFree m' = insert v (vmapFree m)"
  using free_effect [OF assms(1), of v] assms(2,3) by (fastforce simp: vmapGive_def vmapFree_def)

lemma vmapFree_sub: "vmapFree m \<subseteq> {48..239}"
  by (auto simp: vmapFree_def)

interpretation vmap: ledger_allocator vmapWf vmapWhole vmapFree vmapHeld "\<lambda>v. v \<in> {48..239}" "\<lambda>v. {v}" vmapTake vmapGive
proof (unfold_locales, goal_cases)
  case (1 s q s' h) then show ?case using vmapTake_effect by (simp add: vmapWhole_def)
next
  case (2 s q s' h) then show ?case using vmapTake_effect(2) vmapFree_sub by blast
next
  case (3 s L h q s') then show ?case using vmapTake_effect [OF 3(1,4)] vmapFree_sub [of s] by (auto simp: vmapHeld_alt)
next
  case (4 s q s' h) then show ?case using vmapTake_effect [OF 4] by auto
next
  case (6 s L h) then show ?case using vmapGive_effect [of s h] by (auto simp: vmapHeld_alt)
next
  case (7 s L h s') then show ?case using vmapGive_effect [of s h] by (auto simp: vmapHeld_alt vmapWhole_def)
next
  case (8 s L h s') then show ?case using vmapGive_effect [of s h] by (auto simp: vmapHeld_alt)
next
  case (9 s L h s') then show ?case using vmapGive_effect [of s h] by (auto simp: vmapHeld_alt)
qed simp

lemma count_allocated:
  "irqVectorMapAllocatedCount m = of_nat (card {v. irqVectorMapIsAllocated m v})"
proof -
  have b: "(ucast (drop_bit k x AND 1 :: u64) :: u32) = of_bool (bit x k)" for x :: u64 and k
    by (simp add: and_one_eq bit_iff_odd_drop_bit mod_2_eq_odd)
  have f: "fold (\<lambda>v n. n + ucast (drop_bit (v mod 64) (used m ! (v div 64)) AND 1)) vs n = n + of_nat (card {v \<in> set vs. testUsed m v})"
    if "distinct vs" for vs and n :: u32
    using that
  proof (induction vs arbitrary: n)
    case (Cons a vs)
    have "{v \<in> set (a # vs). testUsed m v} = (if testUsed m a then {a} else {}) \<union> {v \<in> set vs. testUsed m v}" by auto
    then show ?case using Cons by (simp add: b testUsed_bit)
  qed simp
  have "{v. irqVectorMapIsAllocated m v} = {v \<in> set [48..<240]. testUsed m v}"
    by (auto simp: irqVectorMapIsAllocated_def split: if_splits simp del: upt_rec_numeral upt_Suc)
  then show ?thesis by (simp add: irqVectorMapAllocatedCount_def f del: upt_rec_numeral upt_Suc)
qed

section \<open>The accepted overrides\<close>

definition acceptOk :: "AcceptedIso list \<Rightarrow> bool" where
  "acceptOk acc \<longleftrightarrow> distinct (map a_source acc) \<and> distinct (map a_gsi acc) \<and> (\<forall>a \<in> set acc. unat (a_source a) < IRQ_ISA_COUNT)"

lemma accept_inv: "acceptOk (fst aw) \<Longrightarrow> acceptOk (fst (fold acceptIso isos aw))"
proof (induction isos arbitrary: aw)
  case (Cons x isos)
  have "acceptOk (fst (acceptIso x aw))"
    using Cons.prems by (cases aw) (auto simp: acceptIso_def acceptOk_def list_ex_iff)
  then show ?case using Cons.IH by simp
qed simp

lemma accept_ok: "acceptOk (fst (fold acceptIso isos ([], False)))"
  by (rule accept_inv) (simp add: acceptOk_def)

lemma accept_room:
  assumes "acceptOk acc" shows "length acc \<le> IRQ_ISA_COUNT"
proof -
  have "distinct (map (\<lambda>a. unat (a_source a)) acc)"
    using assms by (auto simp: acceptOk_def distinct_map inj_on_def)
  moreover have "set (map (\<lambda>a. unat (a_source a)) acc) \<subseteq> {..<16}" using assms by (auto simp: acceptOk_def)
  ultimately show ?thesis using card_mono [of "{..<16 :: nat}" "set (map (\<lambda>a. unat (a_source a)) acc)"]
    by (simp add: distinct_card del: set_map)
qed

lemma route_fold:
  assumes "acceptOk acc"
  shows "a \<in> set acc \<Longrightarrow> unat (a_source a) = irq \<Longrightarrow>
      fold (routeStep irq) acc r = (a_gsi a, a_flags a, True)"
    and "\<forall>a \<in> set acc. unat (a_source a) \<noteq> irq \<Longrightarrow>
      fold (routeStep irq) acc r = r"
proof -
  show no: "\<forall>a \<in> set acc. unat (a_source a) \<noteq> irq \<Longrightarrow>
      fold (routeStep irq) acc r = r" for acc r
    by (induction acc arbitrary: r) (auto simp: routeStep_def)
  assume "a \<in> set acc" and i: "unat (a_source a) = irq"
  then obtain xs ys where acc: "acc = xs @ a # ys" by (meson split_list)
  then have "\<forall>b \<in> set ys. unat (a_source b) \<noteq> irq"
    using assms i by (auto simp: acceptOk_def) (metis image_eqI)
  then show "fold (routeStep irq) acc r = (a_gsi a, a_flags a, True)"
    using i by (simp add: acc no) (simp add: routeStep_def)
qed

definition accepted :: "AcpiIso list \<Rightarrow> AcceptedIso list" where
  "accepted isos = fst (fold acceptIso isos ([], False))"

lemma route_override:
  assumes "irq < IRQ_ISA_COUNT" "a \<in> set (accepted isos)" "unat (a_source a) = irq"
  shows "fst (irqCoreIsaRoute isos irq) = Inr \<lparr>gsi = a_gsi a, activeLow = (a_flags a AND 3 = 3), level = (drop_bit 2 (a_flags a) AND 3 = 3)\<rparr>"
  using assms route_fold(1) [OF accept_ok [of isos], of a irq "(of_nat irq, 0, False)"]
  by (auto simp: irqCoreIsaRoute_def accepted_def Let_def split: prod.split)

lemma route_identity:
  assumes "irq < IRQ_ISA_COUNT" "\<forall>a \<in> set (accepted isos). unat (a_source a) \<noteq> irq"
  shows "fst (irqCoreIsaRoute isos irq)
    = (if \<exists>a \<in> set (accepted isos). unat (a_gsi a) = irq then Inl STATUS_ERR_NOT_FOUND
       else Inr \<lparr>gsi = of_nat irq, activeLow = False, level = False\<rparr>)"
  using assms route_fold(2) [OF accept_ok [of isos], of irq "(of_nat irq, 0, False)"]
  by (auto simp: irqCoreIsaRoute_def accepted_def Let_def list_ex_iff split: prod.split)

lemma route_cases:
  assumes "fst (irqCoreIsaRoute isos irq) = Inr r"
  shows "irq < IRQ_ISA_COUNT \<and> ((\<exists>a \<in> set (accepted isos). unat (a_source a) = irq \<and> gsi r = a_gsi a)
    \<or> (gsi r = of_nat irq \<and> (\<forall>a \<in> set (accepted isos). unat (a_gsi a) \<noteq> irq)))"
proof -
  have i: "irq < IRQ_ISA_COUNT" using assms by (auto simp: irqCoreIsaRoute_def split: if_splits)
  show ?thesis
  proof (cases "\<exists>a \<in> set (accepted isos). unat (a_source a) = irq")
    case True
    then obtain a where a: "a \<in> set (accepted isos)" "unat (a_source a) = irq" by blast
    then have "gsi r = a_gsi a" using assms [unfolded route_override [OF i a]] by auto
    then show ?thesis using i a by blast
  next
    case False
    then show ?thesis using assms i route_identity [OF i, of isos] by (auto split: if_splits)
  qed
qed

section \<open>Interrupt ranges\<close>

definition gsiSet :: "IrqGsiRange \<Rightarrow> nat set" where
  "gsiSet r = {unat (gsiBase r)..<unat (gsiBase r) + unat (pins r)}"

lemma unat_range_end: "unat ((ucast (gsiBase r) :: u64) + ucast (pins r)) = unat (gsiBase r) + unat (pins r)"
  using unat_lt_32 [of "gsiBase r"] unat_lt_32 [of "pins r"] by (subst unat_add_nowrap) (simp_all add: unat_ucast_32_64)

lemma gsi_in_range:
  "g \<ge> gsiBase r \<and> (ucast g :: u64) < ucast (gsiBase r) + ucast (pins r) \<longleftrightarrow> unat g \<in> gsiSet r"
  using unat_lt_32 [of g]
  by (simp add: gsiSet_def word_le_nat_alt word_less_nat_alt unat_range_end unat_ucast_32_64)

lemma overlaps_iff:
  assumes "\<forall>x \<in> set rs. pins x \<noteq> 0"
  shows "irqCoreGsiOverlaps rs c \<longleftrightarrow> gsiSet c = {} \<or> (\<exists>x \<in> set rs. gsiSet c \<inter> gsiSet x \<noteq> {})"
proof -
  have e: "gsiSet c = {} \<longleftrightarrow> pins c = 0" by (auto simp: gsiSet_def unat_eq_0)
  have "(let lo = ucast (gsiBase x) :: u64; hi = lo + ucast (pins x) in ucast (gsiBase c) < hi \<and> lo < ucast (gsiBase c) + ucast (pins c))
      \<longleftrightarrow> gsiSet c \<inter> gsiSet x \<noteq> {}" if "pins c \<noteq> 0" "pins x \<noteq> 0" for x
  proof -
    have "0 < unat (pins c)" "0 < unat (pins x)" using that by (simp_all add: unat_gt_0)
    then show ?thesis
      by (auto simp: Let_def word_less_nat_alt unat_range_end unat_ucast_32_64 gsiSet_def max_def)
  qed
  then show ?thesis using assms e by (auto simp: irqCoreGsiOverlaps_def Let_def list_ex_iff)
qed

lemma gsiScan_exact:
  assumes "\<forall>i j. i < length rs \<and> j < length rs \<and> i \<noteq> j \<longrightarrow> gsiSet (rs ! i) \<inter> gsiSet (rs ! j) = {}"
  shows "gsiScan k rs g = Some (n, p) \<longleftrightarrow> (\<exists>i < length rs. n = k + i \<and> unat g \<in> gsiSet (rs ! i) \<and> p = g - gsiBase (rs ! i))"
  using assms
proof (induction rs arbitrary: k)
  case (Cons r rs)
  have ih: "gsiScan (k + 1) rs g = Some (n, p) \<longleftrightarrow> (\<exists>i < length rs. n = k + 1 + i \<and> unat g \<in> gsiSet (rs ! i) \<and> p = g - gsiBase (rs ! i))"
    using Cons.prems by (intro Cons.IH) (metis Suc_inject Suc_less_eq length_Cons nth_Cons_Suc)
  have dj: "unat g \<in> gsiSet r \<Longrightarrow> i < length rs \<Longrightarrow> unat g \<notin> gsiSet (rs ! i)" for i
    using Cons.prems [rule_format, of 0 "Suc i"] by auto
  show ?case
  proof (cases "unat g \<in> gsiSet r")
    case True
    then show ?thesis using dj by (auto simp: gsi_in_range less_Suc_eq_0_disj)
  next
    case False
    then have "gsiScan k (r # rs) g = gsiScan (k + 1) rs g" by (simp add: gsi_in_range)
    then show ?thesis using ih False by (auto simp: less_Suc_eq_0_disj)
  qed
qed simp

section \<open>Properties\<close>

text \<open>
  C29: The vector map behaves as a set of vectors handed out. Starting from the initialised map and
  after any sequence of allocations and releases, the vectors that are out are exactly those the map
  reports as allocated, they lie in 48 to 239, the count is exact, the next allocation returns the
  lowest vector that is not out and fails only when all 192 are out, and a release succeeds exactly for
  a vector that is out.
\<close>

theorem irq_vectors_exact:
  assumes "length (used m0) = 4" and "vmap.reach (irqVectorMapInit m0) m L"
  shows "L \<subseteq> {48..239} \<and> (\<forall>v. irqVectorMapIsAllocated m v \<longleftrightarrow> v \<in> L)
    \<and> unat (irqVectorMapAllocatedCount m) = card L
    \<and> (case irqVectorMapAlloc m of Inr (m', v) \<Rightarrow> v = Min ({48..239} - L) \<and> v \<notin> L \<and> L \<noteq> {48..239}
       | Inl e \<Rightarrow> e = STATUS_ERR_NO_MEMORY \<and> L = {48..239})
    \<and> (\<forall>v. (\<exists>m'. irqVectorMapFree m v = Inr m') \<longleftrightarrow> v \<in> L)"
proof -
  note i = irqVectorMapInit_wf [OF assms(1)]
  have w: "vmapWf m" and h: "vmapHeld m L"
    using vmap.reach_inv [OF assms(2)] i by (auto simp: vmapWhole_def vmapHeld_alt)
  have L: "L = {48..239} - vmapFree m" using h by (simp add: vmapHeld_alt)
  have a: "irqVectorMapIsAllocated m v \<longleftrightarrow> v \<in> L" for v using h by (simp add: vmapHeld_def)
  have "card L \<le> card {48..239 :: nat}" using L by (intro card_mono) auto
  then have c: "unat (irqVectorMapAllocatedCount m) = card L" by (simp add: count_allocated a unat_of_nat_eq)
  have fr: "{48..239} - L = vmapFree m" using L vmapFree_sub [of m] by blast
  have "case irqVectorMapAlloc m of Inr (m', v) \<Rightarrow> v = Min ({48..239} - L) \<and> v \<notin> L \<and> L \<noteq> {48..239}
       | Inl e \<Rightarrow> e = STATUS_ERR_NO_MEMORY \<and> L = {48..239}"
  proof (cases "irqVectorMapAlloc m")
    case (Inl e)
    then show ?thesis using alloc_full [OF Inl] L by simp
  next
    case (Inr r)
    obtain m' v where r: "r = (m', v)" by (cases r)
    note e = alloc_effect [OF w Inr [unfolded r]]
    have "finite (vmapFree m)" using finite_subset [OF vmapFree_sub] by simp
    then have "Min (vmapFree m) = v" using e(2,3) by (intro Min_eqI) auto
    then show ?thesis using e(2) fr Inr r by auto
  qed
  moreover have "(\<exists>m'. irqVectorMapFree m v = Inr m') \<longleftrightarrow> v \<in> L" for v
    by (simp add: irqVectorMapFree_def a)
  ultimately show ?thesis using a c L by blast
qed

theorem irq_vectors_exact_witness:
  "irqVectorMapAlloc (irqVectorMapInit \<lparr>used = [0, 0, 0, 0]\<rparr>) \<noteq> Inl STATUS_ERR_NO_MEMORY
    \<and> irqVectorMapAllocatedCount (irqVectorMapInit \<lparr>used = [0, 0, 0, 0]\<rparr>) = 0"
proof -
  have r: "vmap.reach (irqVectorMapInit \<lparr>used = [0, 0, 0, 0]\<rparr>) (irqVectorMapInit \<lparr>used = [0, 0, 0, 0]\<rparr>) {}"
    by (rule vmap.reach.start)
  show ?thesis using irq_vectors_exact [OF _ r] by (auto simp: unat_eq_0 split: sum.splits)
qed

text \<open>
  C30: Legacy interrupts never share a line. Whatever overrides the firmware lists, at most 16 of them
  are kept, so the fixed array is never overrun; two different interrupts that both resolve are
  routed to different global interrupt numbers; an interrupt with a kept override gets the override's
  number, and one without gets its own number unless a kept override has taken it.
\<close>

theorem isa_routes_distinct:
  shows "length (accepted isos) \<le> IRQ_ISA_COUNT
    \<and> (\<forall>irq1 irq2 r1 r2. irq1 \<noteq> irq2 \<and> fst (irqCoreIsaRoute isos irq1) = Inr r1 \<and> fst (irqCoreIsaRoute isos irq2) = Inr r2
         \<longrightarrow> gsi r1 \<noteq> gsi r2)
    \<and> (\<forall>irq a. a \<in> set (accepted isos) \<and> unat (a_source a) = irq \<longrightarrow>
         (\<exists>r. fst (irqCoreIsaRoute isos irq) = Inr r \<and> gsi r = a_gsi a))
    \<and> (\<forall>irq < IRQ_ISA_COUNT. (\<forall>a \<in> set (accepted isos). unat (a_source a) \<noteq> irq) \<longrightarrow>
         (if \<exists>a \<in> set (accepted isos). unat (a_gsi a) = irq then fst (irqCoreIsaRoute isos irq) = Inl STATUS_ERR_NOT_FOUND
          else \<exists>r. fst (irqCoreIsaRoute isos irq) = Inr r \<and> unat (gsi r) = irq))"
proof -
  have ok: "acceptOk (accepted isos)" using accept_ok [of isos] by (simp add: accepted_def)
  have dj: "gsi r1 \<noteq> gsi r2" if n: "irq1 \<noteq> irq2" and r: "fst (irqCoreIsaRoute isos irq1) = Inr r1" "fst (irqCoreIsaRoute isos irq2) = Inr r2"
    for irq1 irq2 r1 r2
  proof
    assume g: "gsi r1 = gsi r2"
    have u: "unat (of_nat i :: u32) = i" if "i < 16" for i using that by (simp add: unat_of_nat_eq)
    have "a_source a = a_source b" if "a \<in> set (accepted isos)" "b \<in> set (accepted isos)" "a_gsi a = a_gsi b" for a b
      using ok that by (auto simp: acceptOk_def distinct_map dest: inj_onD)
    then show False using route_cases [OF r(1)] route_cases [OF r(2)] n g u by metis
  qed
  have ov: "\<exists>r. fst (irqCoreIsaRoute isos irq) = Inr r \<and> gsi r = a_gsi a"
    if "a \<in> set (accepted isos)" "unat (a_source a) = irq" for irq a
    using route_override [of irq a isos] that ok by (auto simp: acceptOk_def)
  have id: "if \<exists>a \<in> set (accepted isos). unat (a_gsi a) = irq then fst (irqCoreIsaRoute isos irq) = Inl STATUS_ERR_NOT_FOUND
          else \<exists>r. fst (irqCoreIsaRoute isos irq) = Inr r \<and> unat (gsi r) = irq"
    if "irq < IRQ_ISA_COUNT" "\<forall>a \<in> set (accepted isos). unat (a_source a) \<noteq> irq" for irq
    using route_identity [OF that] that(1) by (auto simp: unat_of_nat_eq)
  show ?thesis using accept_room [OF ok] dj ov id by blast
qed

theorem isa_routes_distinct_witness:
  "accepted [\<lparr>bus = 0, source = 0, iso_gsi = 2, iso_flags = 0\<rparr>] = [\<lparr>a_source = 0, a_gsi = 2, a_flags = 0\<rparr>]
   \<and> fst (irqCoreIsaRoute [\<lparr>bus = 0, source = 0, iso_gsi = 2, iso_flags = 0\<rparr>] 2) = Inl STATUS_ERR_NOT_FOUND"
proof -
  have a: "accepted [\<lparr>bus = 0, source = 0, iso_gsi = 2, iso_flags = 0\<rparr>] = [\<lparr>a_source = 0, a_gsi = 2, a_flags = 0\<rparr>]"
    by (simp add: accepted_def acceptIso_def)
  then show ?thesis
    using isa_routes_distinct [of "[\<lparr>bus = 0, source = 0, iso_gsi = 2, iso_flags = 0\<rparr>]"] by simp
qed

end
