(* ===== verification/Io_Apic.thy ===== *)
theory Io_Apic
  imports Irq_Core
begin

text \<open>
  The I/O interrupt controllers, \<open>kernel/arch/x86_64/ioapic.c\<close>, over the lookup of \<open>irq-core.c\<close>. A
  device is its index register and a file of 32-bit registers that hold what was last written; the two
  are stores keyed by the mapped window. \<open>vmmMapMmio\<close> is the parameter \<open>mapMmio\<close>, which is told the
  windows in use. Log output and the unmapping of a rejected window do not touch this state.
\<close>

abbreviation ACPI_MAX_IOAPICS :: nat where "ACPI_MAX_IOAPICS \<equiv> 16"
abbreviation ACPI_MAX_NMI_SOURCES :: nat where "ACPI_MAX_NMI_SOURCES \<equiv> 16"
abbreviation IOAPIC_REG_ID :: u32 where "IOAPIC_REG_ID \<equiv> 0"
abbreviation IOAPIC_REG_VER :: u32 where "IOAPIC_REG_VER \<equiv> 1"
abbreviation IOAPIC_REG_REDIR :: u32 where "IOAPIC_REG_REDIR \<equiv> 0x10"
abbreviation IOAPIC_MAX_PINS :: u32 where "IOAPIC_MAX_PINS \<equiv> 120"

definition IOAPIC_RTE_MASK_BIT :: u32 where
  "IOAPIC_RTE_MASK_BIT = push_bit 16 1"

record Ioapic =
  mmio :: u64
  io_id :: u8

record AcpiIoApic =
  apic_id :: u8
  address :: u32
  apic_gsiBase :: u32

record IoapicState =
  ioapics :: "Ioapic list"
  ranges :: "IrqGsiRange list"
  reservedGsi :: "u32 list"
  regsel :: "u64 \<Rightarrow> u32"
  regs :: "u64 \<Rightarrow> u32 \<Rightarrow> u32"

section \<open>Register access\<close>

definition regRead :: "Ioapic \<Rightarrow> u32 \<Rightarrow> IoapicState \<Rightarrow> u32 \<times> IoapicState" where
  "regRead io reg st =
     (let st1 = st\<lparr>regsel := (regsel st)(mmio io := reg)\<rparr>
      in (regs st1 (mmio io) (regsel st1 (mmio io)), st1))"

definition regWrite :: "Ioapic \<Rightarrow> u32 \<Rightarrow> u32 \<Rightarrow> IoapicState \<Rightarrow> IoapicState" where
  "regWrite io reg v st =
     (let st1 = st\<lparr>regsel := (regsel st)(mmio io := reg)\<rparr>
      in st1\<lparr>regs := (regs st1)(mmio io := (regs st1 (mmio io))(regsel st1 (mmio io) := v))\<rparr>)"

section \<open>Initialisation\<close>

definition maskPin :: "Ioapic \<Rightarrow> nat \<Rightarrow> IoapicState \<Rightarrow> IoapicState" where
  "maskPin io p st =
     regWrite io (IOAPIC_REG_REDIR + 2 * of_nat p + 1) 0
       (regWrite io (IOAPIC_REG_REDIR + 2 * of_nat p) IOAPIC_RTE_MASK_BIT st)"

definition ioapicInitOne :: "(u64 list \<Rightarrow> u32 \<Rightarrow> Status + u64) \<Rightarrow> AcpiIoApic \<Rightarrow> IoapicState \<Rightarrow> IoapicState" where
  "ioapicInitOne mapMmio a st =
     (if address a AND 0xF \<noteq> 0 then st
      else case mapMmio (map mmio (ioapics st)) (address a) of
        Inl e \<Rightarrow> st
      | Inr va \<Rightarrow>
          let io = \<lparr>mmio = va, io_id = apic_id a\<rparr>;
              (idReg, st1) = regRead io IOAPIC_REG_ID st;
              (ver, st2) = regRead io IOAPIC_REG_VER st1;
              np = irqCoreIoapicPins ver;
              range = \<lparr>gsiBase = apic_gsiBase a, pins = (if np > IOAPIC_MAX_PINS then IOAPIC_MAX_PINS else np)\<rparr>
          in if irqCoreGsiOverlaps (ranges st2) range then st2
             else let st3 = fold (maskPin io) [0..<unat (pins range)] st2
               in st3\<lparr>ioapics := ioapics st3 @ [io], ranges := ranges st3 @ [range]\<rparr>)"

fun ioapicInitLoop :: "(u64 list \<Rightarrow> u32 \<Rightarrow> Status + u64) \<Rightarrow> AcpiIoApic list \<Rightarrow> IoapicState \<Rightarrow> IoapicState" where
  "ioapicInitLoop mapMmio [] st = st"
| "ioapicInitLoop mapMmio (a # as) st =
     (if length (ioapics st) < ACPI_MAX_IOAPICS then ioapicInitLoop mapMmio as (ioapicInitOne mapMmio a st) else st)"

fun reserveLoop :: "u32 list \<Rightarrow> IoapicState \<Rightarrow> IoapicState" where
  "reserveLoop [] st = st"
| "reserveLoop (g # gs) st =
     (if length (reservedGsi st) < ACPI_MAX_NMI_SOURCES then reserveLoop gs (st\<lparr>reservedGsi := reservedGsi st @ [g]\<rparr>) else st)"

definition ioapicInitAll :: "(u64 list \<Rightarrow> u32 \<Rightarrow> Status + u64) \<Rightarrow> AcpiIoApic list \<Rightarrow> u32 list \<Rightarrow> IoapicState \<Rightarrow> IoapicState" where
  "ioapicInitAll mapMmio as nmis st = reserveLoop nmis (ioapicInitLoop mapMmio as st)"

section \<open>Operations\<close>

definition ioapicCount :: "IoapicState \<Rightarrow> nat" where
  "ioapicCount st = length (ioapics st)"

definition ioapicInfo :: "IoapicState \<Rightarrow> nat \<Rightarrow> (u32 \<times> u32) option" where
  "ioapicInfo st index =
     (if index \<ge> length (ioapics st) then None else Some (gsiBase (ranges st ! index), pins (ranges st ! index)))"

definition ioapicGsiUsable :: "IoapicState \<Rightarrow> u32 \<Rightarrow> bool" where
  "ioapicGsiUsable st g = (if irqCoreGsiLookup (ranges st) g = None then False else \<not> list_ex (\<lambda>r. r = g) (reservedGsi st))"

definition findPin :: "IoapicState \<Rightarrow> u32 \<Rightarrow> (Ioapic \<times> u32) option" where
  "findPin st g = (case irqCoreGsiLookup (ranges st) g of None \<Rightarrow> None | Some (i, p) \<Rightarrow> Some (ioapics st ! i, p))"

text \<open>The three register writes of an update, in order.\<close>

definition rteWrites :: "u32 \<Rightarrow> u64 \<Rightarrow> (u32 \<times> u32) list" where
  "rteWrites pin rte =
     [(IOAPIC_REG_REDIR + 2 * pin, ucast rte OR IOAPIC_RTE_MASK_BIT),
      (IOAPIC_REG_REDIR + 2 * pin + 1, ucast (drop_bit 32 rte)),
      (IOAPIC_REG_REDIR + 2 * pin, ucast rte)]"

definition doWrites :: "Ioapic \<Rightarrow> (u32 \<times> u32) list \<Rightarrow> IoapicState \<Rightarrow> IoapicState" where
  "doWrites io ws st = fold (\<lambda>(r, v) st. regWrite io r v st) ws st"

definition ioapicWriteRte :: "u32 \<Rightarrow> u64 \<Rightarrow> IoapicState \<Rightarrow> Status + IoapicState" where
  "ioapicWriteRte g rte st =
     (case findPin st g of
        None \<Rightarrow> Inl STATUS_ERR_NOT_FOUND
      | Some (io, pin) \<Rightarrow> Inr (doWrites io (rteWrites pin rte) st))"

definition ioapicSetMask :: "u32 \<Rightarrow> bool \<Rightarrow> IoapicState \<Rightarrow> Status + IoapicState" where
  "ioapicSetMask g masked st =
     (case findPin st g of
        None \<Rightarrow> Inl STATUS_ERR_NOT_FOUND
      | Some (io, pin) \<Rightarrow>
          let (lo, st1) = regRead io (IOAPIC_REG_REDIR + 2 * pin) st;
              lo' = (if masked then lo OR IOAPIC_RTE_MASK_BIT else lo AND NOT IOAPIC_RTE_MASK_BIT)
          in Inr (regWrite io (IOAPIC_REG_REDIR + 2 * pin) lo' st1))"

definition ioapicReadRte :: "u32 \<Rightarrow> IoapicState \<Rightarrow> Status + (u64 \<times> IoapicState)" where
  "ioapicReadRte g st =
     (case findPin st g of
        None \<Rightarrow> Inl STATUS_ERR_NOT_FOUND
      | Some (io, pin) \<Rightarrow>
          let (lo, st1) = regRead io (IOAPIC_REG_REDIR + 2 * pin) st;
              (hi, st2) = regRead io (IOAPIC_REG_REDIR + 2 * pin + 1) st1
          in Inr (push_bit 32 (ucast hi) OR ucast lo, st2))"

section \<open>The invariant\<close>

definition rangesOk :: "IrqGsiRange list \<Rightarrow> bool" where
  "rangesOk rs \<longleftrightarrow> (\<forall>i j. i < length rs \<and> j < length rs \<and> i \<noteq> j \<longrightarrow> gsiSet (rs ! i) \<inter> gsiSet (rs ! j) = {})
     \<and> (\<forall>r \<in> set rs. 0 < unat (pins r) \<and> unat (pins r) \<le> 120)"

definition ioapicWf :: "IoapicState \<Rightarrow> bool" where
  "ioapicWf st \<longleftrightarrow> length (ranges st) = length (ioapics st) \<and> length (ioapics st) \<le> ACPI_MAX_IOAPICS
     \<and> distinct (map mmio (ioapics st)) \<and> rangesOk (ranges st)"

text \<open>The redirection entry of a line, as the hardware holds it.\<close>

definition entryOf :: "IoapicState \<Rightarrow> Ioapic \<Rightarrow> u32 \<Rightarrow> u64" where
  "entryOf st io pin = push_bit 32 (ucast (regs st (mmio io) (IOAPIC_REG_REDIR + 2 * pin + 1)))
     OR ucast (regs st (mmio io) (IOAPIC_REG_REDIR + 2 * pin))"

definition entryMasked :: "u64 \<Rightarrow> bool" where
  "entryMasked e = bit e 16"

definition mapsFresh :: "(u64 list \<Rightarrow> u32 \<Rightarrow> Status + u64) \<Rightarrow> bool" where
  "mapsFresh mapMmio \<longleftrightarrow> (\<forall>live a va. mapMmio live a = Inr va \<longrightarrow> va \<notin> set live)"

lemma regRead_regs [simp]:
  "fst (regRead io r st) = regs st (mmio io) r" "regs (snd (regRead io r st)) = regs st"
  "ioapics (snd (regRead io r st)) = ioapics st" "ranges (snd (regRead io r st)) = ranges st"
  "reservedGsi (snd (regRead io r st)) = reservedGsi st"
  by (simp_all add: regRead_def Let_def)

lemma regWrite_fields [simp]:
  "regs (regWrite io r v st) = (regs st)(mmio io := (regs st (mmio io))(r := v))"
  "ioapics (regWrite io r v st) = ioapics st" "ranges (regWrite io r v st) = ranges st"
  "reservedGsi (regWrite io r v st) = reservedGsi st"
  by (simp_all add: regWrite_def Let_def)

lemma redir_distinct:
  assumes "unat p < 120" "unat q < 120"
  shows "IOAPIC_REG_REDIR + 2 * p = IOAPIC_REG_REDIR + 2 * q \<longleftrightarrow> p = q"
    "IOAPIC_REG_REDIR + 2 * p + 1 = IOAPIC_REG_REDIR + 2 * q + 1 \<longleftrightarrow> p = q"
    "IOAPIC_REG_REDIR + 2 * p \<noteq> IOAPIC_REG_REDIR + 2 * q + 1"
proof -
  have u: "unat (IOAPIC_REG_REDIR + 2 * x) = 16 + 2 * unat x" if "unat x < 120" for x :: u32
  proof -
    have "unat (2 * x) = 2 * unat x" using that by (subst unat_mult_nowrap) auto
    then show ?thesis using that by (subst unat_add_nowrap) auto
  qed
  have u1: "unat (IOAPIC_REG_REDIR + 2 * x + 1) = 17 + 2 * unat x" if "unat x < 120" for x :: u32
    using u [OF that] that by (subst unat_add_nowrap) auto
  have i: "IOAPIC_REG_REDIR + 2 * p = IOAPIC_REG_REDIR + 2 * q \<longleftrightarrow> p = q"
    using u [OF assms(1)] u [OF assms(2)] by (auto simp: unat_inj [symmetric] simp del: unat_inj)
  then show "IOAPIC_REG_REDIR + 2 * p = IOAPIC_REG_REDIR + 2 * q \<longleftrightarrow> p = q" .
  show "IOAPIC_REG_REDIR + 2 * p + 1 = IOAPIC_REG_REDIR + 2 * q + 1 \<longleftrightarrow> p = q"
    using i by (simp only: add_right_cancel)
  show "IOAPIC_REG_REDIR + 2 * p \<noteq> IOAPIC_REG_REDIR + 2 * q + 1"
  proof
    assume "IOAPIC_REG_REDIR + 2 * p = IOAPIC_REG_REDIR + 2 * q + 1"
    then have "16 + 2 * unat p = 17 + 2 * unat q" using u [OF assms(1)] u1 [OF assms(2)] by metis
    then show False by presburger
  qed
qed

lemma maskPin_fields [simp]:
  "w \<noteq> mmio io \<Longrightarrow> regs (maskPin io n st) w = regs st w"
  "ioapics (maskPin io n st) = ioapics st" "ranges (maskPin io n st) = ranges st"
  "reservedGsi (maskPin io n st) = reservedGsi st"
  by (simp_all add: maskPin_def)

lemma maskPins_fields [simp]:
  "w \<noteq> mmio io \<Longrightarrow> regs (fold (maskPin io) ps st) w = regs st w"
  "ioapics (fold (maskPin io) ps st) = ioapics st" "ranges (fold (maskPin io) ps st) = ranges st"
  "reservedGsi (fold (maskPin io) ps st) = reservedGsi st"
  by (induction ps arbitrary: st) simp_all

lemma entry_maskPin:
  assumes "p \<le> n" "n < 120"
  shows "entryOf (maskPin io n st) io (of_nat p) = (if p = n then push_bit 16 1 else entryOf st io (of_nat p))"
proof -
  have u: "unat (of_nat p :: u32) = p" "unat (of_nat n :: u32) = n" using assms by (simp_all add: unat_of_nat_eq)
  then have l: "unat (of_nat p :: u32) < 120" "unat (of_nat n :: u32) < 120" using assms by simp_all
  have i: "(of_nat p :: u32) = of_nat n \<longleftrightarrow> p = n" using u by metis
  note d = redir_distinct [OF l] redir_distinct [OF l(2,1)]
  show ?thesis
    unfolding entryOf_def maskPin_def regWrite_fields fun_upd_apply
    by (simp only: d d(3) [symmetric] d(6) [symmetric] i simp_thms if_True if_False) (simp add: IOAPIC_RTE_MASK_BIT_def)
qed

lemma entry_maskPins:
  assumes "n \<le> 120"
  shows "\<forall>p < n. entryOf (fold (maskPin io) [0..<n] st) io (of_nat p) = push_bit 16 1"
  using assms by (induction n) (simp_all add: less_Suc_eq entry_maskPin)

lemma entryOf_other: "regs st' (mmio io) = regs st (mmio io) \<Longrightarrow> entryOf st' io p = entryOf st io p"
  by (simp add: entryOf_def)

definition allMasked :: "IoapicState \<Rightarrow> bool" where
  "allMasked st \<longleftrightarrow> (\<forall>i < length (ioapics st). \<forall>p < unat (pins (ranges st ! i)).
     entryMasked (entryOf st (ioapics st ! i) (of_nat p)))"

lemma pins_pos: "0 < unat (irqCoreIoapicPins v)"
proof -
  have "unat (drop_bit 16 v AND 0xFF) \<le> 255"
    using word_and_le1 [of "drop_bit 16 v" "0xFF"] by (simp add: word_le_nat_alt)
  then show ?thesis by (simp add: irqCoreIoapicPins_def unat_add_nowrap)
qed

lemma ioapicInitOne_wf:
  assumes w: "ioapicWf st" and m: "allMasked st" and l: "length (ioapics st) < ACPI_MAX_IOAPICS" and f: "mapsFresh mapMmio"
  shows "ioapicWf (ioapicInitOne mapMmio a st) \<and> allMasked (ioapicInitOne mapMmio a st)
    \<and> reservedGsi (ioapicInitOne mapMmio a st) = reservedGsi st"
proof (cases "mapMmio (map mmio (ioapics st)) (address a)")
  case (Inl e)
  then show ?thesis using w m by (simp add: ioapicInitOne_def)
next
  case (Inr va)
  define io where "io = \<lparr>mmio = va, io_id = apic_id a\<rparr>"
  define st2 where "st2 = snd (regRead io IOAPIC_REG_VER (snd (regRead io IOAPIC_REG_ID st)))"
  define np where "np = irqCoreIoapicPins (regs st va IOAPIC_REG_VER)"
  define rg where "rg = \<lparr>gsiBase = apic_gsiBase a, pins = (if np > IOAPIC_MAX_PINS then IOAPIC_MAX_PINS else np)\<rparr>"
  define st3 where "st3 = fold (maskPin io) [0..<unat (pins rg)] st2"
  have e: "ioapicInitOne mapMmio a st = (if address a AND 0xF \<noteq> 0 then st
     else if irqCoreGsiOverlaps (ranges st) rg then st2
     else st3\<lparr>ioapics := ioapics st @ [io], ranges := ranges st @ [rg]\<rparr>)"
    using Inr by (simp add: ioapicInitOne_def Let_def split_def io_def [symmetric] st2_def st3_def rg_def np_def)
      (simp add: io_def)
  have s2: "regs st2 = regs st" "ioapics st2 = ioapics st" "ranges st2 = ranges st" "reservedGsi st2 = reservedGsi st"
    by (simp_all add: st2_def)
  have va: "va \<notin> mmio ` set (ioapics st)" using f Inr by (force simp: mapsFresh_def)
  have pr: "0 < unat (pins rg)" "unat (pins rg) \<le> 120"
    using pins_pos [of "regs st va IOAPIC_REG_VER"] by (simp_all add: rg_def np_def word_less_nat_alt not_less)
  have 2: "ioapicWf st2 \<and> allMasked st2" using w m s2 by (simp add: ioapicWf_def allMasked_def entryOf_def)
  have 3: "ioapicWf (st3\<lparr>ioapics := ioapics st @ [io], ranges := ranges st @ [rg]\<rparr>)" if no: "\<not> irqCoreGsiOverlaps (ranges st) rg"
  proof -
    have R: "rangesOk (ranges st)" using w by (simp add: ioapicWf_def)
    have "\<forall>x \<in> set (ranges st). pins x \<noteq> 0" using R by (force simp: rangesOk_def)
    then have "\<forall>x \<in> set (ranges st). gsiSet rg \<inter> gsiSet x = {}" using no overlaps_iff [of "ranges st" rg] by blast
    then have d: "\<And>i. i < length (ranges st) \<Longrightarrow> gsiSet rg \<inter> gsiSet (ranges st ! i) = {}" by (meson nth_mem)
    have "rangesOk (ranges st @ [rg])"
      using R pr d unfolding rangesOk_def by (auto simp: nth_append less_Suc_eq Int_commute)
    then show ?thesis using w l va by (auto simp: ioapicWf_def io_def)
  qed
  have M: "allMasked (st3\<lparr>ioapics := ioapics st @ [io], ranges := ranges st @ [rg]\<rparr>)"
  proof -
    have new: "entryMasked (entryOf st3 io (of_nat p))" if "p < unat (pins rg)" for p
      using entry_maskPins [OF pr(2), of io st2] that by (simp add: st3_def entryMasked_def bit_simps)
    have old: "entryOf st3 x p = entryOf st x p" if "x \<in> set (ioapics st)" for x p
    proof (rule entryOf_other)
      have "mmio x \<noteq> mmio io" using that va by (auto simp: io_def)
      then show "regs st3 (mmio x) = regs st (mmio x)" using s2 by (simp add: st3_def)
    qed
    have len: "length (ranges st) = length (ioapics st)" using w by (simp add: ioapicWf_def)
    show ?thesis
      using m new old len unfolding allMasked_def entryOf_def
      by (auto simp: nth_append less_Suc_eq entryMasked_def)
  qed
  show ?thesis using e w m 2 3 M s2 by (simp add: st3_def)
qed

lemma ioapicInitLoop_wf:
  "ioapicWf st \<Longrightarrow> allMasked st \<Longrightarrow> mapsFresh mapMmio \<Longrightarrow>
     ioapicWf (ioapicInitLoop mapMmio as st) \<and> allMasked (ioapicInitLoop mapMmio as st)
     \<and> reservedGsi (ioapicInitLoop mapMmio as st) = reservedGsi st"
  by (induction as arbitrary: st) (simp_all add: ioapicInitOne_wf)

lemma reserveLoop_eq:
  "length (reservedGsi st) \<le> ACPI_MAX_NMI_SOURCES \<Longrightarrow>
     reserveLoop gs st = st\<lparr>reservedGsi := reservedGsi st @ take (ACPI_MAX_NMI_SOURCES - length (reservedGsi st)) gs\<rparr>"
proof (induction gs arbitrary: st)
  case (Cons g gs)
  then show ?case
    by (cases "length (reservedGsi st) < ACPI_MAX_NMI_SOURCES") (auto simp: take_Cons' not_less)
qed simp

lemma lookup_exact:
  assumes "rangesOk rs"
  shows "irqCoreGsiLookup rs g = Some (i, p) \<longleftrightarrow> i < length rs \<and> unat g \<in> gsiSet (rs ! i) \<and> p = g - gsiBase (rs ! i)"
  using gsiScan_exact [of rs 0 g i p] assms by (auto simp: irqCoreGsiLookup_def rangesOk_def)

lemma lookup_None: "irqCoreGsiLookup rs g = None \<longleftrightarrow> (\<forall>r \<in> set rs. unat g \<notin> gsiSet r)"
proof -
  have "gsiScan k rs g = None \<longleftrightarrow> (\<forall>r \<in> set rs. unat g \<notin> gsiSet r)" for k
    by (induction rs arbitrary: k) (auto simp: gsi_in_range)
  then show ?thesis by (simp add: irqCoreGsiLookup_def)
qed

lemma findPin_Some:
  assumes "ioapicWf st" "findPin st g = Some (io, p)"
  shows "\<exists>i < length (ioapics st). io = ioapics st ! i \<and> unat g = unat (gsiBase (ranges st ! i)) + unat p
     \<and> unat p < unat (pins (ranges st ! i)) \<and> unat p < 120"
proof -
  have R: "rangesOk (ranges st)" "length (ranges st) = length (ioapics st)" using assms(1) by (simp_all add: ioapicWf_def)
  obtain i where i: "irqCoreGsiLookup (ranges st) g = Some (i, p)" "io = ioapics st ! i"
    using assms(2) by (auto simp: findPin_def split: option.splits)
  then have l: "i < length (ranges st)" "unat g \<in> gsiSet (ranges st ! i)" "p = g - gsiBase (ranges st ! i)"
    using lookup_exact [OF R(1)] by auto
  then have "unat p = unat g - unat (gsiBase (ranges st ! i))" by (auto simp: gsiSet_def unat_sub_le)
  moreover have "unat (pins (ranges st ! i)) \<le> 120" using R(1) l(1) by (simp add: rangesOk_def)
  ultimately show ?thesis using l i R(2) by (intro exI [of _ i]) (auto simp: gsiSet_def)
qed

lemma lo_hi_join:
  fixes e :: u64
  shows "push_bit 32 (ucast (ucast (drop_bit 32 e) :: u32)) OR ucast (ucast e :: u32) = e"
  by (rule bit_word_eqI) (auto simp: bit_simps)

lemma bit_entry_16: "bit (push_bit 32 (ucast (hi :: u32)) OR ucast (lo :: u32) :: u64) 16 \<longleftrightarrow> bit lo 16"
  by (simp add: bit_simps)

text \<open>Every pin found is reached through one window and one pair of registers.\<close>

lemma findPin_inj:
  assumes w: "ioapicWf st" and a: "findPin st g = Some (io, p)" and b: "findPin st h = Some (io', q)"
    and m: "mmio io = mmio io'" and pq: "p = q"
  shows "g = h"
proof -
  obtain i where i: "i < length (ioapics st)" "io = ioapics st ! i" "unat g = unat (gsiBase (ranges st ! i)) + unat p"
    using findPin_Some [OF w a] by blast
  obtain j where j: "j < length (ioapics st)" "io' = ioapics st ! j" "unat h = unat (gsiBase (ranges st ! j)) + unat q"
    using findPin_Some [OF w b] by blast
  have "distinct (map mmio (ioapics st))" using w by (simp add: ioapicWf_def)
  then have "i = j" using i j m by (simp add: distinct_conv_nth) metis
  then have "unat g = unat h" using i j pq by simp
  then show ?thesis by simp
qed

lemma writes_other:
  assumes "w \<noteq> mmio io \<or> r \<notin> fst ` set ws"
  shows "regs (doWrites io ws st) w r = regs st w r"
  using assms by (induction ws arbitrary: st) (auto simp: doWrites_def)

lemma doWrites_fields [simp]:
  "ioapics (doWrites io ws st) = ioapics st" "ranges (doWrites io ws st) = ranges st"
  "reservedGsi (doWrites io ws st) = reservedGsi st"
  by (induction ws arbitrary: st) (auto simp: doWrites_def)

lemma findPin_writes [simp]: "findPin (doWrites io ws st) g = findPin st g"
  unfolding findPin_def doWrites_fields ..

lemma writes_entry_other:
  assumes w: "ioapicWf st" and a: "findPin st g = Some (io, p)" and b: "findPin st h = Some (io', q)" and n: "h \<noteq> g"
    and ws: "fst ` set ws \<subseteq> {IOAPIC_REG_REDIR + 2 * p, IOAPIC_REG_REDIR + 2 * p + 1}"
  shows "entryOf (doWrites io ws st) io' q = entryOf st io' q"
proof -
  have l: "unat p < 120" "unat q < 120" using findPin_Some [OF w a] findPin_Some [OF w b] by blast+
  have "mmio io' \<noteq> mmio io \<or> p \<noteq> q" using findPin_inj [OF w a b] n by metis
  moreover have "IOAPIC_REG_REDIR + 2 * q \<notin> fst ` set ws \<and> IOAPIC_REG_REDIR + 2 * q + 1 \<notin> fst ` set ws" if "p \<noteq> q"
  proof -
    have ni: "x \<notin> fst ` set ws" if "x \<noteq> IOAPIC_REG_REDIR + 2 * p" "x \<noteq> IOAPIC_REG_REDIR + 2 * p + 1" for x
      using that ws by blast
    show ?thesis
      using redir_distinct [OF l(2,1)] redir_distinct(3) [OF l] \<open>p \<noteq> q\<close> by (intro conjI ni) (simp_all only: not_sym simp_thms)
  qed
  ultimately consider "mmio io' \<noteq> mmio io"
    | "IOAPIC_REG_REDIR + 2 * q \<notin> fst ` set ws" "IOAPIC_REG_REDIR + 2 * q + 1 \<notin> fst ` set ws" by blast
  then show ?thesis by cases (simp_all only: entryOf_def writes_other simp_thms)
qed

lemma rte_steps:
  fixes pin :: u32
  defines "R \<equiv> IOAPIC_REG_REDIR + 2 * pin"
  assumes "unat pin < 120"
  shows "entryOf (doWrites io (take k (rteWrites pin rte)) st) io pin
    = (if k = 0 then entryOf st io pin
       else if k = 1 then push_bit 32 (ucast (regs st (mmio io) (R + 1))) OR ucast (ucast rte OR IOAPIC_RTE_MASK_BIT :: u32)
       else if k = 2 then push_bit 32 (ucast (ucast (drop_bit 32 rte) :: u32)) OR ucast (ucast rte OR IOAPIC_RTE_MASK_BIT :: u32)
       else rte)"
proof -
  have n: "R \<noteq> R + 1" using redir_distinct(3) [OF assms(2,2)] by (simp only: R_def not_False_eq_True)
  have d: "entryOf (doWrites io ws st) io pin = push_bit 32 (ucast (regs (doWrites io ws st) (mmio io) (R + 1))) OR ucast (regs (doWrites io ws st) (mmio io) R)" for ws
    by (simp only: entryOf_def R_def)
  consider "k = 0" | "k = 1" | "k = 2" | "k = Suc (Suc (Suc (k - 3)))" by arith
  then show ?thesis
  proof cases
    case 1 then show ?thesis by (simp add: doWrites_def)
  next
    case 2 then show ?thesis
      unfolding d by (simp add: rteWrites_def R_def [symmetric] doWrites_def n [symmetric] del: add.commute)
  next
    case 3 then show ?thesis
      unfolding d by (simp add: rteWrites_def R_def [symmetric] doWrites_def n n [symmetric] numeral_2_eq_2)
  next
    case 4
    then have "take k (rteWrites pin rte) = rteWrites pin rte" by (simp add: rteWrites_def)
    moreover have "k \<noteq> 0" "k \<noteq> 1" "k \<noteq> 2" using 4 by arith+
    ultimately show ?thesis
      unfolding d by (simp add: rteWrites_def R_def [symmetric] doWrites_def n n [symmetric] lo_hi_join)
  qed
qed

lemma mask_join_bit:
  fixes hi lo :: u32
  assumes "k < 32"
  shows "push_bit 32 (ucast hi) OR ucast (lo OR push_bit k 1) = (push_bit 32 (ucast hi) OR ucast lo :: u64) OR push_bit k 1"
    "push_bit 32 (ucast hi) OR ucast (lo AND NOT (push_bit k 1)) = (push_bit 32 (ucast hi) OR ucast lo :: u64) AND NOT (push_bit k 1)"
proof -
  have lt: "bit x n \<Longrightarrow> n < 32" for x :: u32 and n using bit_imp_le_length [of x n] by auto
  show "push_bit 32 (ucast hi) OR ucast (lo OR push_bit k 1) = (push_bit 32 (ucast hi) OR ucast lo :: u64) OR push_bit k 1"
    "push_bit 32 (ucast hi) OR ucast (lo AND NOT (push_bit k 1)) = (push_bit 32 (ucast hi) OR ucast lo :: u64) AND NOT (push_bit k 1)"
    using assms by (auto intro!: bit_word_eqI simp: bit_simps dest: lt)
qed

lemmas mask_join = mask_join_bit [of 16, folded IOAPIC_RTE_MASK_BIT_def, simplified]

lemma setMask_entry:
  assumes "ioapicWf st" and "findPin st g = Some (io, pin)"
  shows "\<exists>st'. ioapicSetMask g b st = Inr st' \<and> ioapicWf st'
     \<and> entryOf st' io pin = (if b then entryOf st io pin OR push_bit 16 1 else entryOf st io pin AND NOT (push_bit 16 1))"
proof -
  define R where "R = IOAPIC_REG_REDIR + 2 * pin"
  have l: "unat pin < 120" using findPin_Some [OF assms] by blast
  have n: "R \<noteq> R + 1" using redir_distinct(3) [OF l l] by (simp only: R_def not_False_eq_True)
  define v where "v = (if b then regs st (mmio io) R OR IOAPIC_RTE_MASK_BIT else regs st (mmio io) R AND NOT IOAPIC_RTE_MASK_BIT)"
  define st' where "st' = regWrite io R v (snd (regRead io R st))"
  have 1: "ioapicSetMask g b st = Inr st'"
    using assms(2) by (simp add: ioapicSetMask_def R_def [symmetric] Let_def split_def st'_def v_def)
  have 2: "ioapicWf st'" using assms(1) by (simp add: ioapicWf_def st'_def)
  have e: "entryOf s io pin = push_bit 32 (ucast (regs s (mmio io) (R + 1))) OR ucast (regs s (mmio io) R)" for s
    by (simp only: entryOf_def R_def)
  have "entryOf st' io pin = push_bit 32 (ucast (regs st (mmio io) (R + 1))) OR ucast v"
    unfolding e using n by (simp add: st'_def)
  then show ?thesis using 1 2 by (simp add: v_def mask_join e)
qed

definition demoIoapic :: IoapicState where
  "demoIoapic = \<lparr>ioapics = [\<lparr>mmio = 0x1000, io_id = 0\<rparr>], ranges = [\<lparr>gsiBase = 0, pins = 24\<rparr>], reservedGsi = [],
     regsel = (\<lambda>_. 0), regs = (\<lambda>_ _. 0)\<rparr>"

lemma demoIoapic_ok: "ioapicWf demoIoapic" "findPin demoIoapic 5 = Some (\<lparr>mmio = 0x1000, io_id = 0\<rparr>, 5)"
  by (simp_all add: demoIoapic_def ioapicWf_def rangesOk_def findPin_def irqCoreGsiLookup_def)

section \<open>Properties\<close>

text \<open>
  C32: Whatever controllers and version registers the firmware presents, initialisation leaves the
  tables within their 16 entries, with pairwise disjoint interrupt ranges of 1 to 120 pins and distinct
  windows, with every pin of every controller masked; and an interrupt number is usable exactly when
  one controller serves it and it is not among the reserved ones.
\<close>

theorem ioapic_init_correct:
  assumes "mapsFresh mapMmio" and "ioapics st = []" "ranges st = []" "reservedGsi st = []"
  shows "ioapicWf (ioapicInitAll mapMmio as nmis st) \<and> allMasked (ioapicInitAll mapMmio as nmis st)
    \<and> (\<forall>g. ioapicGsiUsable (ioapicInitAll mapMmio as nmis st) g \<longleftrightarrow>
         (\<exists>r \<in> set (ranges (ioapicInitAll mapMmio as nmis st)). unat g \<in> gsiSet r) \<and> g \<notin> set (take ACPI_MAX_NMI_SOURCES nmis))"
proof -
  define s1 where "s1 = ioapicInitLoop mapMmio as st"
  have "ioapicWf st" "allMasked st" using assms by (simp_all add: ioapicWf_def rangesOk_def allMasked_def)
  then have s1: "ioapicWf s1" "allMasked s1" "reservedGsi s1 = []"
    using ioapicInitLoop_wf [of st mapMmio as] assms by (simp_all add: s1_def)
  have e: "ioapicInitAll mapMmio as nmis st = s1\<lparr>reservedGsi := take 16 nmis\<rparr>"
    by (simp add: ioapicInitAll_def s1_def [symmetric] reserveLoop_eq s1(3))
  have R: "rangesOk (ranges s1)" using s1(1) by (simp add: ioapicWf_def)
  show ?thesis
    using s1 by (auto simp: e ioapicWf_def allMasked_def entryOf_def ioapicGsiUsable_def list_ex_iff lookup_None)
qed

theorem ioapic_init_correct_witness:
  "ioapicWf (ioapicInitAll (\<lambda>live a. if 0x1000 \<in> set live then Inl STATUS_ERR_NO_MEMORY else Inr 0x1000)
     [\<lparr>apic_id = 0, address = 0xFEC00000, apic_gsiBase = 0\<rparr>] [3]
     \<lparr>ioapics = [], ranges = [], reservedGsi = [], regsel = (\<lambda>_. 0), regs = (\<lambda>_ r. if r = 1 then 0x170020 else 0)\<rparr>)"
  by (intro ioapic_init_correct [THEN conjunct1]) (simp_all add: mapsFresh_def)

text \<open>
  C31: Updating a redirection entry is exact and glitch-free. The new entry reads back as written, no
  other line's entry changes, and after each of the register writes the entry is masked, or still the
  old one, or already the new one, so the hardware never sees a live mixture of the two. Masking and
  unmasking changes the mask bit alone.
\<close>

theorem ioapic_rte_correct:
  assumes "ioapicWf st" and "findPin st g = Some (io, pin)"
  shows "(\<exists>st' st''. ioapicWriteRte g rte st = Inr st' \<and> ioapicWf st' \<and> ioapicReadRte g st' = Inr (rte, st'')
        \<and> (\<forall>h io' pin'. h \<noteq> g \<and> findPin st h = Some (io', pin') \<longrightarrow> entryOf st' io' pin' = entryOf st io' pin'))
    \<and> (\<forall>k. let e = entryOf (doWrites io (take k (rteWrites pin rte)) st) io pin
           in entryMasked e \<or> e = entryOf st io pin \<or> e = rte)
    \<and> (\<forall>b. \<exists>st'. ioapicSetMask g b st = Inr st' \<and> ioapicWf st'
           \<and> entryOf st' io pin = (if b then entryOf st io pin OR push_bit 16 1 else entryOf st io pin AND NOT (push_bit 16 1)))"
proof -
  have l: "unat pin < 120" using findPin_Some [OF assms] by blast
  have wf: "ioapicWf (doWrites io ws st)" for ws using assms(1) by (simp add: ioapicWf_def)
  let ?s = "doWrites io (rteWrites pin rte) st"
  have rd: "ioapicReadRte x s = Inr (entryOf s jo q, snd (regRead jo (IOAPIC_REG_REDIR + 2 * q + 1) (snd (regRead jo (IOAPIC_REG_REDIR + 2 * q) s))))"
    if "findPin s x = Some (jo, q)" for x s jo q
    using that by (simp add: ioapicReadRte_def entryOf_def Let_def split_def del: add.assoc)
  have "entryOf ?s io pin = rte" using rte_steps [OF l, of io 3 rte st] by (simp add: rteWrites_def)
  then have 1: "ioapicWriteRte g rte st = Inr ?s \<and> (\<exists>st''. ioapicReadRte g ?s = Inr (rte, st''))"
    using rd [of ?s g io pin] assms(2) by (simp add: ioapicWriteRte_def)
  have 2: "entryOf ?s io' pin' = entryOf st io' pin'" if "h \<noteq> g" "findPin st h = Some (io', pin')" for h io' pin'
    using writes_entry_other [OF assms that(2,1)] by (simp add: rteWrites_def)
  have 3: "let e = entryOf (doWrites io (take k (rteWrites pin rte)) st) io pin in entryMasked e \<or> e = entryOf st io pin \<or> e = rte" for k
    unfolding rte_steps [OF l] Let_def entryMasked_def by (simp add: bit_entry_16 IOAPIC_RTE_MASK_BIT_def bit_simps)
  note 4 = setMask_entry [OF assms]
  show ?thesis using 1 2 3 4 wf by blast
qed

theorem ioapic_rte_correct_witness:
  "\<exists>st' st''. ioapicWriteRte 5 0x0100000000000035 demoIoapic = Inr st' \<and> ioapicReadRte 5 st' = Inr (0x0100000000000035, st'')"
  using ioapic_rte_correct [of demoIoapic 5 "\<lparr>mmio = 0x1000, io_id = 0\<rparr>" 5 "0x0100000000000035"] demoIoapic_ok by blast

end
