(* ===== verification/Cmdline.thy ===== *)
theory Cmdline
  imports Prelude
begin

text \<open>
  The kernel command line, \<open>kernel/core/cmdline.c\<close>. A C string is the list of its characters before
  the terminator, a pointer into it is the remaining list. The loops are proved against the list of
  words of the line and against the usual meaning of a pattern.
\<close>

section \<open>Scanning\<close>

fun cmdlineStrEq :: "string \<Rightarrow> string \<Rightarrow> bool" where
  "cmdlineStrEq (x # s) (y # t) = (if x \<noteq> y then False else cmdlineStrEq s t)"
| "cmdlineStrEq [] [] = True"
| "cmdlineStrEq [] (y # t) = False"
| "cmdlineStrEq (x # s) [] = False"

definition cmdlineIsSep :: "char \<Rightarrow> bool" where
  "cmdlineIsSep c \<longleftrightarrow> c = CHR '' '' \<or> c = CHR 0x09"

fun skipSep :: "string \<Rightarrow> string" where
  "skipSep [] = []"
| "skipSep (c # p) = (if cmdlineIsSep c then skipSep p else c # p)"

text \<open>One token and the rest of the line.\<close>

fun scanToken :: "string \<Rightarrow> string \<times> string" where
  "scanToken [] = ([], [])"
| "scanToken (c # p) = (if cmdlineIsSep c then ([], c # p) else (let (t, r) = scanToken p in (c # t, r)))"

lemma skipSep_length: "length (skipSep p) \<le> length p"
  by (induction p) auto

lemma scanToken_append: "fst (scanToken p) @ snd (scanToken p) = p"
  by (induction p) (auto simp: split_def Let_def)

lemma scan_shorter:
  assumes "skipSep p \<noteq> []"
  shows "length (snd (scanToken (skipSep p))) < length p"
proof -
  obtain c q where q: "skipSep p = c # q" using assms by (cases "skipSep p") auto
  have "\<not> cmdlineIsSep c" using q by (induction p) (auto split: if_splits)
  then have "snd (scanToken (skipSep p)) = snd (scanToken q)" by (simp add: q split_def Let_def)
  then have "length (snd (scanToken (skipSep p))) \<le> length q"
    using arg_cong [OF scanToken_append [of q], of length] by simp
  then show ?thesis using skipSep_length [of p] q by simp
qed

section \<open>Test selection\<close>

definition ktestPrefix :: string where
  "ktestPrefix = ''ktest=''"

function ktestLoop :: "string \<Rightarrow> string option \<Rightarrow> string option" where
  "ktestLoop p best =
     (let q = skipSep p
      in if q = [] then best
         else let (tok, r) = scanToken q;
                  m = (length tok \<ge> length ktestPrefix \<and> list_all (\<lambda>i. tok ! i = ktestPrefix ! i) [0..<length ktestPrefix])
           in ktestLoop r (if m then Some (drop (length ktestPrefix) tok) else best))"
  by pat_completeness auto
termination
proof (relation "measure (\<lambda>(p, best). length p)", goal_cases)
  case (2 p best q tr tok r m)
  then show ?case using scan_shorter [of p] by simp (metis snd_conv)
qed simp

definition cmdlineFindKtest :: "string \<Rightarrow> nat \<Rightarrow> string option" where
  "cmdlineFindKtest cmdline outCap =
     (if outCap = 0 then None
      else case ktestLoop cmdline None of
        None \<Rightarrow> None
      | Some best \<Rightarrow>
          let copyLen = (if length best < outCap - 1 then length best else outCap - 1)
          in Some (take copyLen best))"

section \<open>Tokens\<close>

fun matchLen :: "string \<Rightarrow> string \<Rightarrow> nat" where
  "matchLen (x # tok) (y # token) = (if x = y then Suc (matchLen tok token) else 0)"
| "matchLen _ _ = 0"

function hasTokenLoop :: "string \<Rightarrow> string \<Rightarrow> bool" where
  "hasTokenLoop p token =
     (let q = skipSep p
      in if q = [] then False
         else let (tok, r) = scanToken q;
                  i = matchLen tok token
           in if i = length tok \<and> i = length token then True else hasTokenLoop r token)"
  by pat_completeness auto
termination
proof (relation "measure (\<lambda>(p, token). length p)", goal_cases)
  case (2 p token q tr tok r i)
  then show ?case using scan_shorter [of p] by simp (metis snd_conv)
qed simp

definition cmdlineHasToken :: "string \<Rightarrow> string \<Rightarrow> bool" where
  "cmdlineHasToken cmdline token = hasTokenLoop cmdline token"

section \<open>Patterns\<close>

text \<open>
  The loop of \<open>cmdlineGlobMatch\<close>: the pattern and the name that remain, and the pattern after the
  last star with the name at the position it last tried.
\<close>

fun skipStars :: "string \<Rightarrow> string" where
  "skipStars [] = []"
| "skipStars (c # p) = (if c = CHR ''*'' then skipStars p else c # p)"

function globLoop :: "string \<Rightarrow> string \<Rightarrow> (string \<times> string) option \<Rightarrow> bool" where
  "globLoop p n star =
     (case n of
        [] \<Rightarrow> skipStars p = []
      | c # n' \<Rightarrow>
          (case p of
             x # p' \<Rightarrow>
               if x = c then globLoop p' n' star
               else if x = CHR ''*'' then globLoop p' n (Some (p', n))
               else (case star of
                       Some (sp, sn) \<Rightarrow> (case sn of [] \<Rightarrow> False | _ # sn' \<Rightarrow> globLoop sp sn' (Some (sp, sn')))
                     | None \<Rightarrow> False)
           | [] \<Rightarrow> (case star of
                      Some (sp, sn) \<Rightarrow> (case sn of [] \<Rightarrow> False | _ # sn' \<Rightarrow> globLoop sp sn' (Some (sp, sn')))
                    | None \<Rightarrow> False)))"
  by pat_completeness auto
termination
  by (relation "measures [\<lambda>(p, n, star). (case star of None \<Rightarrow> 1 | Some _ \<Rightarrow> 0),
       \<lambda>(p, n, star). (case star of None \<Rightarrow> 0 | Some (sp, sn) \<Rightarrow> if length n \<le> length sn then 0 else 1),
       \<lambda>(p, n, star). (case star of None \<Rightarrow> 0 | Some (sp, sn) \<Rightarrow> length sn),
       \<lambda>(p, n, star). length n + length p]") (auto split: option.splits)

definition cmdlineGlobMatch :: "string \<Rightarrow> string \<Rightarrow> bool" where
  "cmdlineGlobMatch pattern name = globLoop pattern name None"

declare ktestLoop.simps [simp del] hasTokenLoop.simps [simp del] globLoop.simps [simp del]

section \<open>The words of a line\<close>

text \<open>The maximal runs of characters that are not separators.\<close>

fun lineWords :: "string \<Rightarrow> string \<Rightarrow> string list" where
  "lineWords w [] = (if w = [] then [] else [w])"
| "lineWords w (c # s) = (if cmdlineIsSep c then (if w = [] then [] else [w]) @ lineWords [] s else lineWords (w @ [c]) s)"

lemma words_skip: "lineWords [] s = lineWords [] (skipSep s)"
  by (induction s) auto

lemma words_token:
  "w \<noteq> [] \<Longrightarrow> lineWords w s = (w @ fst (scanToken s)) # lineWords [] (snd (scanToken s))"
proof (induction s arbitrary: w)
  case (Cons c s)
  then show ?case by (cases "cmdlineIsSep c") (auto simp: split_def Let_def)
qed simp

lemma skipSep_hd: "skipSep p = c # q \<Longrightarrow> \<not> cmdlineIsSep c"
  by (induction p) (auto split: if_splits)

lemma words_step:
  assumes "skipSep p \<noteq> []"
  shows "lineWords [] p = fst (scanToken (skipSep p)) # lineWords [] (snd (scanToken (skipSep p)))"
proof -
  obtain c q where q: "skipSep p = c # q" using assms by (cases "skipSep p") auto
  then show ?thesis using words_skip [of p] skipSep_hd [OF q] words_token [of "[c]" q] by (simp add: split_def Let_def)
qed

lemma words_none: "skipSep p = [] \<Longrightarrow> lineWords [] p = []"
  using words_skip [of p] by simp

definition ktestOf :: "string \<Rightarrow> string option" where
  "ktestOf tok = (if take (length ktestPrefix) tok = ktestPrefix then Some (drop (length ktestPrefix) tok) else None)"

lemma prefix_test:
  "length tok \<ge> length pre \<and> list_all (\<lambda>i. tok ! i = pre ! i) [0..<length pre] \<longleftrightarrow> take (length pre) tok = pre"
proof (cases "length pre \<le> length tok")
  case True
  then show ?thesis
    using list_eq_iff_nth_eq [of "take (length pre) tok" pre] by (simp add: list_all_iff Ball_def)
next
  case False
  then show ?thesis by auto
qed

lemma ktestLoop_step:
  "ktestLoop p best = (if skipSep p = [] then best
     else ktestLoop (snd (scanToken (skipSep p))) (case ktestOf (fst (scanToken (skipSep p))) of None \<Rightarrow> best | Some v \<Rightarrow> Some v))"
  unfolding ktestLoop.simps [of p best] ktestOf_def prefix_test [symmetric] Let_def split_def by auto

lemma ktestLoop_words:
  "ktestLoop p best = fold (\<lambda>t b. case ktestOf t of None \<Rightarrow> b | Some v \<Rightarrow> Some v) (lineWords [] p) best"
proof (induction "length p" arbitrary: p best rule: less_induct)
  case less
  show ?case
  proof (cases "skipSep p = []")
    case True
    then show ?thesis using ktestLoop_step [of p best] by (simp add: words_none)
  next
    case False
    then show ?thesis
      using ktestLoop_step [of p best] less(1) [OF scan_shorter [OF False]] words_step [OF False] by simp
  qed
qed

lemma matchLen_full: "matchLen tok token = length tok \<and> matchLen tok token = length token \<longleftrightarrow> tok = token"
proof (induction tok token rule: matchLen.induct)
  case (1 x tok y token)
  then show ?case by auto
qed auto

lemma hasTokenLoop_step:
  "hasTokenLoop p token = (if skipSep p = [] then False
     else if fst (scanToken (skipSep p)) = token then True else hasTokenLoop (snd (scanToken (skipSep p))) token)"
  unfolding hasTokenLoop.simps [of p token] Let_def split_def matchLen_full ..

lemma hasTokenLoop_words: "hasTokenLoop p token \<longleftrightarrow> token \<in> set (lineWords [] p)"
proof (induction "length p" arbitrary: p rule: less_induct)
  case less
  show ?case
  proof (cases "skipSep p = []")
    case True
    then show ?thesis using hasTokenLoop_step [of p token] by (simp add: words_none)
  next
    case False
    then show ?thesis
      using hasTokenLoop_step [of p token] less(1) [OF scan_shorter [OF False]] words_step [OF False] by auto
  qed
qed

lemma fold_last:
  "fold (\<lambda>t b. case f t of None \<Rightarrow> b | Some v \<Rightarrow> Some v) ts b
     = (case find (\<lambda>t. f t \<noteq> None) (rev ts) of None \<Rightarrow> b | Some t \<Rightarrow> f t)"
  by (induction ts rule: rev_induct) (auto split: option.splits)

section \<open>The meaning of a pattern\<close>

fun globSpec :: "string \<Rightarrow> string \<Rightarrow> bool" where
  "globSpec [] n \<longleftrightarrow> n = []"
| "globSpec (x # p) n \<longleftrightarrow>
     (if x = CHR ''*'' then \<exists>k \<le> length n. globSpec p (drop k n) else n \<noteq> [] \<and> hd n = x \<and> globSpec p (tl n))"

lemma globSpec_nil: "globSpec p [] \<longleftrightarrow> skipStars p = []"
  by (induction p) auto

lemma globSpec_lits:
  "CHR ''*'' \<notin> set ls \<Longrightarrow> globSpec (ls @ p) n \<longleftrightarrow> (\<exists>m. n = ls @ m \<and> globSpec p m)"
proof (induction ls arbitrary: n)
  case (Cons x ls)
  then show ?case by (cases n) auto
qed simp

text \<open>What the loop still accepts: the current position, or a later start for the last star.\<close>

definition starLater :: "(string \<times> string) option \<Rightarrow> bool" where
  "starLater star = (case star of None \<Rightarrow> False | Some (sp, sn) \<Rightarrow> \<exists>k. 1 \<le> k \<and> k \<le> length sn \<and> globSpec sp (drop k sn))"

definition starInv :: "string \<Rightarrow> string \<Rightarrow> (string \<times> string) option \<Rightarrow> bool" where
  "starInv p n star = (case star of None \<Rightarrow> True
     | Some (sp, sn) \<Rightarrow> \<exists>ls. CHR ''*'' \<notin> set ls \<and> sp = ls @ p \<and> sn = ls @ n)"

lemma star_absorbs:
  assumes "starInv (CHR ''*'' # p) n star" "starLater star"
  shows "globSpec (CHR ''*'' # p) n"
proof -
  obtain sp sn k where s: "star = Some (sp, sn)" "1 \<le> k" "k \<le> length sn" "globSpec sp (drop k sn)"
    using assms(2) by (auto simp: starLater_def split: option.splits)
  obtain ls where l: "CHR ''*'' \<notin> set ls" "sp = ls @ CHR ''*'' # p" "sn = ls @ n"
    using assms(1) by (auto simp: starInv_def s)
  obtain m where m: "drop k sn = ls @ m" "globSpec (CHR ''*'' # p) m"
    using s(4) l globSpec_lits [of ls] by auto
  obtain j where j: "j \<le> length m" "globSpec p (drop j m)" using m(2) by auto
  have "m = drop (length ls + k) sn" using arg_cong [OF m(1), of "drop (length ls)"] by (simp add: add.commute)
  then have e: "m = drop k n" using l(3) by simp
  then have "drop j m = drop (k + j) n" by (simp add: add.commute)
  moreover have "k \<le> length n" using arg_cong [OF m(1), of length] s(3) l(3) by simp
  ultimately show ?thesis using j e by (auto intro!: exI [of _ "k + j"])
qed

lemma star_exhausted:
  assumes "starInv p [] star" shows "\<not> starLater star"
proof
  assume "starLater star"
  then obtain sp sn k where s: "star = Some (sp, sn)" "1 \<le> k" "k \<le> length sn" "globSpec sp (drop k sn)"
    by (auto simp: starLater_def split: option.splits)
  obtain ls where l: "CHR ''*'' \<notin> set ls" "sp = ls @ p" "sn = ls" using assms by (auto simp: starInv_def s)
  obtain m where "drop k sn = ls @ m" using s(4) l globSpec_lits [of ls] by auto
  then have "length ls - k = length ls + length m" by (metis l(3) length_append length_drop)
  then show False using s l by simp
qed

lemma star_backtrack:
  "starLater (Some (sp, c # sn)) \<longleftrightarrow> globSpec sp sn \<or> starLater (Some (sp, sn))"
proof
  assume "starLater (Some (sp, c # sn))"
  then obtain k where k: "1 \<le> k" "k \<le> Suc (length sn)" "globSpec sp (drop k (c # sn))" by (auto simp: starLater_def)
  then show "globSpec sp sn \<or> starLater (Some (sp, sn))" by (cases k; cases "k - 1") (auto simp: starLater_def)
next
  assume "globSpec sp sn \<or> starLater (Some (sp, sn))"
  then obtain k where "k \<le> length sn" "globSpec sp (drop k sn)" by (auto simp: starLater_def intro: that [of 0])
  then show "starLater (Some (sp, c # sn))" by (auto simp: starLater_def intro!: exI [of _ "Suc k"])
qed

lemma star_here: "globSpec (CHR ''*'' # p) n \<longleftrightarrow> globSpec p n \<or> starLater (Some (p, n))"
proof
  assume "globSpec (CHR ''*'' # p) n"
  then obtain k where "k \<le> length n" "globSpec p (drop k n)" by auto
  then show "globSpec p n \<or> starLater (Some (p, n))" by (cases k) (auto simp: starLater_def)
next
  assume "globSpec p n \<or> starLater (Some (p, n))"
  then obtain k where "k \<le> length n" "globSpec p (drop k n)" by (auto simp: starLater_def intro: that [of 0])
  then show "globSpec (CHR ''*'' # p) n" by auto
qed

lemma globLoop_step:
  "globLoop p [] star \<longleftrightarrow> skipStars p = []"
  "globLoop (c # p) (c # n) star \<longleftrightarrow> globLoop p n star"
  "c \<noteq> CHR ''*'' \<Longrightarrow> globLoop (CHR ''*'' # p) (c # n) star \<longleftrightarrow> globLoop p (c # n) (Some (p, c # n))"
  "\<forall>x p'. p = x # p' \<longrightarrow> x \<noteq> c \<and> x \<noteq> CHR ''*'' \<Longrightarrow> globLoop p (c # n) None \<longleftrightarrow> False"
  "\<forall>x p'. p = x # p' \<longrightarrow> x \<noteq> c \<and> x \<noteq> CHR ''*'' \<Longrightarrow> globLoop p (c # n) (Some (sp, d # sn)) \<longleftrightarrow> globLoop sp sn (Some (sp, sn))"
  by (subst globLoop.simps; auto split: list.splits)+

lemma globLoop_correct:
  "CHR ''*'' \<notin> set n \<Longrightarrow> starInv p n star \<Longrightarrow> \<forall>sp sn. star = Some (sp, sn) \<longrightarrow> CHR ''*'' \<notin> set sn \<Longrightarrow>
     globLoop p n star \<longleftrightarrow> globSpec p n \<or> starLater star"
proof (induction p n star rule: globLoop.induct)
  case (1 p n star)
  note ih = "1.IH" and prems = "1.prems"
  show ?case
  proof (cases n)
    case Nil
    then show ?thesis using star_exhausted [of p star] prems(2) by (simp add: globLoop_step globSpec_nil)
  next
    case n: (Cons c n')
    have c: "c \<noteq> CHR ''*''" "CHR ''*'' \<notin> set n'" using prems(1) n by auto
    consider (eq) p' where "p = c # p'" | (star) p' where "p = CHR ''*'' # p'"
      | (mis) "\<forall>x p'. p = x # p' \<longrightarrow> x \<noteq> c \<and> x \<noteq> CHR ''*''" by blast
    then show ?thesis
    proof cases
      case (eq p')
      have "starInv p' n' star"
        using prems(2) c(1) by (fastforce simp: starInv_def eq n split: option.splits)
      then show ?thesis using ih(2) [OF n eq refl] prems c by (simp add: eq n globLoop_step)
    next
      case (star p')
      have "globLoop p' n (Some (p', n)) \<longleftrightarrow> globSpec p' n \<or> starLater (Some (p', n))"
        using ih(3) [OF n star _ refl] prems(1) c by (simp add: starInv_def) 
      also have "\<dots> \<longleftrightarrow> globSpec p n"
        using star_here [of p' n] by (simp only: star)
      finally show ?thesis using star_absorbs [of p' n star] prems(2) by (auto simp: star n globLoop_step c)
    next
      case mis
      have g: "\<not> globSpec p n" using mis by (cases p) (auto simp: n)
      show ?thesis
      proof (cases star)
        case None
        then show ?thesis using g mis by (simp add: n globLoop_step starLater_def)
      next
        case (Some s)
        obtain sp sn ls where s: "star = Some (sp, sn)" "sn = ls @ n" using prems(2) Some by (cases s) (auto simp: starInv_def)
        then obtain d sn' where sn: "sn = d # sn'" using n by (cases ls) auto
        have ns: "CHR ''*'' \<notin> set sn'" using prems(3) s(1) sn by simp
        have "globLoop sp sn' (Some (sp, sn')) \<longleftrightarrow> globSpec sp sn' \<or> starLater (Some (sp, sn'))"
        proof (cases p)
          case Nil
          then show ?thesis using ih(1) [OF n Nil s(1) refl sn] ns by (simp add: starInv_def)
        next
          case (Cons x p')
          then show ?thesis using ih(4) [OF n Cons _ _ s(1) refl sn] mis ns by (simp add: starInv_def)
        qed
        moreover have "starLater star \<longleftrightarrow> globSpec sp sn' \<or> starLater (Some (sp, sn'))"
          using star_backtrack [of sp d sn'] s sn by simp
        moreover have "globLoop p n star \<longleftrightarrow> globLoop sp sn' (Some (sp, sn'))"
          unfolding n s(1) sn by (rule globLoop_step(5) [OF mis])
        ultimately show ?thesis using g by blast
      qed
    qed
  qed
qed

section \<open>Properties\<close>

text \<open>
  C34: The two scanners find what they are meant to. A token is reported exactly when it is one of the
  words of the line. The test selection is the text after the prefix in the last word that starts with
  it, cut to the caller's buffer with room for the terminator, and nothing is reported when no word
  has the prefix.
\<close>

theorem cmdline_tokens_correct:
  shows "(cmdlineHasToken line token \<longleftrightarrow> token \<in> set (lineWords [] line))
    \<and> (cap > 0 \<longrightarrow> cmdlineFindKtest line cap
        = (case find (\<lambda>t. ktestOf t \<noteq> None) (rev (lineWords [] line)) of
             None \<Rightarrow> None | Some t \<Rightarrow> Some (take (cap - 1) (drop 6 t))))
    \<and> (\<forall>v. cmdlineFindKtest line cap = Some v \<longrightarrow> length v < cap)"
proof -
  have k: "ktestLoop line None = (case find (\<lambda>t. ktestOf t \<noteq> None) (rev (lineWords [] line)) of None \<Rightarrow> None | Some t \<Rightarrow> ktestOf t)"
    by (simp add: ktestLoop_words fold_last)
  have v: "ktestOf t = Some y \<Longrightarrow> y = drop 6 t" for t y
    by (simp add: ktestOf_def ktestPrefix_def eval_nat_numeral split: if_splits)
  have f: "cap > 0 \<longrightarrow> cmdlineFindKtest line cap
        = (case find (\<lambda>t. ktestOf t \<noteq> None) (rev (lineWords [] line)) of
             None \<Rightarrow> None | Some t \<Rightarrow> Some (take (cap - 1) (drop 6 t)))"
  proof (cases "find (\<lambda>t. ktestOf t \<noteq> None) (rev (lineWords [] line))")
    case None
    then show ?thesis using k by (simp add: cmdlineFindKtest_def)
  next
    case (Some t)
    then obtain y where y: "ktestOf t = Some y" using find_Some_in [OF Some] by blast
    then have "ktestLoop line None = Some (drop 6 t)" using k Some v [OF y] by simp
    then show ?thesis using Some by (simp add: cmdlineFindKtest_def Let_def)
  qed
  moreover have "\<forall>v. cmdlineFindKtest line cap = Some v \<longrightarrow> length v < cap"
    by (auto simp: cmdlineFindKtest_def Let_def split: option.splits if_splits)
  ultimately show ?thesis by (simp add: cmdlineHasToken_def hasTokenLoop_words)
qed

theorem cmdline_tokens_correct_witness:
  "cmdlineFindKtest ''a ktest=pmm* ktest=kva quiet'' 32 = Some ''kva''"
  using cmdline_tokens_correct [of "''a ktest=pmm* ktest=kva quiet''" "''quiet''" 32]
  by (simp add: cmdlineIsSep_def ktestOf_def ktestPrefix_def)

text \<open>
  C33: The iterative matcher, which keeps a single backtrack point, always ends and decides the usual
  meaning of a pattern, where a star stands for any run of characters, for every name that contains
  no star.
\<close>

theorem cmdlineGlobMatch_correct:
  assumes "CHR ''*'' \<notin> set name"
  shows "cmdlineGlobMatch pat name \<longleftrightarrow> globSpec pat name"
  using globLoop_correct [OF assms, of pat None] by (simp add: cmdlineGlobMatch_def starInv_def starLater_def)

theorem cmdlineGlobMatch_correct_witness:
  "cmdlineGlobMatch ''pmm*ree*'' ''pmm_free_twice'' = globSpec ''pmm*ree*'' ''pmm_free_twice''"
  using cmdlineGlobMatch_correct [of "''pmm_free_twice''" "''pmm*ree*''"] by simp

text \<open>
  A name that contains a star can be rejected although the pattern allows it: a star in the pattern
  that meets a star in the name is consumed as a plain character.
\<close>

lemma glob_star_in_name: "globSpec ''*a'' ''*ba'' \<and> \<not> cmdlineGlobMatch ''*a'' ''*ba''"
proof -
  have "globSpec ''*a'' ''*ba''" by (simp, rule exI [of _ 2], simp)
  then show ?thesis by (simp add: cmdlineGlobMatch_def globLoop_step globLoop.simps)
qed

end
