(* ===== verification/Boot_Base.thy ===== *)
theory Boot_Base
  imports Prelude
begin

text \<open>
  What the loader parts share: \<open>BootStatus\<close> of \<open>boot/common/include/boot-status.h\<close>, the rounding
  helpers of \<open>bootmem.h\<close>, and little-endian access to byte buffers, which the C code writes as
  \<open>bootMemcpy\<close> to or from an integer.
\<close>

datatype BootStatus =
    BOOT_OK | BOOT_ERR_ELF_HEADER | BOOT_ERR_ELF_PHDR | BOOT_ERR_ELF_SEGMENT | BOOT_ERR_ELF_WX | BOOT_ERR_ELF_RANGE
  | BOOT_ERR_ELF_ENTRY | BOOT_ERR_NO_MEMORY | BOOT_ERR_PT_CONFLICT | BOOT_ERR_MEMMAP_CAPACITY | BOOT_ERR_MEMMAP_OVERLAY
  | BOOT_ERR_CFG | BOOT_ERR_NOT_MAPPED | BOOT_ERR_PT_UNALIGNED | BOOT_ERR_FB_UNSUPPORTED | BOOT_ERR_IO | BOOT_ERR_GPT
  | BOOT_ERR_FAT | BOOT_ERR_NOT_FOUND | BOOT_ERR_TOO_LARGE | BOOT_ERR_ELF_RELOC

definition bootAlignUp :: "u64 \<Rightarrow> u64 \<Rightarrow> u64" where
  "bootAlignUp x align = (x + (align - 1)) AND NOT (align - 1)"

definition bootAlignDown :: "u64 \<Rightarrow> u64 \<Rightarrow> u64" where
  "bootAlignDown x align = x AND NOT (align - 1)"

section \<open>Rounding\<close>

lemma and_not_low_bits: "(x :: u64) AND NOT (mask n) = push_bit n (drop_bit n x)"
  by (rule bit_word_eqI) (auto simp: bit_simps)

lemma unat_and_not_low_bits:
  fixes x :: u64
  assumes "n < 64"
  shows "unat (x AND NOT (mask n)) = unat x div 2 ^ n * 2 ^ n"
proof -
  have "unat x div 2 ^ n * 2 ^ n < 2 ^ 64"
    using le_less_trans [OF div_times_less_eq_dividend [of "unat x" "2 ^ n"] unat_lt_64] by simp
  moreover have "unat ((2 :: u64) ^ n) = 2 ^ n" using power_strict_increasing [OF assms, of "2 :: nat"] unat_of_nat_eq [of "2 ^ n", where 'a = 64] by simp
  ultimately show ?thesis
    unfolding and_not_low_bits push_bit_eq_mult drop_bit_eq_div
    by (subst unat_mult_nowrap) (simp_all add: unat_div)
qed

abbreviation BOOT_PAGE :: u64 where "BOOT_PAGE \<equiv> 4096"

lemma page_mask: "BOOT_PAGE - 1 = mask 12"
  by (simp add: mask_eq_exp_minus_1)

lemma bootAlignDown_page: "unat (bootAlignDown x BOOT_PAGE) = unat x div 4096 * 4096"
  using unat_and_not_low_bits [of 12 x] unfolding bootAlignDown_def page_mask by simp

lemma bootAlignUp_page:
  shows "unat x + 4095 < 2 ^ 64 \<Longrightarrow> unat (bootAlignUp x BOOT_PAGE) = (unat x + 4095) div 4096 * 4096"
    and "\<not> unat x + 4095 < 2 ^ 64 \<Longrightarrow> bootAlignUp x BOOT_PAGE = 0"
proof -
  have u: "unat (bootAlignUp x BOOT_PAGE) = unat (x + mask 12) div 4096 * 4096"
    using unat_and_not_low_bits [of 12 "x + mask 12"] unfolding bootAlignUp_def page_mask by simp
  have m: "unat (mask 12 :: u64) = 4095" by (simp add: mask_eq_exp_minus_1)
  show "unat x + 4095 < 2 ^ 64 \<Longrightarrow> unat (bootAlignUp x BOOT_PAGE) = (unat x + 4095) div 4096 * 4096"
    unfolding u by (subst unat_add_nowrap) (simp_all add: m)
  show "\<not> unat x + 4095 < 2 ^ 64 \<Longrightarrow> bootAlignUp x BOOT_PAGE = 0"
  proof -
    assume "\<not> unat x + 4095 < 2 ^ 64"
    then have "(unat x + 4095) mod 18446744073709551616 = unat x + 4095 - 18446744073709551616"
      using unat_lt_64 [of x] by (simp add: le_mod_geq)
    then have "unat (x + mask 12) = unat x + 4095 - 18446744073709551616" by (simp add: unat_word_ariths m)
    then have "unat (x + mask 12) div 4096 = 0" using unat_lt_64 [of x] by simp
    then show ?thesis using u by (simp add: unat_eq_0)
  qed
qed

section \<open>Bytes\<close>

text \<open>A buffer is a list of bytes; reading \<open>n\<close> of them at an offset gives a little-endian integer.\<close>

definition le_val :: "u8 list \<Rightarrow> nat" where
  "le_val bs = foldr (\<lambda>b n. unat b + 256 * n) bs 0"

definition le_bytes :: "nat \<Rightarrow> nat \<Rightarrow> u8 list" where
  "le_bytes n v = map (\<lambda>i. of_nat (v div 256 ^ i)) [0..<n]"

definition load16 :: "u8 list \<Rightarrow> nat \<Rightarrow> u16" where
  "load16 buf off = of_nat (le_val (take 2 (drop off buf)))"

definition load32 :: "u8 list \<Rightarrow> nat \<Rightarrow> u32" where
  "load32 buf off = of_nat (le_val (take 4 (drop off buf)))"

definition load64 :: "u8 list \<Rightarrow> nat \<Rightarrow> u64" where
  "load64 buf off = of_nat (le_val (take 8 (drop off buf)))"

lemma length_le_bytes [simp]: "length (le_bytes n v) = n"
  by (simp add: le_bytes_def)

lemma le_bytes_Suc: "le_bytes (Suc n) v = of_nat v # le_bytes n (v div 256)"
proof -
  have "[0..<Suc n] = 0 # map Suc [0..<n]" by (simp add: upt_conv_Cons map_Suc_upt)
  then show ?thesis by (simp add: le_bytes_def div_mult2_eq)
qed

lemma le_val_bytes: "le_val (le_bytes n v) = v mod 256 ^ n"
proof (induction n arbitrary: v)
  case (Suc n)
  have "unat (of_nat v :: u8) = v mod 256" by (simp add: unsigned_of_nat take_bit_eq_mod)
  then have "le_val (le_bytes (Suc n) v) = v mod 256 + 256 * (v div 256 mod 256 ^ n)"
    using Suc by (simp add: le_bytes_Suc le_val_def)
  then show ?case by (simp add: mod_mult2_eq)
qed (simp add: le_val_def le_bytes_def)

end
