(* ===== verification/Memmap.thy ===== *)
theory Memmap
  imports Boot_Base Pmm_Map
begin

text \<open>
  The loader's memory map, \<open>boot/common/memmap.c\<close>: firmware types, the normalisation of overlapping
  firmware and loader ranges into a sorted map, and the overlay check; and the kernel's check of that
  map, \<open>bootMemMapCheck\<close> of \<open>kernel/core/bootinfo.c\<close>. The scratch array holds exactly the points
  collected; the output array is the list of the regions written.
\<close>

section \<open>Firmware types\<close>

definition MEM_MAP_EFI_ATTRIBUTE_SP :: u64 where "MEM_MAP_EFI_ATTRIBUTE_SP = 0x40000"
definition MEM_MAP_E820_ATTR_NON_VOLATILE :: u32 where "MEM_MAP_E820_ATTR_NON_VOLATILE = 2"

definition memMapEfiTypeToBootMem :: "u32 \<Rightarrow> u64 \<Rightarrow> u32" where
  "memMapEfiTypeToBootMem efiType attribute =
     (if efiType = 0 then BOOT_MEM_RESERVED
      else if efiType = 1 \<or> efiType = 2 \<or> efiType = 3 \<or> efiType = 4 then BOOT_MEM_USABLE
      else if efiType = 5 \<or> efiType = 6 then BOOT_MEM_RESERVED
      else if efiType = 7 then (if attribute AND MEM_MAP_EFI_ATTRIBUTE_SP \<noteq> 0 then BOOT_MEM_RESERVED else BOOT_MEM_USABLE)
      else if efiType = 8 then BOOT_MEM_BAD
      else if efiType = 9 then BOOT_MEM_ACPI_RECLAIM
      else if efiType = 10 then BOOT_MEM_ACPI_NVS
      else BOOT_MEM_RESERVED)"

definition memMapE820TypeToBootMem :: "u32 \<Rightarrow> u32 \<Rightarrow> u32" where
  "memMapE820TypeToBootMem e820Type extAttr =
     (if e820Type = 1 then (if extAttr AND MEM_MAP_E820_ATTR_NON_VOLATILE \<noteq> 0 then BOOT_MEM_RESERVED else BOOT_MEM_USABLE)
      else if e820Type = 2 then BOOT_MEM_RESERVED
      else if e820Type = 3 then BOOT_MEM_ACPI_RECLAIM
      else if e820Type = 4 then BOOT_MEM_ACPI_NVS
      else if e820Type = 5 then BOOT_MEM_BAD
      else BOOT_MEM_RESERVED)"

section \<open>Normalisation\<close>

record MemMapInput =
  in_base :: u64
  in_len :: u64
  in_type :: u32

definition memMapRoundInput :: "MemMapInput \<Rightarrow> (u64 \<times> u64) option" where
  "memMapRoundInput r =
     (if in_len r = 0 then None
      else let e0 = in_base r + in_len r
        in if e0 < in_base r then None
           else if in_type r = BOOT_MEM_USABLE
             then let b = bootAlignUp (in_base r) BOOT_PAGE
               in if b < in_base r then None
                  else let e = bootAlignDown e0 BOOT_PAGE in if e \<le> b then None else Some (b, e)
             else let b = bootAlignDown (in_base r) BOOT_PAGE;
                      e = bootAlignUp e0 BOOT_PAGE
               in if e < e0 then None else if e \<le> b then None else Some (b, e))"

definition memMapRank :: "u32 \<Rightarrow> int" where
  "memMapRank t =
     (if t = BOOT_MEM_USABLE then 0
      else if t = BOOT_MEM_LOADER_RECLAIM then 1
      else if t = BOOT_MEM_INITRD then 2
      else if t = BOOT_MEM_KERNEL then 3
      else if t = BOOT_MEM_ACPI_RECLAIM then 4
      else if t = BOOT_MEM_ACPI_NVS then 5
      else if t = BOOT_MEM_RESERVED then 6
      else if t = BOOT_MEM_FRAMEBUFFER then 7
      else if t = BOOT_MEM_BAD then 8
      else -1)"

fun collectPoints :: "MemMapInput list \<Rightarrow> u64 list \<Rightarrow> u64 list" where
  "collectPoints [] pts = pts"
| "collectPoints (r # rs) pts =
     (case memMapRoundInput r of None \<Rightarrow> collectPoints rs pts | Some (b, e) \<Rightarrow> collectPoints rs (pts @ [b] @ [e]))"

text \<open>The inner loop of the insertion sort: shift larger points up, then store the key.\<close>

fun shiftKey :: "u64 list \<Rightarrow> nat \<Rightarrow> u64 \<Rightarrow> u64 list" where
  "shiftKey a 0 key = a[0 := key]"
| "shiftKey a (Suc j) key = (if a ! j > key then shiftKey (a[Suc j := a ! j]) j key else a[Suc j := key])"

definition sortPoints :: "u64 list \<Rightarrow> u64 list" where
  "sortPoints a = fold (\<lambda>i a. shiftKey a i (a ! i)) [1..<length a] a"

definition uniqueStep :: "nat \<Rightarrow> nat \<times> u64 list \<Rightarrow> nat \<times> u64 list" where
  "uniqueStep i = (\<lambda>(n, a). if n = 0 \<or> a ! i \<noteq> a ! (n - 1) then (n + 1, a[n := a ! i]) else (n, a))"

definition uniquePoints :: "u64 list \<Rightarrow> u64 list" where
  "uniquePoints a = (let (n, a') = fold uniqueStep [0..<length a] (0, a) in take n a')"

definition bestStep :: "u64 \<Rightarrow> u64 \<Rightarrow> MemMapInput \<Rightarrow> int \<times> u32 \<Rightarrow> int \<times> u32" where
  "bestStep segStart segEnd r = (\<lambda>(bestRank, bestType).
     case memMapRoundInput r of
       None \<Rightarrow> (bestRank, bestType)
     | Some (b, e) \<Rightarrow>
         if b \<le> segStart \<and> segEnd \<le> e
         then (let rank = memMapRank (in_type r) in if rank > bestRank then (rank, in_type r) else (bestRank, bestType))
         else (bestRank, bestType))"

definition bestType :: "MemMapInput list \<Rightarrow> u64 \<Rightarrow> u64 \<Rightarrow> int \<times> u32" where
  "bestType ins segStart segEnd = fold (bestStep segStart segEnd) ins (-1, 0)"

definition emitRegion :: "nat \<Rightarrow> u64 \<Rightarrow> u64 \<Rightarrow> u32 \<Rightarrow> BootMemRegion list \<Rightarrow> BootStatus + BootMemRegion list" where
  "emitRegion outCap segStart segEnd t out =
     (if out \<noteq> [] \<and> mtype (last out) = t \<and> base (last out) + len (last out) = segStart
      then Inr (butlast out @ [(last out)\<lparr>len := len (last out) + (segEnd - segStart)\<rparr>])
      else if length out \<ge> outCap then Inl BOOT_ERR_MEMMAP_CAPACITY
      else Inr (out @ [\<lparr>base = segStart, len = segEnd - segStart, mtype = t, mreserved = 0\<rparr>]))"

fun sweep :: "MemMapInput list \<Rightarrow> nat \<Rightarrow> u64 list \<Rightarrow> BootMemRegion list \<Rightarrow> BootStatus + BootMemRegion list" where
  "sweep ins outCap (segStart # segEnd # pts) out =
     (let (rank, t) = bestType ins segStart segEnd
      in if rank < 0 then sweep ins outCap (segEnd # pts) out
         else case emitRegion outCap segStart segEnd t out of
           Inl e \<Rightarrow> Inl e
         | Inr out' \<Rightarrow> sweep ins outCap (segEnd # pts) out')"
| "sweep ins outCap pts out = Inr out"

definition memMapNormalize :: "MemMapInput list \<Rightarrow> nat \<Rightarrow> BootStatus + BootMemRegion list" where
  "memMapNormalize ins outCap = sweep ins outCap (uniquePoints (sortPoints (collectPoints ins []))) []"

fun overlayLoop :: "u64 \<Rightarrow> u64 \<Rightarrow> MemMapInput list \<Rightarrow> BootStatus" where
  "overlayLoop b e [] = BOOT_ERR_MEMMAP_OVERLAY"
| "overlayLoop b e (r # rs) =
     (if in_type r \<noteq> 1 \<and> in_type r \<noteq> 2 then overlayLoop b e rs
      else let regionEnd = in_base r + in_len r
        in if regionEnd < in_base r then overlayLoop b e rs
           else if in_base r \<le> b \<and> e \<le> regionEnd then BOOT_OK
           else overlayLoop b e rs)"

definition memMapCheckOverlay :: "u64 \<Rightarrow> u64 \<Rightarrow> MemMapInput list \<Rightarrow> BootStatus" where
  "memMapCheckOverlay b n efiRegions =
     (if n = 0 then BOOT_OK
      else let e = b + n in if e < b then BOOT_ERR_MEMMAP_OVERLAY else overlayLoop b e efiRegions)"

section \<open>The kernel's check\<close>

fun memMapCheckFrom :: "BootMemRegion option \<Rightarrow> BootMemRegion list \<Rightarrow> (Status \<times> string) + unit" where
  "memMapCheckFrom prev [] = Inr ()"
| "memMapCheckFrom prev (r # rs) =
     (if len r = 0 then Inl (STATUS_ERR_INVALID, ''a memory region has zero length'')
      else if base r mod 4096 \<noteq> 0 \<or> len r mod 4096 \<noteq> 0 then Inl (STATUS_ERR_INVALID, ''a memory region is not 4 KiB aligned'')
      else if base r + len r < base r then Inl (STATUS_ERR_INVALID, ''a memory region overflows'')
      else if mtype r < BOOT_MEM_USABLE \<or> mtype r > BOOT_MEM_FRAMEBUFFER then Inl (STATUS_ERR_INVALID, ''a memory region has an unknown type'')
      else if mreserved r \<noteq> 0 then Inl (STATUS_ERR_INVALID, ''a memory region's reserved field is nonzero'')
      else if (case prev of None \<Rightarrow> False | Some q \<Rightarrow> base r < base q + len q)
        then Inl (STATUS_ERR_INVALID, ''the memory map is not sorted and non-overlapping'')
      else memMapCheckFrom (Some r) rs)"

definition bootMemMapCheck :: "BootMemRegion list \<Rightarrow> (Status \<times> string) + unit" where
  "bootMemMapCheck regions = memMapCheckFrom None regions"

section \<open>Rounding and ranks\<close>

definition inRange :: "MemMapInput \<Rightarrow> nat \<Rightarrow> bool" where
  "inRange r x \<longleftrightarrow> (case memMapRoundInput r of None \<Rightarrow> False | Some (b, e) \<Rightarrow> unat b \<le> x \<and> x < unat e)"

lemma round_Some:
  assumes "memMapRoundInput r = Some (b, e)"
  shows "b < e" "4096 dvd unat b" "4096 dvd unat e"
proof -
  have d: "4096 dvd unat (bootAlignDown x BOOT_PAGE)" for x by (simp add: bootAlignDown_page)
  have u: "4096 dvd unat (bootAlignUp x BOOT_PAGE)" for x
    using bootAlignUp_page [of x] by (cases "unat x + 4095 < 2 ^ 64") auto
  show "b < e" "4096 dvd unat b" "4096 dvd unat e"
    using assms d u by (auto simp: memMapRoundInput_def Let_def not_le split: if_splits)
qed

text \<open>
  The rounding is conservative: usable ranges shrink to whole pages and all others grow to them.
\<close>

lemma round_conservative:
  assumes "memMapRoundInput r = Some (b, e)"
  shows "if in_type r = BOOT_MEM_USABLE
    then unat (in_base r) \<le> unat b \<and> unat e \<le> unat (in_base r) + unat (in_len r)
    else unat b \<le> unat (in_base r) \<and> unat (in_base r) + unat (in_len r) \<le> unat e"
proof -
  have nw: "\<not> in_base r + in_len r < in_base r"
    using assms by (auto simp: memMapRoundInput_def Let_def split: if_splits)
  then have s: "unat (in_base r + in_len r) = unat (in_base r) + unat (in_len r)"
    by (simp add: wrap_add_less_iff unat_add_nowrap not_le)
  have dn: "unat (bootAlignDown x BOOT_PAGE) \<le> unat x" for x
    by (simp add: bootAlignDown_page)
  show ?thesis
    using assms dn [of "in_base r"] dn [of "in_base r + in_len r"] s
    by (auto simp: memMapRoundInput_def Let_def word_le_nat_alt [symmetric] not_less split: if_splits)
      (simp_all add: word_le_nat_alt)
qed

lemma rank_bounds: "memMapRank t \<ge> 0 \<longleftrightarrow> BOOT_MEM_USABLE \<le> t \<and> t \<le> BOOT_MEM_FRAMEBUFFER"
proof -
  have "t \<in> {1, 2, 3, 4, 5, 6, 7, 8, 9} \<longleftrightarrow> 1 \<le> t \<and> t \<le> 9"
  proof
    assume "1 \<le> t \<and> t \<le> 9"
    then have "1 \<le> unat t" "unat t \<le> 9" by (simp_all add: word_le_nat_alt)
    then have "unat t = 1 \<or> unat t = 2 \<or> unat t = 3 \<or> unat t = 4 \<or> unat t = 5 \<or> unat t = 6 \<or> unat t = 7 \<or> unat t = 8 \<or> unat t = 9" by arith
    then show "t \<in> {1, 2, 3, 4, 5, 6, 7, 8, 9}" by (auto simp: word_unat_eq_iff simp del: unat_inj)
  qed auto
  then show ?thesis by (auto simp: memMapRank_def boot_mem_types)
qed

lemma rank_inj: "memMapRank t = memMapRank u \<Longrightarrow> memMapRank t \<ge> 0 \<Longrightarrow> t = u"
  by (auto simp: memMapRank_def boot_mem_types split: if_splits)

section \<open>Points\<close>

lemma shiftKey_sort:
  "sorted (take j a) \<Longrightarrow> j < length a \<Longrightarrow> shiftKey a j key = sort (key # take j a) @ drop (Suc j) a"
proof (induction a j key rule: shiftKey.induct)
  case (1 a key)
  then show ?case by (cases a) auto
next
  case (2 a j key)
  have t: "take (Suc j) a = take j a @ [a ! j]" using 2(3) by (simp add: take_Suc_conv_app_nth)
  have so: "sorted (take j a)" and le: "\<forall>x \<in> set (take j a). x \<le> a ! j" using 2(2) by (simp_all add: t sorted_append)
  show ?case
  proof (cases "a ! j > key")
    case True
    have s: "sort (key # take (Suc j) a) = sort (key # take j a) @ [a ! j]"
      using True le by (intro properties_for_sort) (auto simp: t sorted_append sorted_insort set_insort_key)
    have "shiftKey (a[Suc j := a ! j]) j key = sort (key # take j (a[Suc j := a ! j])) @ drop (Suc j) (a[Suc j := a ! j])"
      using 2(1) [OF True] so 2(3) by simp
    also have "drop (Suc j) (a[Suc j := a ! j]) = a ! j # drop (Suc (Suc j)) a"
      using 2(3) by (simp add: Cons_nth_drop_Suc [symmetric] drop_update_swap)
    finally show ?thesis using True s by simp
  next
    case False
    have "sort (key # take (Suc j) a) = take (Suc j) a @ [key]"
      using False le so by (intro properties_for_sort) (auto simp: t sorted_append)
    then show ?thesis using False 2(3) by (simp add: upd_conv_take_nth_drop)
  qed
qed

lemma sortPoints_sort: "sortPoints a = sort a"
proof -
  have "m \<le> length a \<Longrightarrow> fold (\<lambda>i a. shiftKey a i (a ! i)) [1..<m] a = sort (take m a) @ drop m a" if "0 < m" for m
    using that
  proof (induction m)
    case (Suc m)
    show ?case
    proof (cases "m = 0")
      case True
      then show ?thesis using Suc.prems by (cases a) auto
    next
      case False
      define b where "b = sort (take m a) @ drop m a"
      have ih: "fold (\<lambda>i a. shiftKey a i (a ! i)) [1..<m] a = b" using Suc False by (simp add: b_def)
      have b: "take m b = sort (take m a)" "b ! m = a ! m" "drop (Suc m) b = drop (Suc m) a" "m < length b"
        using Suc.prems by (simp_all add: b_def nth_append drop_Suc min_def)
      have "shiftKey b m (b ! m) = sort (b ! m # take m b) @ drop (Suc m) b"
        using b by (intro shiftKey_sort) simp_all
      also have "sort (b ! m # take m b) = sort (take (Suc m) a)"
        using Suc.prems by (intro properties_for_sort) (simp_all add: b take_Suc_conv_app_nth)
      finally show ?thesis using ih False b(3) by (simp add: upt_Suc_append del: upt_Suc)
    qed
  qed simp
  from this [of "length a"] show ?thesis by (cases a) (auto simp: sortPoints_def)
qed

lemma uniquePoints_sorted:
  assumes "sorted a"
  shows "sorted_wrt (<) (uniquePoints a) \<and> set (uniquePoints a) = set a \<and> length (uniquePoints a) \<le> length a"
proof -
  have "\<exists>n b. fold uniqueStep [0..<i] (0, a) = (n, b) \<and> n \<le> i \<and> length b = length a
      \<and> (\<forall>k < length a. i \<le> k \<longrightarrow> b ! k = a ! k)
      \<and> sorted_wrt (<) (take n b) \<and> set (take n b) = set (take i a) \<and> (0 < i \<longrightarrow> 0 < n \<and> b ! (n - 1) = a ! (i - 1))"
    if "i \<le> length a" for i
    using that
  proof (induction i)
    case (Suc i)
    then obtain n b where f: "fold uniqueStep [0..<i] (0, a) = (n, b)" and n: "n \<le> i" and l: "length b = length a"
      and r: "\<forall>k < length a. i \<le> k \<longrightarrow> b ! k = a ! k" and so: "sorted_wrt (<) (take n b)"
      and se: "set (take n b) = set (take i a)" and la: "0 < i \<longrightarrow> 0 < n \<and> b ! (n - 1) = a ! (i - 1)" by auto
    have bi: "b ! i = a ! i" "i < length a" using r Suc.prems by simp_all
    have us: "uniqueStep i (n, b) = (if n = 0 \<or> b ! i \<noteq> b ! (n - 1) then (n + 1, b[n := b ! i]) else (n, b))"
      by (simp add: uniqueStep_def)
    have ta: "take (Suc i) a = take i a @ [a ! i]" using bi by (simp add: take_Suc_conv_app_nth)
    show ?case
    proof (cases "n = 0 \<or> b ! i \<noteq> b ! (n - 1)")
      case True
      have tb: "take (Suc n) (b[n := b ! i]) = take n b @ [b ! i]" using n l bi by (simp add: take_Suc_conv_app_nth)
      have "x < a ! i" if x: "x \<in> set (take n b)" for x
      proof -
        have i0: "0 < i" "0 < n" using x se la by (cases i; auto)+
        then have "a ! (i - 1) \<noteq> a ! i" using True la bi by auto
        moreover have "a ! (i - 1) \<le> a ! i" using assms bi by (simp add: sorted_nth_mono)
        moreover have "x \<le> a ! (i - 1)"
          using x se assms bi i0 by (auto simp: in_set_conv_nth intro!: sorted_nth_mono)
        ultimately show ?thesis by auto
      qed
      then show ?thesis
        using f n l r so se tb ta bi True
        by (intro exI [of _ "Suc n"] exI [of _ "b[n := b ! i]"]) (auto simp: us sorted_wrt_append)
    next
      case False
      then have "a ! i \<in> set (take n b)" using bi n l by (auto simp: in_set_conv_nth intro!: exI [of _ "n - 1"])
      then show ?thesis
        using f n l r so se ta bi False
        by (intro exI [of _ n] exI [of _ b]) (auto simp: us)
    qed
  qed simp
  from this [OF order_refl] obtain n b where "fold uniqueStep [0..<length a] (0, a) = (n, b)" "n \<le> length a"
    "sorted_wrt (<) (take n b)" "set (take n b) = set (take (length a) a)" by (elim exE conjE) blast
  then show ?thesis by (simp add: uniquePoints_def)
qed

lemma collectPoints_set:
  "set (collectPoints ins pts) = set pts \<union> {p. \<exists>r \<in> set ins. \<exists>b e. memMapRoundInput r = Some (b, e) \<and> (p = b \<or> p = e)}"
  by (induction ins pts rule: collectPoints.induct) (auto split: option.splits)

lemma collectPoints_length: "length (collectPoints ins pts) \<le> length pts + 2 * length ins"
  by (induction ins pts rule: collectPoints.induct) (auto split: option.splits)

section \<open>The sweep\<close>

definition covers :: "u64 \<Rightarrow> u64 \<Rightarrow> MemMapInput \<Rightarrow> bool" where
  "covers s e r \<longleftrightarrow> (case memMapRoundInput r of None \<Rightarrow> False | Some (b, en) \<Rightarrow> b \<le> s \<and> e \<le> en)"

lemma bestType_spec:
  assumes "bestType ins s e = (R, T)"
  shows "(R < 0 \<and> (\<forall>r \<in> set ins. covers s e r \<longrightarrow> memMapRank (in_type r) < 0))
    \<or> (R \<ge> 0 \<and> memMapRank T = R \<and> (\<exists>r \<in> set ins. covers s e r \<and> in_type r = T)
         \<and> (\<forall>r \<in> set ins. covers s e r \<longrightarrow> memMapRank (in_type r) \<le> R))"
proof -
  have step: "bestStep s e r (p, t) = (if covers s e r \<and> memMapRank (in_type r) > p then (memMapRank (in_type r), in_type r) else (p, t))" for r p t
    by (auto simp: bestStep_def covers_def Let_def split: option.splits)
  have m: "memMapRank t \<ge> -1" for t by (simp add: memMapRank_def)
  have "fold (bestStep s e) ins (-1, 0) = (R, T) \<Longrightarrow> (R = -1 \<and> (\<forall>r \<in> set ins. covers s e r \<longrightarrow> memMapRank (in_type r) \<le> -1))
    \<or> (R \<ge> 0 \<and> memMapRank T = R \<and> (\<exists>r \<in> set ins. covers s e r \<and> in_type r = T)
         \<and> (\<forall>r \<in> set ins. covers s e r \<longrightarrow> memMapRank (in_type r) \<le> R))"
  proof (induction ins arbitrary: R T rule: rev_induct)
    case (snoc r ins)
    obtain p t where f: "fold (bestStep s e) ins (-1, 0) = (p, t)" by fastforce
    show ?case using snoc.prems snoc.IH [OF f] m [of "in_type r"] by (auto simp: f step split: if_splits)
  qed simp
  then show ?thesis using assms by (fastforce simp: bestType_def)
qed

definition typeAt :: "MemMapInput list \<Rightarrow> nat \<Rightarrow> u32 \<Rightarrow> bool" where
  "typeAt ins x t \<longleftrightarrow> (\<exists>r \<in> set ins. inRange r x \<and> in_type r = t) \<and> memMapRank t \<ge> 0
     \<and> (\<forall>r \<in> set ins. inRange r x \<longrightarrow> memMapRank (in_type r) \<le> memMapRank t)"

definition rend :: "BootMemRegion \<Rightarrow> nat" where
  "rend r = unat (base r) + unat (len r)"

definition regionType :: "BootMemRegion list \<Rightarrow> nat \<Rightarrow> u32 \<Rightarrow> bool" where
  "regionType out x t \<longleftrightarrow> (\<exists>r \<in> set out. unat (base r) \<le> x \<and> x < rend r \<and> mtype r = t)"

definition sepBefore :: "BootMemRegion \<Rightarrow> BootMemRegion \<Rightarrow> bool" where
  "sepBefore r q \<longleftrightarrow> rend r \<le> unat (base q) \<and> (mtype r = mtype q \<longrightarrow> rend r < unat (base q))"

definition outInv :: "BootMemRegion list \<Rightarrow> nat \<Rightarrow> bool" where
  "outInv out s \<longleftrightarrow> sorted_wrt sepBefore out \<and> (\<forall>r \<in> set out. rend r \<le> s \<and> 0 < unat (len r) \<and> 4096 dvd unat (base r)
     \<and> 4096 dvd unat (len r) \<and> memMapRank (mtype r) \<ge> 0 \<and> mreserved r = 0)"

lemma emit_inv:
  assumes o: "outInv out (unat s)" and se: "s < e" "4096 dvd unat s" "4096 dvd unat e" and t: "memMapRank t \<ge> 0"
    and em: "emitRegion cap s e t out = Inr out'"
  shows "outInv out' (unat e)" and "regionType out' x u \<longleftrightarrow> regionType out x u \<or> (unat s \<le> x \<and> x < unat e \<and> u = t)"
    and "length out' \<le> length out + 1"
proof -
  have lt: "unat s < unat e" using se(1) by (simp add: word_less_nat_alt)
  have d: "unat (e - s) = unat e - unat s" using lt by (simp add: unat_sub_le)
  have d4: "4096 dvd unat e - unat s" using se by simp
  have "outInv out' (unat e) \<and> (regionType out' x u \<longleftrightarrow> regionType out x u \<or> (unat s \<le> x \<and> x < unat e \<and> u = t)) \<and> length out' \<le> length out + 1"
  proof (cases "out \<noteq> [] \<and> mtype (last out) = t \<and> base (last out) + len (last out) = s")
    case True
    define l where "l = last out"
    obtain xs where out: "out = xs @ [l]" using True by (metis append_butlast_last_id l_def)
    define l' where "l' = l\<lparr>len := len l + (e - s)\<rparr>"
    have out': "out' = xs @ [l']" using em True out by (simp add: emitRegion_def l'_def)
    have L: "rend l \<le> unat s" "0 < unat (len l)" "4096 dvd unat (base l)" "4096 dvd unat (len l)" "memMapRank (mtype l) \<ge> 0" "mreserved l = 0"
      using o by (auto simp: outInv_def out)
    have "unat (base l + len l) = rend l" using L(1) unat_lt_64 [of s] by (simp add: rend_def unat_add_nowrap)
    then have rl: "rend l = unat s" "mtype l = t" using True by (simp_all add: l_def)
    have "unat (len l + (e - s)) = unat (len l) + (unat e - unat s)"
      using rl(1) d lt unat_lt_64 [of e] by (subst unat_add_nowrap) (simp_all add: rend_def)
    then have l': "unat (base l') = unat (base l)" "unat (len l') = unat (len l) + (unat e - unat s)" "mtype l' = t" "mreserved l' = 0" "rend l' = unat e"
      using rl L lt by (simp_all add: l'_def rend_def)
    have "4096 dvd unat (len l')" unfolding l'(2) by (rule dvd_add [OF L(4) d4])
    then have "outInv out' (unat e)"
      using o L l' rl lt unfolding outInv_def out out' by (auto simp: sorted_wrt_append sepBefore_def)
    moreover have "regionType out' x u \<longleftrightarrow> regionType out x u \<or> (unat s \<le> x \<and> x < unat e \<and> u = t)"
      using l' rl lt by (auto simp: regionType_def out out' rend_def)
    ultimately show ?thesis by (simp add: out out')
  next
    case False
    define n where "n = \<lparr>base = s, len = e - s, mtype = t, mreserved = 0\<rparr>"
    have out': "out' = out @ [n]" using em False by (auto simp: emitRegion_def n_def split: if_splits)
    have rn: "rend n = unat e" "unat (base n) = unat s" "mtype n = t" "mreserved n = 0" "unat (len n) = unat e - unat s"
      using lt d by (simp_all add: n_def rend_def)
    have "sepBefore r n" if r: "r \<in> set out" for r
    proof -
      obtain xs l where out: "out = xs @ [l]" using r by (metis append_butlast_last_id empty_iff list.set(1))
      have L: "rend l \<le> unat s" "0 < unat (len l)" using o by (auto simp: outInv_def out)
      have "unat (base l + len l) = rend l" using L(1) unat_lt_64 [of s] by (simp add: rend_def unat_add_nowrap)
      then have nl: "mtype l = t \<Longrightarrow> rend l < unat s" using False L(1) out by (cases "rend l = unat s") auto
      have "r = l \<or> sepBefore r l" using o r by (auto simp: outInv_def out sorted_wrt_append)
      then show ?thesis using L nl rn by (auto simp: sepBefore_def rend_def)
    qed
    then have "outInv out' (unat e)"
      using o rn lt d4 se t unfolding outInv_def out' by (auto simp: sorted_wrt_append)
    moreover have "regionType out' x u \<longleftrightarrow> regionType out x u \<or> (unat s \<le> x \<and> x < unat e \<and> u = t)"
      using rn by (auto simp: regionType_def out')
    ultimately show ?thesis by (simp add: out')
  qed
  then show "outInv out' (unat e)" "regionType out' x u \<longleftrightarrow> regionType out x u \<or> (unat s \<le> x \<and> x < unat e \<and> u = t)"
    "length out' \<le> length out + 1" by blast+
qed

text \<open>Between two neighbouring points every input covers the whole segment or none of it.\<close>

lemma segment_uniform:
  assumes P: "sorted_wrt (<) (pre @ s # e # post)"
    and r: "\<And>b en. memMapRoundInput r = Some (b, en) \<Longrightarrow> b \<in> set (pre @ s # e # post) \<and> en \<in> set (pre @ s # e # post)"
    and x: "unat s \<le> x" "x < unat e"
  shows "inRange r x \<longleftrightarrow> covers s e r"
proof (cases "memMapRoundInput r")
  case (Some be)
  obtain b en where be: "memMapRoundInput r = Some (b, en)" using Some by (cases be) auto
  have "unat b \<le> x \<longleftrightarrow> b \<le> s"
  proof -
    consider "b \<in> set pre \<or> b = s" | "b = e \<or> b \<in> set post" using r [OF be] by auto
    then show ?thesis
      using P x by cases (auto simp: sorted_wrt_append word_less_nat_alt word_le_nat_alt)
  qed
  moreover have "x < unat en \<longleftrightarrow> e \<le> en"
  proof -
    consider "en \<in> set pre \<or> en = s" | "en = e \<or> en \<in> set post" using r [OF be] by auto
    then show ?thesis
      using P x by cases (auto simp: sorted_wrt_append word_less_nat_alt word_le_nat_alt)
  qed
  ultimately show ?thesis by (simp add: inRange_def covers_def be)
qed (simp add: inRange_def covers_def)

lemma segment_type:
  assumes P: "sorted_wrt (<) (pre @ s # e # post)"
    and r: "\<And>r b en. r \<in> set ins \<Longrightarrow> memMapRoundInput r = Some (b, en) \<Longrightarrow> b \<in> set (pre @ s # e # post) \<and> en \<in> set (pre @ s # e # post)"
    and x: "unat s \<le> x" "x < unat e" and b: "bestType ins s e = (R, T)"
  shows "typeAt ins x t \<longleftrightarrow> 0 \<le> R \<and> t = T"
proof -
  have c: "r \<in> set ins \<Longrightarrow> inRange r x \<longleftrightarrow> covers s e r" for r
    using segment_uniform [OF P _ x, of r] assms(2) [of r] by blast
  show ?thesis
    using bestType_spec [OF b]
  proof (elim disjE conjE bexE)
    assume "R < 0" "\<forall>r \<in> set ins. covers s e r \<longrightarrow> memMapRank (in_type r) < 0"
    then show ?thesis using c by (auto simp: typeAt_def)
  next
    fix q assume q: "0 \<le> R" "memMapRank T = R" "\<forall>r \<in> set ins. covers s e r \<longrightarrow> memMapRank (in_type r) \<le> R"
      "q \<in> set ins" "covers s e q" "in_type q = T"
    have "t = T" if tt: "typeAt ins x t"
    proof -
      obtain r where rr: "r \<in> set ins" "covers s e r" "in_type r = t" "0 \<le> memMapRank t" using tt c by (auto simp: typeAt_def)
      have "R \<le> memMapRank t" using tt c q by (force simp: typeAt_def)
      moreover have "memMapRank t \<le> R" using q(3) rr by blast
      ultimately show ?thesis using rank_inj [of t T] q(2) rr(4) by simp
    qed
    moreover have "typeAt ins x T" using q c by (auto simp: typeAt_def)
    ultimately show ?thesis using q(1) by blast
  qed
qed

lemma sweep_correct:
  assumes "sorted_wrt (<) (pre @ s # pts)"
    and "\<And>r b en. r \<in> set ins \<Longrightarrow> memMapRoundInput r = Some (b, en) \<Longrightarrow> b \<in> set (pre @ s # pts) \<and> en \<in> set (pre @ s # pts)"
    and "\<And>p. p \<in> set (s # pts) \<Longrightarrow> 4096 dvd unat p"
    and "outInv out (unat s)" and "\<And>x t. x < unat s \<Longrightarrow> regionType out x t \<longleftrightarrow> typeAt ins x t"
    and "sweep ins cap (s # pts) out = Inr out'"
  shows "outInv out' (unat (last (s # pts))) \<and> (\<forall>x t. x < unat (last (s # pts)) \<longrightarrow> (regionType out' x t \<longleftrightarrow> typeAt ins x t))"
  using assms
proof (induction pts arbitrary: pre s out)
  case Nil
  then show ?case by simp
next
  case (Cons e pts)
  obtain R T where b: "bestType ins s e = (R, T)" by fastforce
  have se: "s < e" using Cons.prems(1) by (simp add: sorted_wrt_append)
  have lt: "unat s < unat e" using se by (simp add: word_less_nat_alt)
  have seg: "typeAt ins x t \<longleftrightarrow> 0 \<le> R \<and> t = T" if "unat s \<le> x" "x < unat e" for x t
    using segment_type [OF Cons.prems(1) _ that b] Cons.prems(2) by blast
  have P: "sorted_wrt (<) ((pre @ [s]) @ e # pts)" using Cons.prems(1) by simp
  have none: "\<not> regionType out x t" if "unat s \<le> x" for x t
    using Cons.prems(4) that by (force simp: outInv_def regionType_def)
  show ?case
  proof (cases "R < 0")
    case True
    have sw: "sweep ins cap (e # pts) out = Inr out'" using Cons.prems(6) b True by simp
    have o: "outInv out (unat e)" using Cons.prems(4) lt by (force simp: outInv_def)
    have "regionType out x t \<longleftrightarrow> typeAt ins x t" if "x < unat e" for x t
      using that Cons.prems(5) [of x t] seg [of x t] none [of x t] True by (cases "x < unat s") auto
    then show ?thesis
      using Cons.IH [OF P _ _ o _ sw] Cons.prems(2,3) by auto
  next
    case False
    then have T: "memMapRank T \<ge> 0" using bestType_spec [OF b] by auto
    obtain out1 where em: "emitRegion cap s e T out = Inr out1" and sw: "sweep ins cap (e # pts) out1 = Inr out'"
      using Cons.prems(6) b False by (auto split: sum.splits)
    have al: "4096 dvd unat s" "4096 dvd unat e" using Cons.prems(3) by auto
    note E = emit_inv [OF Cons.prems(4) se al T em]
    have "regionType out1 x t \<longleftrightarrow> typeAt ins x t" if "x < unat e" for x t
      using that Cons.prems(5) [of x t] seg [of x t] none [of x t] False E(2) [of x t] by (cases "x < unat s") auto
    then show ?thesis
      using Cons.IH [OF P _ _ E(1) _ sw] Cons.prems(2,3) by auto
  qed
qed

lemma sweep_room:
  "length out + length pts \<le> cap + 1 \<Longrightarrow> \<exists>out'. sweep ins cap pts out = Inr out'"
proof (induction ins cap pts out rule: sweep.induct)
  case (1 ins cap s e pts out)
  obtain R T where b: "bestType ins s e = (R, T)" by fastforce
  show ?case
  proof (cases "R < 0")
    case True
    then show ?thesis using 1(1) [OF b [symmetric] refl True] 1(3) b by simp
  next
    case False
    have "\<exists>out1. emitRegion cap s e T out = Inr out1" using 1(3) by (simp add: emitRegion_def)
    then obtain out1 where em: "emitRegion cap s e T out = Inr out1" by blast
    then have "length out1 \<le> length out + 1" by (auto simp: emitRegion_def split: if_splits)
    then show ?thesis using 1(2) [OF b [symmetric] refl False em] 1(3) b False em by simp
  qed
qed auto

lemma sweep_error: "sweep ins cap pts out = Inl e \<Longrightarrow> e = BOOT_ERR_MEMMAP_CAPACITY"
  by (induction ins cap pts out rule: sweep.induct)
    (auto simp: emitRegion_def split: if_splits prod.splits sum.splits)

lemma emit_length: "emitRegion cap s e t out = Inr out' \<Longrightarrow> length out \<le> cap \<Longrightarrow> length out' \<le> cap"
  by (auto simp: emitRegion_def split: if_splits)

lemma sweep_length: "sweep ins cap pts out = Inr out' \<Longrightarrow> length out \<le> cap \<Longrightarrow> length out' \<le> cap"
proof (induction ins cap pts out rule: sweep.induct)
  case (1 ins cap s e pts out)
  then show ?case by (auto dest: emit_length split: if_splits prod.splits sum.splits)
qed auto

section \<open>The kernel accepts what the loader writes\<close>

lemma mod_page: "(x :: u64) mod 4096 = 0 \<longleftrightarrow> 4096 dvd unat x"
  by (simp add: unat_mod_eq_0 dvd_eq_mod_eq_0)

lemma word_range_end: "\<not> (base r + len r < base r) \<longleftrightarrow> rend r < 2 ^ 64"
  by (simp add: wrap_add_less_iff rend_def not_le)

lemma unat_range_sum: "rend r < 2 ^ 64 \<Longrightarrow> unat (base r + len r) = rend r"
  by (simp add: rend_def unat_add_nowrap)

definition regionOk :: "BootMemRegion \<Rightarrow> bool" where
  "regionOk r \<longleftrightarrow> 0 < unat (len r) \<and> 4096 dvd unat (base r) \<and> 4096 dvd unat (len r) \<and> rend r < 2 ^ 64
     \<and> BOOT_MEM_USABLE \<le> mtype r \<and> mtype r \<le> BOOT_MEM_FRAMEBUFFER \<and> mreserved r = 0"

lemma memMapCheck_step:
  assumes "\<And>q. prev = Some q \<Longrightarrow> rend q < 2 ^ 64"
  shows "memMapCheckFrom prev (r # rs) = Inr () \<longleftrightarrow>
     regionOk r \<and> (\<forall>q. prev = Some q \<longrightarrow> rend q \<le> unat (base r)) \<and> memMapCheckFrom (Some r) rs = Inr ()"
proof -
  have l: "len r = 0 \<longleftrightarrow> \<not> 0 < unat (len r)" by (simp add: unat_gt_0)
  have e: "base r + len r < base r \<longleftrightarrow> \<not> rend r < 2 ^ 64" using word_range_end [of r] by blast
  have p: "(case prev of None \<Rightarrow> False | Some q \<Rightarrow> base r < base q + len q) \<longleftrightarrow> \<not> (\<forall>q. prev = Some q \<longrightarrow> rend q \<le> unat (base r))"
    using assms by (auto simp: word_less_nat_alt unat_range_sum split: option.splits)
  show ?thesis
    unfolding memMapCheckFrom.simps l mod_page e p regionOk_def not_less [symmetric] by auto
qed

lemma memMapCheck_iff:
  assumes "\<And>q. prev = Some q \<Longrightarrow> rend q < 2 ^ 64"
  shows "memMapCheckFrom prev rs = Inr () \<longleftrightarrow> (\<forall>r \<in> set rs. regionOk r)
     \<and> sorted_wrt (\<lambda>r q. rend r \<le> unat (base q)) rs \<and> (\<forall>q r. prev = Some q \<and> r \<in> set rs \<longrightarrow> rend q \<le> unat (base r))"
  using assms
proof (induction rs arbitrary: prev)
  case (Cons r rs)
  have ih: "memMapCheckFrom (Some r) rs = Inr () \<longleftrightarrow> (\<forall>r \<in> set rs. regionOk r)
     \<and> sorted_wrt (\<lambda>r q. rend r \<le> unat (base q)) rs \<and> (\<forall>x \<in> set rs. rend r \<le> unat (base x))" if "regionOk r"
  proof -
    have "rend r < 2 ^ 64" using that by (simp add: regionOk_def)
    then show ?thesis using Cons.IH [of "Some r"] by auto
  qed
  have le: "unat (base r) \<le> rend r" by (simp add: rend_def)
  have st: "memMapCheckFrom prev (r # rs) = Inr () \<longleftrightarrow>
     regionOk r \<and> (\<forall>q. prev = Some q \<longrightarrow> rend q \<le> unat (base r)) \<and> memMapCheckFrom (Some r) rs = Inr ()"
    by (rule memMapCheck_step) (rule Cons.prems)
  show ?case
  proof (cases "regionOk r")
    case True
    have tr: "rend q \<le> unat (base x)" if "rend q \<le> unat (base r)" "rend r \<le> unat (base x)" for q x using that le by linarith
    show ?thesis
      unfolding st ih [OF True] list.set ball_simps sorted_wrt.simps using True tr by blast
  next
    case False
    then show ?thesis unfolding st by simp
  qed
qed simp

lemma bootMemMapCheck_iff:
  "bootMemMapCheck rs = Inr () \<longleftrightarrow> (\<forall>r \<in> set rs. regionOk r) \<and> sorted_wrt (\<lambda>r q. rend r \<le> unat (base q)) rs"
  using memMapCheck_iff [of None rs] by (simp add: bootMemMapCheck_def)

lemma outInv_check:
  assumes "outInv out (unat (s :: u64))"
  shows "bootMemMapCheck out = Inr ()"
proof -
  have "regionOk r" if "r \<in> set out" for r
    using assms that rank_bounds [of "mtype r"] unat_lt_64 [of s] by (force simp: outInv_def regionOk_def)
  moreover have "sorted_wrt (\<lambda>r q. rend r \<le> unat (base q)) out"
    using assms by (auto simp: outInv_def sepBefore_def intro: sorted_wrt_mono_rel [of out sepBefore])
  ultimately show ?thesis by (simp add: bootMemMapCheck_iff)
qed

text \<open>A map the kernel accepts keeps the contract the page allocator's scan relies on.\<close>

lemma check_regionsOk:
  assumes "bootMemMapCheck rs = Inr ()"
  shows "regionsOk 0 rs"
proof -
  have "regionsOk lo rs" if "\<forall>r \<in> set rs. regionOk r \<and> lo \<le> unat (base r)" "sorted_wrt (\<lambda>r q. rend r \<le> unat (base q)) rs" for lo
    using that by (induction rs arbitrary: lo) (auto simp: regionOk_def rend_def)
  then show ?thesis using assms by (simp add: bootMemMapCheck_iff)
qed

lemma sorted_last:
  fixes P :: "u64 list"
  shows "sorted_wrt (<) P \<Longrightarrow> p \<in> set P \<Longrightarrow> p \<le> last P"
  by (induction P) (auto simp: less_imp_le)

text \<open>An overlay passes exactly when it is empty or lies in one loader descriptor.\<close>

lemma memMapCheckOverlay_iff:
  "memMapCheckOverlay b n rs = BOOT_OK \<longleftrightarrow> n = 0
     \<or> (unat b + unat n < 2 ^ 64 \<and> (\<exists>r \<in> set rs. (in_type r = 1 \<or> in_type r = 2) \<and> unat (in_base r) + unat (in_len r) < 2 ^ 64
          \<and> unat (in_base r) \<le> unat b \<and> unat b + unat n \<le> unat (in_base r) + unat (in_len r)))"
proof -
  have w: "x + y < x \<longleftrightarrow> \<not> unat x + unat y < 2 ^ 64" for x y :: u64 by (simp add: wrap_add_less_iff not_less)
  have "overlayLoop b e rs = BOOT_OK \<longleftrightarrow> (\<exists>r \<in> set rs. (in_type r = 1 \<or> in_type r = 2) \<and> \<not> in_base r + in_len r < in_base r
      \<and> in_base r \<le> b \<and> e \<le> in_base r + in_len r)" for e
    by (induction rs) (auto simp: Let_def)
  then show ?thesis
    unfolding memMapCheckOverlay_def Let_def w
    by (auto simp: word_le_nat_alt unat_add_nowrap)
qed

section \<open>Properties\<close>

text \<open>
  C27: The normalised memory map says the right thing about every address. With an output array of
  at least two entries per input the normalisation succeeds, and it fails only for lack of room. Its
  result is accepted by the kernel's own check (non-empty, page-aligned, sorted, disjoint regions of
  known types), never has two touching regions of one type, and an address has a type in it exactly
  when some rounded input of that type covers the address and no covering input ranks higher; so
  holes stay holes.
\<close>

theorem memMapNormalize_correct:
  shows "(2 * length ins \<le> cap \<longrightarrow> (\<exists>out. memMapNormalize ins cap = Inr out))
    \<and> (case memMapNormalize ins cap of
         Inl e \<Rightarrow> e = BOOT_ERR_MEMMAP_CAPACITY
       | Inr out \<Rightarrow> length out \<le> cap \<and> bootMemMapCheck out = Inr () \<and> sorted_wrt sepBefore out
           \<and> (\<forall>x t. regionType out x t \<longleftrightarrow> typeAt ins x t))"
proof -
  define C where "C = collectPoints ins []"
  define P where "P = uniquePoints (sortPoints C)"
  have P: "sorted_wrt (<) P" "set P = set C" "length P \<le> length C"
    using uniquePoints_sorted [of "sort C"] by (simp_all add: P_def sortPoints_sort)
  have lC: "length C \<le> 2 * length ins" using collectPoints_length [of ins "[]"] by (simp add: C_def)
  have n: "memMapNormalize ins cap = sweep ins cap P []" by (simp add: memMapNormalize_def P_def C_def)
  have room: "\<exists>out. memMapNormalize ins cap = Inr out" if "2 * length ins \<le> cap"
    unfolding n using that P(3) lC by (intro sweep_room) simp
  have ends: "b \<in> set P \<and> e \<in> set P" if "r \<in> set ins" "memMapRoundInput r = Some (b, e)" for r b e
    using that P(2) collectPoints_set [of ins "[]"] by (auto simp: C_def)
  have al: "4096 dvd unat p" if "p \<in> set P" for p
    using that P(2) collectPoints_set [of ins "[]"] round_Some by (auto simp: C_def)
  have "length out \<le> cap \<and> bootMemMapCheck out = Inr () \<and> sorted_wrt sepBefore out \<and> (\<forall>x t. regionType out x t \<longleftrightarrow> typeAt ins x t)"
    if ok: "memMapNormalize ins cap = Inr out" for out
  proof (cases P)
    case Nil
    then have o: "out = []" using ok n by simp
    have "memMapRoundInput r = None" if "r \<in> set ins" for r
      using Nil ends [OF that] by (cases "memMapRoundInput r") auto
    then show ?thesis using o by (auto simp: bootMemMapCheck_def regionType_def typeAt_def inRange_def)
  next
    case (Cons s pts)
    have low: "\<not> typeAt ins x t" if x: "x < unat s \<or> unat (last (s # pts)) \<le> x" for x t
    proof
      assume "typeAt ins x t"
      then obtain r b e where r: "r \<in> set ins" "memMapRoundInput r = Some (b, e)" "unat b \<le> x" "x < unat e"
        by (auto simp: typeAt_def inRange_def split: option.splits)
      have "s \<le> b" "e \<le> last (s # pts)" using ends [OF r(1,2)] P(1) Cons sorted_last [of P e] by auto
      then show False using x r by (auto simp: word_le_nat_alt)
    qed
    have sw: "sweep ins cap (s # pts) [] = Inr out" using ok n Cons by simp
    have S: "outInv out (unat (last (s # pts))) \<and> (\<forall>x t. x < unat (last (s # pts)) \<longrightarrow> (regionType out x t \<longleftrightarrow> typeAt ins x t))"
      using sweep_correct [of "[]" s pts ins "[]" cap out] P(1) ends al low sw Cons by (simp add: outInv_def regionType_def)
    have "regionType out x t \<longleftrightarrow> typeAt ins x t" for x t
    proof (cases "x < unat (last (s # pts))")
      case False
      then have "\<not> regionType out x t" using S by (force simp: outInv_def regionType_def)
      then show ?thesis using low [of x t] False by simp
    qed (use S in blast)
    then show ?thesis using S outInv_check sweep_length [OF sw] by (auto simp: outInv_def)
  qed
  then show ?thesis using room sweep_error [of ins cap P "[]"] n by (auto split: sum.splits)
qed

theorem memMapNormalize_correct_witness:
  "\<exists>out. memMapNormalize [\<lparr>in_base = 0x800, in_len = 0x8000, in_type = 1\<rparr>, \<lparr>in_base = 0x2000, in_len = 0x10, in_type = 7\<rparr>] 4 = Inr out
     \<and> bootMemMapCheck out = Inr ()"
  using memMapNormalize_correct [of "[\<lparr>in_base = 0x800, in_len = 0x8000, in_type = 1\<rparr>, \<lparr>in_base = 0x2000, in_len = 0x10, in_type = 7\<rparr>]" 4]
  by (auto split: sum.splits)

end
