(* ===== verification/Bootinfo.thy ===== *)
theory Bootinfo
  imports Memmap
begin

text \<open>
  The boot handoff and its validation, \<open>kernel/core/bootinfo.c\<close> over the structures of
  \<open>boot/common/include/bootinfo.h\<close>. Memory is a byte store keyed by virtual address; the handoff
  structure itself is a record with the address it was found at. The linker symbols of the kernel
  image are the parameters \<open>kernelImageStart\<close> and \<open>kernelImageEnd\<close>. An error carries the status and
  the message written to \<open>why\<close>.
\<close>

section \<open>Data\<close>

definition BOOTINFO_MAGIC :: u64 where "BOOTINFO_MAGIC = 0x544F4F42474E4F42"
definition BOOTINFO_VERSION :: u32 where "BOOTINFO_VERSION = 1"
definition BOOTINFO_HHDM_BASE :: u64 where "BOOTINFO_HHDM_BASE = 0xFFFF800000000000"
definition BOOTINFO_HHDM_SIZE :: u64 where "BOOTINFO_HHDM_SIZE = 0x0000400000000000"
definition BOOTINFO_KERNEL_WINDOW_BASE :: u64 where "BOOTINFO_KERNEL_WINDOW_BASE = 0xFFFFFFFF80000000"
definition BOOTINFO_KERNEL_WINDOW_END :: u64 where "BOOTINFO_KERNEL_WINDOW_END = 0xFFFFFFFFA0000000"
definition BOOTINFO_CMDLINE_MAX :: u64 where "BOOTINFO_CMDLINE_MAX = 4096"
definition BOOTINFO_KASLR_ALIGN :: u64 where "BOOTINFO_KASLR_ALIGN = 2 * 1024 * 1024"
definition BOOTINFO_MEMMAP_MAX :: u32 where "BOOTINFO_MEMMAP_MAX = 8192"

definition BOOTINFO_KERNEL_WINDOW_SIZE :: u64 where
  "BOOTINFO_KERNEL_WINDOW_SIZE = BOOTINFO_KERNEL_WINDOW_END - BOOTINFO_KERNEL_WINDOW_BASE"

lemmas bootinfo_consts = BOOTINFO_MAGIC_def BOOTINFO_VERSION_def BOOTINFO_HHDM_BASE_def BOOTINFO_HHDM_SIZE_def
  BOOTINFO_KERNEL_WINDOW_BASE_def BOOTINFO_KERNEL_WINDOW_END_def BOOTINFO_CMDLINE_MAX_def BOOTINFO_KASLR_ALIGN_def
  BOOTINFO_MEMMAP_MAX_def BOOTINFO_KERNEL_WINDOW_SIZE_def

record BootFramebuffer =
  fb_phys :: u64
  fb_width :: u32
  fb_height :: u32
  fb_pitch :: u32
  fb_bpp :: u32
  fb_shifts :: "u8 list"
  fb_reserved :: "u8 list"

record BootInfo =
  magic :: u64
  version :: u32
  bi_size :: u32
  bootMethod :: u32
  memMapCount :: u32
  memMapPhys :: u64
  fb :: BootFramebuffer
  rsdpPhys :: u64
  kernelPhysBase :: u64
  kernelVirtBase :: u64
  kernelSize :: u64
  kaslrSlide :: u64
  initrdPhys :: u64
  initrdSize :: u64
  cmdlinePhys :: u64
  hhdmBase :: u64
  loaderTsc :: u64
  efiSystemTablePhys :: u64
  bootDiskGuid :: "u8 list"
  bootPartGuid :: "u8 list"
  randomSeed :: "u8 list"

abbreviation sizeof_BootInfo :: u64 where "sizeof_BootInfo \<equiv> 248"
abbreviation sizeof_BootMemRegion :: u64 where "sizeof_BootMemRegion \<equiv> 24"

type_synonym checked = "(Status \<times> string) + unit"

definition bad :: "string \<Rightarrow> checked" where
  "bad w = Inl (STATUS_ERR_INVALID, w)"

section \<open>The header\<close>

definition bootInfoCheckHeader :: "u64 \<Rightarrow> u64 \<Rightarrow> BootInfo \<Rightarrow> checked" where
  "bootInfoCheckHeader kernelImageStart kernelImageEnd bi =
     (if magic bi \<noteq> BOOTINFO_MAGIC then bad ''bad magic''
      else if version bi \<noteq> BOOTINFO_VERSION then bad ''unsupported BootInfo version''
      else if bi_size bi \<noteq> 248 then bad ''BootInfo.size does not match sizeof(BootInfo)''
      else if bootMethod bi \<noteq> 1 \<and> bootMethod bi \<noteq> 2 then bad ''unknown bootMethod''
      else if hhdmBase bi \<noteq> BOOTINFO_HHDM_BASE then bad ''hhdmBase does not match BOOTINFO_HHDM_BASE''
      else if kaslrSlide bi mod BOOTINFO_KASLR_ALIGN \<noteq> 0 then bad ''kaslrSlide is not 2 MiB aligned''
      else if kernelSize bi > BOOTINFO_KERNEL_WINDOW_SIZE then bad ''kernel image exceeds the kernel window (kernelSize too large)''
      else let needed = (kernelSize bi + BOOTINFO_KASLR_ALIGN - 1) AND NOT (BOOTINFO_KASLR_ALIGN - 1)
        in if kaslrSlide bi > BOOTINFO_KERNEL_WINDOW_SIZE - needed then bad ''kernel image exceeds the kernel window (kaslrSlide too large)''
      else if kernelVirtBase bi \<noteq> kernelImageStart then bad ''kernelVirtBase does not match kernelImageStart''
      else if kernelVirtBase bi - kaslrSlide bi \<noteq> BOOTINFO_KERNEL_WINDOW_BASE then bad ''kernelVirtBase - kaslrSlide does not match the kernel link base''
      else let expectedSize = kernelImageEnd - kernelImageStart
        in if kernelSize bi \<noteq> expectedSize then bad ''kernelSize does not match the linked image size''
      else if kernelPhysBase bi mod 4096 \<noteq> 0 then bad ''kernelPhysBase is not 4 KiB aligned''
      else if memMapCount bi < 1 \<or> memMapCount bi > BOOTINFO_MEMMAP_MAX then bad ''memMapCount is out of range''
      else if memMapPhys bi mod 8 \<noteq> 0 then bad ''memMapPhys is not 8-byte aligned''
      else let mapBytes = ucast (memMapCount bi) * sizeof_BootMemRegion
        in if memMapPhys bi > BOOTINFO_HHDM_SIZE \<or> mapBytes > BOOTINFO_HHDM_SIZE - memMapPhys bi
             then bad ''memory map array does not fit inside the HHDM window''
      else Inr ())"

section \<open>References into the map\<close>

fun rangeLoop :: "BootMemRegion list \<Rightarrow> u64 \<Rightarrow> u64 \<Rightarrow> u32 \<Rightarrow> bool" where
  "rangeLoop [] b e t = False"
| "rangeLoop (r # rs) b e t =
     (if mtype r \<noteq> t then rangeLoop rs b e t
      else let regionEnd = base r + len r in if base r \<le> b \<and> e \<le> regionEnd then True else rangeLoop rs b e t)"

definition bootRangeInsideType :: "BootMemRegion list \<Rightarrow> u64 \<Rightarrow> u64 \<Rightarrow> u32 \<Rightarrow> bool" where
  "bootRangeInsideType regions b n t =
     (if n = 0 then True else let e = b + n in if e < b then False else rangeLoop regions b e t)"

fun bootFindContainingRegionEnd :: "BootMemRegion list \<Rightarrow> u64 \<Rightarrow> u32 \<Rightarrow> u64 option" where
  "bootFindContainingRegionEnd [] b t = None"
| "bootFindContainingRegionEnd (r # rs) b t =
     (if mtype r \<noteq> t then bootFindContainingRegionEnd rs b t
      else let regionEnd = base r + len r
        in if base r \<le> b \<and> b < regionEnd then Some regionEnd else bootFindContainingRegionEnd rs b t)"

definition scanNul :: "(u64 \<Rightarrow> u8) \<Rightarrow> u64 \<Rightarrow> u64 \<Rightarrow> bool" where
  "scanNul mem p maxScan = (find (\<lambda>i. mem (p + of_nat i) = 0) [0..<unat maxScan] \<noteq> None)"

definition bootInfoCheckRefs :: "(u64 \<Rightarrow> u8) \<Rightarrow> u64 \<Rightarrow> BootInfo \<Rightarrow> BootMemRegion list \<Rightarrow> checked" where
  "bootInfoCheckRefs mem addr bi regions =
     (let mapBytes = of_nat (length regions) * sizeof_BootMemRegion
      in if \<not> bootRangeInsideType regions (memMapPhys bi) mapBytes BOOT_MEM_LOADER_RECLAIM
           then bad ''the memory map array is not inside a LOADER_RECLAIM region''
      else let biPhys = addr - hhdmBase bi
        in if \<not> bootRangeInsideType regions biPhys sizeof_BootInfo BOOT_MEM_LOADER_RECLAIM
             then bad ''the BootInfo page is not inside a LOADER_RECLAIM region''
      else if cmdlinePhys bi = 0 then bad ''cmdlinePhys is zero''
      else case bootFindContainingRegionEnd regions (cmdlinePhys bi) BOOT_MEM_LOADER_RECLAIM of
             None \<Rightarrow> bad ''cmdline is not inside a LOADER_RECLAIM region''
           | Some regionEnd \<Rightarrow>
      let maxScan0 = regionEnd - cmdlinePhys bi;
          maxScan = (if maxScan0 > BOOTINFO_CMDLINE_MAX then BOOTINFO_CMDLINE_MAX else maxScan0)
      in if \<not> scanNul mem (hhdmBase bi + cmdlinePhys bi) maxScan
           then bad ''cmdline is not NUL-terminated within its containing region or BOOTINFO_CMDLINE_MAX bytes''
      else if \<not> bootRangeInsideType regions (kernelPhysBase bi) (kernelSize bi) BOOT_MEM_KERNEL
           then bad ''the kernel image is not inside a KERNEL region''
      else if \<not> list_ex (\<lambda>r. mtype r = BOOT_MEM_USABLE) regions then bad ''no USABLE region in the memory map''
      else if initrdSize bi \<noteq> 0 \<and> \<not> bootRangeInsideType regions (initrdPhys bi) (initrdSize bi) BOOT_MEM_INITRD
           then bad ''initrd is not inside an INITRD region''
      else if fb_phys (fb bi) \<noteq> 0
        then let fbSize = ucast (fb_pitch (fb bi)) * ucast (fb_height (fb bi))
          in if \<not> bootRangeInsideType regions (fb_phys (fb bi)) fbSize BOOT_MEM_FRAMEBUFFER
               then bad ''framebuffer is not inside a FRAMEBUFFER region''
             else if fb_reserved (fb bi) ! 0 \<noteq> 0 \<or> fb_reserved (fb bi) ! 1 \<noteq> 0 then bad ''framebuffer reserved bytes are nonzero''
             else Inr ()
      else Inr ())"

section \<open>The whole validation\<close>

definition memBytes :: "(u64 \<Rightarrow> u8) \<Rightarrow> u64 \<Rightarrow> nat \<Rightarrow> u8 list" where
  "memBytes mem a n = map (\<lambda>i. mem (a + of_nat i)) [0..<n]"

definition loadRegion :: "(u64 \<Rightarrow> u8) \<Rightarrow> u64 \<Rightarrow> BootMemRegion" where
  "loadRegion mem a =
     (let bs = memBytes mem a 24
      in \<lparr>base = load64 bs 0, len = load64 bs 8, mtype = load32 bs 16, mreserved = load32 bs 20\<rparr>)"

definition loadRegions :: "(u64 \<Rightarrow> u8) \<Rightarrow> u64 \<Rightarrow> nat \<Rightarrow> BootMemRegion list" where
  "loadRegions mem a n = map (\<lambda>i. loadRegion mem (a + of_nat i * sizeof_BootMemRegion)) [0..<n]"

definition bootInfoValidate :: "(u64 \<Rightarrow> u8) \<Rightarrow> u64 \<Rightarrow> u64 \<Rightarrow> u64 \<Rightarrow> BootInfo \<Rightarrow> checked" where
  "bootInfoValidate mem kernelImageStart kernelImageEnd addr bi =
     (if addr = 0 then bad ''BootInfo pointer is NULL''
      else if addr AND 7 \<noteq> 0 then bad ''BootInfo pointer is not 8-byte aligned''
      else if addr < BOOTINFO_HHDM_BASE \<or> addr - BOOTINFO_HHDM_BASE > BOOTINFO_HHDM_SIZE - sizeof_BootInfo
        then bad ''BootInfo pointer is outside the HHDM window''
      else case bootInfoCheckHeader kernelImageStart kernelImageEnd bi of
             Inl e \<Rightarrow> Inl e
           | Inr _ \<Rightarrow>
      let regions = loadRegions mem (hhdmBase bi + memMapPhys bi) (unat (memMapCount bi))
      in case bootMemMapCheck regions of
           Inl e \<Rightarrow> Inl e
         | Inr _ \<Rightarrow> bootInfoCheckRefs mem addr bi regions)"

definition bootMemTypeName :: "u32 \<Rightarrow> string" where
  "bootMemTypeName t =
     (if t = BOOT_MEM_USABLE then ''USABLE''
      else if t = BOOT_MEM_RESERVED then ''RESERVED''
      else if t = BOOT_MEM_ACPI_RECLAIM then ''ACPI_RECLAIM''
      else if t = BOOT_MEM_ACPI_NVS then ''ACPI_NVS''
      else if t = BOOT_MEM_BAD then ''BAD''
      else if t = BOOT_MEM_LOADER_RECLAIM then ''LOADER_RECLAIM''
      else if t = BOOT_MEM_KERNEL then ''KERNEL''
      else if t = BOOT_MEM_INITRD then ''INITRD''
      else if t = BOOT_MEM_FRAMEBUFFER then ''FRAMEBUFFER''
      else ''UNKNOWN'')"

section \<open>What the checks mean\<close>

definition insideType :: "BootMemRegion list \<Rightarrow> nat \<Rightarrow> nat \<Rightarrow> u32 \<Rightarrow> bool" where
  "insideType rs b n t \<longleftrightarrow> (\<exists>r \<in> set rs. mtype r = t \<and> unat (base r) \<le> b \<and> b + n \<le> rend r)"

lemma rangeLoop_iff: "rangeLoop rs b e t \<longleftrightarrow> (\<exists>r \<in> set rs. mtype r = t \<and> base r \<le> b \<and> e \<le> base r + len r)"
  by (induction rs) (auto simp: Let_def)

lemma insideType_sound:
  assumes "bootMemMapCheck rs = Inr ()" "bootRangeInsideType rs b n t" "n \<noteq> 0"
  shows "insideType rs (unat b) (unat n) t"
proof -
  have nw: "\<not> b + n < b" and l: "rangeLoop rs b (b + n) t"
    using assms(2,3) by (auto simp: bootRangeInsideType_def Let_def split: if_splits)
  then have s: "unat (b + n) = unat b + unat n" by (simp add: wrap_add_less_iff unat_add_nowrap not_le)
  obtain r where r: "r \<in> set rs" "mtype r = t" "base r \<le> b" "b + n \<le> base r + len r" using l by (auto simp: rangeLoop_iff)
  have "rend r < 2 ^ 64" using assms(1) r(1) by (simp add: bootMemMapCheck_iff regionOk_def)
  then show ?thesis using r s by (auto simp: insideType_def word_le_nat_alt unat_range_sum)
qed

lemma regionEnd_sound:
  assumes "bootMemMapCheck rs = Inr ()" "bootFindContainingRegionEnd rs b t = Some e"
  shows "unat b < unat e \<and> insideType rs (unat b) (unat e - unat b) t"
proof -
  obtain r where r: "r \<in> set rs" "mtype r = t" "base r \<le> b" "b < base r + len r" "e = base r + len r"
    using assms(2) by (induction rs) (auto simp: Let_def split: if_splits)
  have "rend r < 2 ^ 64" using assms(1) r(1) by (simp add: bootMemMapCheck_iff regionOk_def)
  then show ?thesis using r by (auto simp: insideType_def word_le_nat_alt word_less_nat_alt unat_range_sum)
qed

text \<open>Ranges inside regions of different types do not meet.\<close>

lemma insideType_disjoint:
  assumes ok: "bootMemMapCheck rs = Inr ()" and i: "insideType rs b n t" and q: "q \<in> set rs" "mtype q \<noteq> t"
  shows "{b..<b + n} \<inter> {unat (base q)..<rend q} = {}"
proof -
  obtain r where r: "r \<in> set rs" "mtype r = t" "unat (base r) \<le> b" "b + n \<le> rend r" using i by (auto simp: insideType_def)
  have "sorted_wrt (\<lambda>r q. rend r \<le> unat (base q)) rs" using ok by (simp add: bootMemMapCheck_iff)
  then have "rend r \<le> unat (base q) \<or> rend q \<le> unat (base r)"
    using r(1,2) q by (auto simp: in_set_conv_nth sorted_wrt_iff_nth_less) (metis nat_neq_iff)
  then show ?thesis using r by auto
qed

text \<open>A range inside one region of its type, away from all memory the allocator will hand out.\<close>

definition apartInside :: "BootMemRegion list \<Rightarrow> nat \<Rightarrow> nat \<Rightarrow> u32 \<Rightarrow> bool" where
  "apartInside rs b n t \<longleftrightarrow> insideType rs b n t
     \<and> (\<forall>u \<in> set rs. mtype u = BOOT_MEM_USABLE \<longrightarrow> {b..<b + n} \<inter> {unat (base u)..<rend u} = {})"

lemma apartInside_special:
  assumes "bootMemMapCheck rs = Inr ()" "insideType rs b n t"
  shows "t = BOOT_MEM_LOADER_RECLAIM \<or> t = BOOT_MEM_KERNEL \<or> t = BOOT_MEM_INITRD \<Longrightarrow> apartInside rs b n t"
proof -
  have "BOOT_MEM_USABLE \<noteq> BOOT_MEM_LOADER_RECLAIM" "BOOT_MEM_USABLE \<noteq> BOOT_MEM_KERNEL" "BOOT_MEM_USABLE \<noteq> BOOT_MEM_INITRD"
    by (simp_all add: boot_mem_types)
  then show "t = BOOT_MEM_LOADER_RECLAIM \<or> t = BOOT_MEM_KERNEL \<or> t = BOOT_MEM_INITRD \<Longrightarrow> apartInside rs b n t"
    using insideType_disjoint [OF assms] assms(2) unfolding apartInside_def by metis
qed

lemma scanNul_sound:
  assumes "scanNul mem p n"
  shows "\<exists>k < unat n. mem (p + of_nat k) = 0 \<and> (\<forall>i < k. mem (p + of_nat i) \<noteq> 0)"
proof -
  obtain k where k: "find (\<lambda>i. mem (p + of_nat i) = 0) [0..<unat n] = Some k" using assms by (auto simp: scanNul_def)
  then show ?thesis by (auto simp: find_Some_iff)
qed

lemma mask_21: "BOOTINFO_KASLR_ALIGN - 1 = mask 21"
  by (simp add: bootinfo_consts mask_eq_exp_minus_1)

lemma needed_bounds:
  assumes "unat n \<le> 0x20000000"
  shows "unat n \<le> unat ((n + BOOTINFO_KASLR_ALIGN - 1) AND NOT (BOOTINFO_KASLR_ALIGN - 1))"
    "unat ((n + BOOTINFO_KASLR_ALIGN - 1) AND NOT (BOOTINFO_KASLR_ALIGN - 1)) \<le> 0x20000000"
proof -
  have e: "n + BOOTINFO_KASLR_ALIGN - 1 = n + mask 21" by (simp only: mask_21 [symmetric] add_diff_eq)
  have m: "unat (mask 21 :: u64) = 2097151" by (simp add: mask_eq_exp_minus_1)
  then have "unat (n + mask 21) = unat n + 2097151" using assms by (subst unat_add_nowrap) auto
  then have "unat ((n + BOOTINFO_KASLR_ALIGN - 1) AND NOT (BOOTINFO_KASLR_ALIGN - 1)) = (unat n + 2097151) div 2097152 * 2097152"
    unfolding e mask_21 using unat_and_not_low_bits [of 21 "n + mask 21"] by simp
  moreover have "unat n \<le> (unat n + 2097151) div 2097152 * 2097152" by linarith
  moreover have "(unat n + 2097151) div 2097152 * 2097152 \<le> 0x20000000"
    using mult_le_mono1 [OF div_le_mono [of "unat n + 2097151" "0x20000000 + 2097151" 2097152], of 2097152] assms by simp
  ultimately show "unat n \<le> unat ((n + BOOTINFO_KASLR_ALIGN - 1) AND NOT (BOOTINFO_KASLR_ALIGN - 1))"
    "unat ((n + BOOTINFO_KASLR_ALIGN - 1) AND NOT (BOOTINFO_KASLR_ALIGN - 1)) \<le> 0x20000000" by simp_all
qed

lemma header_sound:
  assumes "bootInfoCheckHeader ks ke bi = Inr ()"
  shows "hhdmBase bi = BOOTINFO_HHDM_BASE" "unat (kernelVirtBase bi) = unat BOOTINFO_KERNEL_WINDOW_BASE + unat (kaslrSlide bi)"
    "unat (kaslrSlide bi) + unat (kernelSize bi) \<le> 0x20000000" "1 \<le> unat (memMapCount bi)" "unat (memMapCount bi) \<le> 8192"
    "unat (memMapPhys bi) + 24 * unat (memMapCount bi) \<le> unat BOOTINFO_HHDM_SIZE"
proof -
  define nd where "nd = (kernelSize bi + BOOTINFO_KASLR_ALIGN - 1) AND NOT (BOOTINFO_KASLR_ALIGN - 1)"
  have c: "hhdmBase bi = BOOTINFO_HHDM_BASE" "\<not> kernelSize bi > BOOTINFO_KERNEL_WINDOW_SIZE"
    "\<not> kaslrSlide bi > BOOTINFO_KERNEL_WINDOW_SIZE - nd" "kernelVirtBase bi - kaslrSlide bi = BOOTINFO_KERNEL_WINDOW_BASE"
    "\<not> (memMapCount bi < 1 \<or> memMapCount bi > BOOTINFO_MEMMAP_MAX)"
    "\<not> (memMapPhys bi > BOOTINFO_HHDM_SIZE \<or> ucast (memMapCount bi) * sizeof_BootMemRegion > BOOTINFO_HHDM_SIZE - memMapPhys bi)"
    using assms by (auto simp only: bootInfoCheckHeader_def bad_def Let_def nd_def split: if_splits)
  show "hhdmBase bi = BOOTINFO_HHDM_BASE" by (rule c(1))
  have ks: "unat (kernelSize bi) \<le> 0x20000000" using c(2) by (simp add: bootinfo_consts word_less_nat_alt not_less)
  note nb = needed_bounds [OF ks, folded nd_def]
  have "unat (BOOTINFO_KERNEL_WINDOW_SIZE - nd) = 0x20000000 - unat nd"
    using nb by (subst unat_sub_le) (simp_all add: bootinfo_consts)
  then have sl: "unat (kaslrSlide bi) \<le> 0x20000000 - unat nd" using c(3) by (simp add: word_less_nat_alt not_less)
  then show "unat (kaslrSlide bi) + unat (kernelSize bi) \<le> 0x20000000" using nb by simp
  have "kernelVirtBase bi = BOOTINFO_KERNEL_WINDOW_BASE + kaslrSlide bi" using c(4) by (metis diff_add_cancel)
  then show "unat (kernelVirtBase bi) = unat BOOTINFO_KERNEL_WINDOW_BASE + unat (kaslrSlide bi)"
    using sl by (simp add: bootinfo_consts) (subst unat_add_nowrap, simp_all)
  show n: "1 \<le> unat (memMapCount bi)" "unat (memMapCount bi) \<le> 8192"
    using c(5) by (simp_all add: bootinfo_consts word_less_nat_alt not_less)
  have mb: "unat (ucast (memMapCount bi) * sizeof_BootMemRegion :: u64) = unat (memMapCount bi) * 24"
    using n by (subst unat_mult_nowrap) (simp_all add: unat_ucast_32_64)
  have p: "unat (memMapPhys bi) \<le> unat BOOTINFO_HHDM_SIZE" using c(6) by (simp add: word_less_nat_alt not_less)
  then show "unat (memMapPhys bi) + 24 * unat (memMapCount bi) \<le> unat BOOTINFO_HHDM_SIZE"
    using c(6) mb unat_sub_le [OF p] by (simp add: word_less_nat_alt not_less)
qed

lemma refs_sound:
  assumes "bootInfoCheckRefs mem addr bi rs = Inr ()"
  shows "bootRangeInsideType rs (memMapPhys bi) (of_nat (length rs) * sizeof_BootMemRegion) BOOT_MEM_LOADER_RECLAIM"
    "bootRangeInsideType rs (addr - hhdmBase bi) sizeof_BootInfo BOOT_MEM_LOADER_RECLAIM"
    "\<exists>e. bootFindContainingRegionEnd rs (cmdlinePhys bi) BOOT_MEM_LOADER_RECLAIM = Some e
       \<and> scanNul mem (hhdmBase bi + cmdlinePhys bi) (min (e - cmdlinePhys bi) BOOTINFO_CMDLINE_MAX)"
    "bootRangeInsideType rs (kernelPhysBase bi) (kernelSize bi) BOOT_MEM_KERNEL"
    "\<exists>u \<in> set rs. mtype u = BOOT_MEM_USABLE"
    "initrdSize bi \<noteq> 0 \<Longrightarrow> bootRangeInsideType rs (initrdPhys bi) (initrdSize bi) BOOT_MEM_INITRD"
  using assms
  by (auto simp: bootInfoCheckRefs_def bad_def Let_def list_ex_iff min_def not_less split: if_splits option.splits)

text \<open>A small handoff: loader memory with the structure, the map and an empty command line, the kernel, and usable memory.\<close>

definition demoMapRegions :: "BootMemRegion list" where
  "demoMapRegions = [\<lparr>base = 0x1000, len = 0x2000, mtype = 6, mreserved = 0\<rparr>, \<lparr>base = 0x200000, len = 0x100000, mtype = 7, mreserved = 0\<rparr>,
     \<lparr>base = 0x400000, len = 0x100000, mtype = 1, mreserved = 0\<rparr>]"

definition demoBytes :: "u8 list" where
  "demoBytes = [0, 0x10, 0, 0, 0, 0, 0, 0, 0, 0x20, 0, 0, 0, 0, 0, 0, 0x06, 0, 0, 0, 0, 0, 0, 0,
     0, 0, 0x20, 0, 0, 0, 0, 0, 0, 0, 0x10, 0, 0, 0, 0, 0, 0x07, 0, 0, 0, 0, 0, 0, 0,
     0, 0, 0x40, 0, 0, 0, 0, 0, 0, 0, 0x10, 0, 0, 0, 0, 0, 0x01, 0, 0, 0, 0, 0, 0, 0]"

definition demoMem :: "u64 \<Rightarrow> u8" where
  "demoMem a = (let i = unat (a - 0xFFFF800000001000) in if i < 72 then demoBytes ! i else 0)"

definition demoInfo :: BootInfo where
  "demoInfo = \<lparr>magic = 0x544F4F42474E4F42, version = 1, bi_size = 248, bootMethod = 1, memMapCount = 3, memMapPhys = 0x1000,
     fb = \<lparr>fb_phys = 0, fb_width = 0, fb_height = 0, fb_pitch = 0, fb_bpp = 0, fb_shifts = [], fb_reserved = [0, 0]\<rparr>,
     rsdpPhys = 0, kernelPhysBase = 0x200000, kernelVirtBase = 0xFFFFFFFF80000000, kernelSize = 0x100000, kaslrSlide = 0,
     initrdPhys = 0, initrdSize = 0, cmdlinePhys = 0x2000, hhdmBase = 0xFFFF800000000000, loaderTsc = 0,
     efiSystemTablePhys = 0, bootDiskGuid = [], bootPartGuid = [], randomSeed = []\<rparr>"

lemma demo_regions: "loadRegions demoMem (hhdmBase demoInfo + memMapPhys demoInfo) (unat (memMapCount demoInfo)) = demoMapRegions"
proof -
  have l: "length demoBytes = 72" by (simp add: demoBytes_def)
  have b: "memBytes demoMem (0xFFFF800000001000 + 24 * k) 24 = take 24 (drop (24 * unat k) demoBytes)" if "unat k < 3" for k
  proof (rule nth_equalityI)
    fix i assume "i < length (memBytes demoMem (0xFFFF800000001000 + 24 * k) 24)"
    then have i: "i < 24" by (simp add: memBytes_def)
    have "unat (24 * k) = 24 * unat k" using that by (subst unat_mult_nowrap) auto
    then have "unat (24 * k + of_nat i) = 24 * unat k + i" using that i by (subst unat_add_nowrap) (auto simp: unat_of_nat_eq)
    then show "memBytes demoMem (0xFFFF800000001000 + 24 * k) 24 ! i = take 24 (drop (24 * unat k) demoBytes) ! i"
      using that i by (simp add: memBytes_def demoMem_def Let_def l)
  qed (use that l in \<open>simp add: memBytes_def\<close>)
  have u: "[0..<3 :: nat] = [0, 1, 2]" by (simp add: upt_rec numeral_eq_Suc)
  show ?thesis
    using b [of 0] b [of 1] b [of 2]
    by (simp add: loadRegions_def demoInfo_def u loadRegion_def Let_def load64_def load32_def le_val_def demoBytes_def demoMapRegions_def)
qed

lemma demo_validates: "bootInfoValidate demoMem 0xFFFFFFFF80000000 0xFFFFFFFF80100000 0xFFFF800000001800 demoInfo = Inr ()"
proof -
  have h: "bootInfoCheckHeader 0xFFFFFFFF80000000 0xFFFFFFFF80100000 demoInfo = Inr ()"
    by (simp add: bootInfoCheckHeader_def demoInfo_def bootinfo_consts Let_def)
  have m: "bootMemMapCheck demoMapRegions = Inr ()"
    by (simp add: bootMemMapCheck_def demoMapRegions_def boot_mem_types)
  have "demoMem 0xFFFF800000002000 = 0" by (simp add: demoMem_def Let_def)
  then have "scanNul demoMem 0xFFFF800000002000 4096" by (auto simp: scanNul_def find_None_iff intro!: exI [of _ 0] simp del: upt_rec_numeral)
  then have "bootInfoCheckRefs demoMem 0xFFFF800000001800 demoInfo demoMapRegions = Inr ()"
    by (simp add: bootInfoCheckRefs_def bootRangeInsideType_def demoInfo_def demoMapRegions_def bootinfo_consts boot_mem_types Let_def)
  then show ?thesis
    unfolding bootInfoValidate_def demo_regions Let_def h m by (simp add: bootinfo_consts)
qed

section \<open>Properties\<close>

text \<open>
  C28: A validated handoff is safe to use. The memory map in it keeps the contract of the page
  allocator's scan; the map array, the handoff structure and the command line up to its terminator lie
  inside loader memory and the kernel image, which fits its window at its slide, inside kernel memory,
  as does the initial disk in its own; at least one usable region exists; and no usable region, which
  the allocator will hand out, meets any of these ranges.
\<close>

theorem bootInfoValidate_sound:
  fixes bi mem
  defines "rs \<equiv> loadRegions mem (hhdmBase bi + memMapPhys bi) (unat (memMapCount bi))"
  assumes v: "bootInfoValidate mem ks ke addr bi = Inr ()"
  shows "regionsOk 0 rs
    \<and> unat (kernelVirtBase bi) = unat BOOTINFO_KERNEL_WINDOW_BASE + unat (kaslrSlide bi)
    \<and> unat (kaslrSlide bi) + unat (kernelSize bi) \<le> 0x20000000
    \<and> (\<exists>u \<in> set rs. mtype u = BOOT_MEM_USABLE)
    \<and> apartInside rs (unat (memMapPhys bi)) (24 * unat (memMapCount bi)) BOOT_MEM_LOADER_RECLAIM
    \<and> apartInside rs (unat addr - unat BOOTINFO_HHDM_BASE) 248 BOOT_MEM_LOADER_RECLAIM
    \<and> (\<exists>k < 4096. mem (hhdmBase bi + cmdlinePhys bi + of_nat k) = 0
         \<and> apartInside rs (unat (cmdlinePhys bi)) (Suc k) BOOT_MEM_LOADER_RECLAIM)
    \<and> (kernelSize bi \<noteq> 0 \<longrightarrow> apartInside rs (unat (kernelPhysBase bi)) (unat (kernelSize bi)) BOOT_MEM_KERNEL)
    \<and> (initrdSize bi \<noteq> 0 \<longrightarrow> apartInside rs (unat (initrdPhys bi)) (unat (initrdSize bi)) BOOT_MEM_INITRD)"
proof -
  have hd: "bootInfoCheckHeader ks ke bi = Inr ()" and m: "bootMemMapCheck rs = Inr ()"
    and rf: "bootInfoCheckRefs mem addr bi rs = Inr ()" and ad: "\<not> addr < BOOTINFO_HHDM_BASE"
    using v by (auto simp: bootInfoValidate_def bad_def rs_def Let_def split: if_splits sum.splits)
  note H = header_sound [OF hd] and R = refs_sound [OF rf]
  have len: "length rs = unat (memMapCount bi)" by (simp add: rs_def loadRegions_def)
  have mb: "unat (of_nat (length rs) * sizeof_BootMemRegion :: u64) = 24 * unat (memMapCount bi)"
    using H(5) by (subst unat_mult_nowrap) (simp_all add: len unat_ucast_32_64)
  obtain e k where e: "bootFindContainingRegionEnd rs (cmdlinePhys bi) BOOT_MEM_LOADER_RECLAIM = Some e"
    and k: "k < unat (min (e - cmdlinePhys bi) BOOTINFO_CMDLINE_MAX)" "mem (hhdmBase bi + cmdlinePhys bi + of_nat k) = 0"
    using R(3) scanNul_sound by blast
  note E = regionEnd_sound [OF m e]
  have "unat (e - cmdlinePhys bi) = unat e - unat (cmdlinePhys bi)" using E by (simp add: unat_sub_le)
  then have k2: "k < 4096" "Suc k \<le> unat e - unat (cmdlinePhys bi)"
    using k(1) by (auto simp: min_def bootinfo_consts word_le_nat_alt split: if_splits)
  have "insideType rs (unat (memMapPhys bi)) (24 * unat (memMapCount bi)) BOOT_MEM_LOADER_RECLAIM"
    using insideType_sound [OF m R(1)] mb H(4) by (metis mult_eq_0_iff not_one_le_zero unsigned_0 zero_neq_numeral)
  moreover have "unat (addr - hhdmBase bi) = unat addr - unat BOOTINFO_HHDM_BASE"
    using ad by (simp add: H(1) unat_sub_le word_less_nat_alt not_less)
  then have "insideType rs (unat addr - unat BOOTINFO_HHDM_BASE) 248 BOOT_MEM_LOADER_RECLAIM"
    using insideType_sound [OF m R(2)] by simp
  moreover have "insideType rs (unat (cmdlinePhys bi)) (Suc k) BOOT_MEM_LOADER_RECLAIM"
    using E k2 by (auto simp: insideType_def)
  moreover have "kernelSize bi \<noteq> 0 \<Longrightarrow> insideType rs (unat (kernelPhysBase bi)) (unat (kernelSize bi)) BOOT_MEM_KERNEL"
    using insideType_sound [OF m R(4)] by simp
  moreover have "initrdSize bi \<noteq> 0 \<Longrightarrow> insideType rs (unat (initrdPhys bi)) (unat (initrdSize bi)) BOOT_MEM_INITRD"
    using insideType_sound [OF m R(6)] by simp
  ultimately show ?thesis
    using check_regionsOk [OF m] H(2,3) R(5) k(2) k2(1) apartInside_special [OF m] by blast
qed

theorem bootInfoValidate_sound_witness:
  "regionsOk 0 demoMapRegions \<and> apartInside demoMapRegions 0x200000 0x100000 BOOT_MEM_KERNEL"
  using bootInfoValidate_sound [OF demo_validates] by (simp add: demo_regions) (simp add: demoInfo_def)

end
