(* ===== verification/Sha256.thy ===== *)
theory Sha256
  imports Prelude
begin

text \<open>
  SHA-256, \<open>libs/crypto/sha256.c\<close>: the compression function and the incremental interface. Buffers
  are byte lists; the context keeps its 64-byte block with stale bytes beyond \<open>bufLen\<close>, as the C
  code does. The incremental interface is proved equal to padding the whole message and compressing
  its blocks.
\<close>

section \<open>Constants and words\<close>

abbreviation SHA256_BLOCK_SIZE :: nat where "SHA256_BLOCK_SIZE \<equiv> 64"

text \<open>The round constants, row by row as the source lays them out.\<close>

definition sha256K :: "u32 list" where
  "sha256K = concat [
     [0x428a2f98, 0x71374491, 0xb5c0fbcf, 0xe9b5dba5, 0x3956c25b, 0x59f111f1, 0x923f82a4, 0xab1c5ed5],
     [0xd807aa98, 0x12835b01, 0x243185be, 0x550c7dc3, 0x72be5d74, 0x80deb1fe, 0x9bdc06a7, 0xc19bf174],
     [0xe49b69c1, 0xefbe4786, 0x0fc19dc6, 0x240ca1cc, 0x2de92c6f, 0x4a7484aa, 0x5cb0a9dc, 0x76f988da],
     [0x983e5152, 0xa831c66d, 0xb00327c8, 0xbf597fc7, 0xc6e00bf3, 0xd5a79147, 0x06ca6351, 0x14292967],
     [0x27b70a85, 0x2e1b2138, 0x4d2c6dfc, 0x53380d13, 0x650a7354, 0x766a0abb, 0x81c2c92e, 0x92722c85],
     [0xa2bfe8a1, 0xa81a664b, 0xc24b8b70, 0xc76c51a3, 0xd192e819, 0xd6990624, 0xf40e3585, 0x106aa070],
     [0x19a4c116, 0x1e376c08, 0x2748774c, 0x34b0bcb5, 0x391c0cb3, 0x4ed8aa4a, 0x5b9cca4f, 0x682e6ff3],
     [0x748f82ee, 0x78a5636f, 0x84c87814, 0x8cc70208, 0x90befffa, 0xa4506ceb, 0xbef9a3f7, 0xc67178f2]]"

definition sha256Init0 :: "u32 list" where
  "sha256Init0 = [0x6a09e667, 0xbb67ae85, 0x3c6ef372, 0xa54ff53a, 0x510e527f, 0x9b05688c, 0x1f83d9ab, 0x5be0cd19]"

definition ROTR32 :: "u32 \<Rightarrow> nat \<Rightarrow> u32" where
  "ROTR32 x n = drop_bit n x OR push_bit (32 - n) x"

definition load32Be :: "u8 list \<Rightarrow> u32" where
  "load32Be p = push_bit 24 (ucast (p ! 0)) OR push_bit 16 (ucast (p ! 1)) OR push_bit 8 (ucast (p ! 2)) OR ucast (p ! 3)"

definition store32Be :: "u32 \<Rightarrow> u8 list" where
  "store32Be v = [ucast (drop_bit 24 v), ucast (drop_bit 16 v), ucast (drop_bit 8 v), ucast v]"

text \<open>Writing bytes into a buffer at an offset.\<close>

definition blit :: "u8 list \<Rightarrow> nat \<Rightarrow> u8 list \<Rightarrow> u8 list" where
  "blit buf off bs = fold (\<lambda>i b. b[off + i := bs ! i]) [0..<length bs] buf"

section \<open>Compression\<close>

definition shaExpand :: "u32 list \<Rightarrow> u32" where
  "shaExpand w =
     (let i = length w;
          s0 = ROTR32 (w ! (i - 15)) 7 XOR ROTR32 (w ! (i - 15)) 18 XOR drop_bit 3 (w ! (i - 15));
          s1 = ROTR32 (w ! (i - 2)) 17 XOR ROTR32 (w ! (i - 2)) 19 XOR drop_bit 10 (w ! (i - 2))
      in w ! (i - 16) + s0 + w ! (i - 7) + s1)"

definition shaSchedule :: "u8 list \<Rightarrow> u32 list" where
  "shaSchedule block = fold (\<lambda>i w. w @ [shaExpand w]) [16..<64] (map (\<lambda>i. load32Be (drop (4 * i) block)) [0..<16])"

record ShaVars =
  va :: u32
  vb :: u32
  vc :: u32
  vd :: u32
  ve :: u32
  vf :: u32
  vg :: u32
  vh :: u32

definition shaRound :: "u32 list \<Rightarrow> nat \<Rightarrow> ShaVars \<Rightarrow> ShaVars" where
  "shaRound w i v =
     (let bigS1 = ROTR32 (ve v) 6 XOR ROTR32 (ve v) 11 XOR ROTR32 (ve v) 25;
          ch = (ve v AND vf v) XOR (NOT (ve v) AND vg v);
          t1 = vh v + bigS1 + ch + sha256K ! i + w ! i;
          bigS0 = ROTR32 (va v) 2 XOR ROTR32 (va v) 13 XOR ROTR32 (va v) 22;
          maj = (va v AND vb v) XOR (va v AND vc v) XOR (vb v AND vc v);
          t2 = bigS0 + maj
      in \<lparr>va = t1 + t2, vb = va v, vc = vb v, vd = vc v, ve = vd v + t1, vf = ve v, vg = vf v, vh = vg v\<rparr>)"

definition sha256Block :: "u32 list \<Rightarrow> u8 list \<Rightarrow> u32 list" where
  "sha256Block h block =
     (let w = shaSchedule block;
          v = fold (shaRound w) [0..<64]
                \<lparr>va = h ! 0, vb = h ! 1, vc = h ! 2, vd = h ! 3, ve = h ! 4, vf = h ! 5, vg = h ! 6, vh = h ! 7\<rparr>
      in [h ! 0 + va v, h ! 1 + vb v, h ! 2 + vc v, h ! 3 + vd v, h ! 4 + ve v, h ! 5 + vf v, h ! 6 + vg v, h ! 7 + vh v])"

section \<open>The incremental interface\<close>

record Sha256Ctx =
  sh :: "u32 list"
  totalBytes :: u64
  buf :: "u8 list"
  bufLen :: u32

definition sha256Init :: Sha256Ctx where
  "sha256Init = \<lparr>sh = sha256Init0, totalBytes = 0, buf = replicate SHA256_BLOCK_SIZE 0, bufLen = 0\<rparr>"

function shaUpdateLoop :: "Sha256Ctx \<Rightarrow> u8 list \<Rightarrow> Sha256Ctx" where
  "shaUpdateLoop ctx p =
     (if p = [] then ctx
      else if bufLen ctx = 0 \<and> length p \<ge> SHA256_BLOCK_SIZE
        then shaUpdateLoop (ctx\<lparr>sh := sha256Block (sh ctx) (take SHA256_BLOCK_SIZE p)\<rparr>) (drop SHA256_BLOCK_SIZE p)
      else let room = unat (64 - bufLen ctx);
               n = (if length p < room then length p else room);
               ctx1 = ctx\<lparr>buf := blit (buf ctx) (unat (bufLen ctx)) (take n p), bufLen := bufLen ctx + of_nat n\<rparr>;
               ctx2 = (if bufLen ctx1 = 64 then ctx1\<lparr>sh := sha256Block (sh ctx1) (buf ctx1), bufLen := 0\<rparr> else ctx1)
        in shaUpdateLoop ctx2 (drop n p))"
  by pat_completeness auto
termination
proof (relation "measures [\<lambda>(ctx, p). length p, \<lambda>(ctx, p). if bufLen ctx = 64 then 1 else 0]", goal_cases)
  case (3 ctx p room n ctx1 ctx2)
  have "0 < unat (64 - bufLen ctx)" if "bufLen ctx \<noteq> 64" using that by (simp add: unat_gt_0)
  moreover have "0 < length p" using 3 by simp
  ultimately show ?case using 3 by (cases "bufLen ctx = 64") auto
qed auto

definition sha256Update :: "Sha256Ctx \<Rightarrow> u8 list \<Rightarrow> Sha256Ctx" where
  "sha256Update ctx data = shaUpdateLoop (ctx\<lparr>totalBytes := totalBytes ctx + of_nat (length data)\<rparr>) data"

text \<open>Zeroing the buffer from the current length up to a limit.\<close>

definition zeroTo :: "nat \<Rightarrow> u8 list \<times> nat \<Rightarrow> u8 list \<times> nat" where
  "zeroTo k = (\<lambda>(b, n). (fold (\<lambda>i b. b[i := 0]) [n..<k] b, max n k))"

definition wipedCtx :: Sha256Ctx where
  "wipedCtx = \<lparr>sh = replicate 8 0, totalBytes = 0, buf = replicate SHA256_BLOCK_SIZE 0, bufLen = 0\<rparr>"

definition sha256Final :: "Sha256Ctx \<Rightarrow> u8 list \<times> Sha256Ctx" where
  "sha256Final ctx =
     (let bitLen = push_bit 3 (totalBytes ctx);
          b0 = (buf ctx)[unat (bufLen ctx) := 0x80];
          n0 = unat (bufLen ctx + 1);
          (h1, b1, n1) = (if n0 > 56 then (let (b, n) = zeroTo SHA256_BLOCK_SIZE (b0, n0) in (sha256Block (sh ctx) b, b, 0)) else (sh ctx, b0, n0));
          (b2, n2) = zeroTo 56 (b1, n1);
          b3 = blit b2 56 (store32Be (ucast (drop_bit 32 bitLen)));
          b4 = blit b3 60 (store32Be (ucast bitLen));
          h2 = sha256Block h1 b4
      in (concat (map store32Be h2), wipedCtx))"

section \<open>The standard, on whole messages\<close>

function compressAll :: "u32 list \<Rightarrow> u8 list \<Rightarrow> u32 list" where
  "compressAll h m = (if length m < SHA256_BLOCK_SIZE then h
     else compressAll (sha256Block h (take SHA256_BLOCK_SIZE m)) (drop SHA256_BLOCK_SIZE m))"
  by pat_completeness auto
termination
  by (relation "measure (\<lambda>(h, m). length m)") auto

definition shaPadding :: "nat \<Rightarrow> u8 list" where
  "shaPadding n = [0x80] @ replicate ((119 - n mod 64) mod 64) 0
     @ store32Be (ucast (drop_bit 32 (of_nat (8 * n) :: u64))) @ store32Be (ucast (of_nat (8 * n) :: u64))"

definition sha256 :: "u8 list \<Rightarrow> u8 list" where
  "sha256 m = concat (map store32Be (compressAll sha256Init0 (m @ shaPadding (length m))))"

declare compressAll.simps [simp del] shaUpdateLoop.simps [simp del]

lemma compressAll_short: "length m < 64 \<Longrightarrow> compressAll h m = h"
  by (subst compressAll.simps) simp

lemma compressAll_step: "length b = 64 \<Longrightarrow> compressAll h (b @ m) = compressAll (sha256Block h b) m"
  by (subst compressAll.simps) simp

text \<open>The bytes after the last whole block.\<close>

definition tailOf :: "u8 list \<Rightarrow> u8 list" where
  "tailOf m = drop (64 * (length m div 64)) m"

lemma length_tailOf: "length (tailOf m) = length m mod 64"
  by (simp add: tailOf_def minus_mult_div_eq_mod)

lemma tailOf_short: "length m < 64 \<Longrightarrow> tailOf m = m"
  by (simp add: tailOf_def)

lemma tailOf_step: "length b = 64 \<Longrightarrow> tailOf (b @ m) = tailOf m"
  by (simp add: tailOf_def div_add_self1)

lemma compressAll_append: "compressAll h (m @ p) = compressAll (compressAll h m) (tailOf m @ p) \<and> tailOf (m @ p) = tailOf (tailOf m @ p)"
proof (induction h m rule: compressAll.induct)
  case (1 h m)
  show ?case
  proof (cases "length m < 64")
    case True
    then show ?thesis by (simp add: compressAll_short tailOf_short)
  next
    case False
    define b m' where "b = take 64 m" and "m' = drop 64 m"
    have m: "m = b @ m'" "length b = 64" using False by (simp_all add: b_def m'_def)
    have ih: "compressAll (sha256Block h b) (m' @ p) = compressAll (compressAll (sha256Block h b) m') (tailOf m' @ p)
        \<and> tailOf (m' @ p) = tailOf (tailOf m' @ p)"
      using 1 [OF False] by (simp add: b_def m'_def)
    show ?thesis using ih m(2) by (simp add: m(1) compressAll_step tailOf_step)
  qed
qed

lemma blit_take:
  assumes "off + length bs \<le> length b"
  shows "blit b off bs = take off b @ bs @ drop (off + length bs) b"
proof -
  have "k \<le> length bs \<Longrightarrow> fold (\<lambda>i b. b[off + i := bs ! i]) [0..<k] b = take off b @ take k bs @ drop (off + k) b" for k
  proof (induction k)
    case (Suc k)
    then have "fold (\<lambda>i b. b[off + i := bs ! i]) [0..<Suc k] b = (take off b @ take k bs @ drop (off + k) b)[off + k := bs ! k]" by simp
    also have "\<dots> = take off b @ take k bs @ (bs ! k # drop (off + Suc k) b)"
      using Suc.prems assms by (simp add: list_update_append Cons_nth_drop_Suc [symmetric])
    also have "\<dots> = take off b @ take (Suc k) bs @ drop (off + Suc k) b"
      using Suc.prems by (simp add: take_Suc_conv_app_nth)
    finally show ?case .
  qed simp
  from this [of "length bs"] show ?thesis by (simp add: blit_def)
qed

section \<open>The context\<close>

text \<open>The context holds the message \<open>m\<close> absorbed so far.\<close>

definition holds :: "Sha256Ctx \<Rightarrow> u8 list \<Rightarrow> bool" where
  "holds ctx m \<longleftrightarrow> sh ctx = compressAll sha256Init0 m \<and> length (buf ctx) = 64
     \<and> unat (bufLen ctx) = length m mod 64 \<and> take (length m mod 64) (buf ctx) = tailOf m"

lemma init_holds: "holds sha256Init []"
  by (simp add: holds_def sha256Init_def compressAll_short tailOf_def)

lemma absorb_block:
  assumes "holds ctx m" "bufLen ctx = 0" "length b = 64"
  shows "holds (ctx\<lparr>sh := sha256Block (sh ctx) b\<rparr>) (m @ b)"
proof -
  have r: "length m mod 64 = 0" using assms by (simp add: holds_def)
  then have t: "tailOf m = []" using length_tailOf [of m] by simp
  have "compressAll sha256Init0 (m @ b) = sha256Block (sh ctx) b" "tailOf (m @ b) = []"
    using compressAll_append [of sha256Init0 m b] compressAll_step [of b _ "[]"] tailOf_step [of b "[]"] assms
    by (simp_all add: t holds_def compressAll_short tailOf_short)
  then show ?thesis using assms r by (simp add: holds_def mod_add_eq [symmetric])
qed

lemma absorb_part:
  assumes h: "holds ctx m" and n: "length c = n" "n \<le> 64 - length m mod 64"
  defines "ctx1 \<equiv> ctx\<lparr>buf := blit (buf ctx) (unat (bufLen ctx)) c, bufLen := bufLen ctx + of_nat n\<rparr>"
  shows "holds (if bufLen ctx1 = 64 then ctx1\<lparr>sh := sha256Block (sh ctx1) (buf ctx1), bufLen := 0\<rparr> else ctx1) (m @ c)"
proof -
  define r where "r = length m mod 64"
  have r: "r < 64" "unat (bufLen ctx) = r" "length (buf ctx) = 64" "take r (buf ctx) = tailOf m" "sh ctx = compressAll sha256Init0 m"
    using h by (auto simp: holds_def r_def)
  have lt: "length (tailOf m) = r" by (simp add: r_def length_tailOf)
  have bl: "unat (bufLen ctx1) = r + n"
    using n r by (simp add: ctx1_def r_def [symmetric]) (subst unat_add_nowrap, simp_all add: unat_of_nat_eq)
  have b: "buf ctx1 = tailOf m @ c @ drop (r + n) (buf ctx)"
    using n r by (simp add: ctx1_def blit_take r_def [symmetric])
  have L: "length (m @ c) mod 64 = (r + n) mod 64" using n(1) by (simp add: r_def mod_simps)
  note A = compressAll_append [of sha256Init0 m c]
  show ?thesis
  proof (cases "r + n = 64")
    case True
    then have t: "length (tailOf m @ c) = 64" using lt n(1) by simp
    have "buf ctx1 = tailOf m @ c" using b True r(3) by simp
    moreover have "compressAll sha256Init0 (m @ c) = sha256Block (sh ctx) (tailOf m @ c)" "tailOf (m @ c) = []"
      using A compressAll_step [OF t, of _ "[]"] tailOf_step [OF t, of "[]"] r(5) by (simp_all add: compressAll_short tailOf_short)
    moreover have "bufLen ctx1 = 64" using bl True by (simp add: word_unat_eq_iff del: unat_inj)
    moreover have "sh ctx1 = sh ctx" by (simp add: ctx1_def)
    ultimately show ?thesis using L True t by (simp add: holds_def)
  next
    case False
    then have lt64: "r + n < 64" using n r by (simp add: r_def)
    then have "bufLen ctx1 \<noteq> 64" using bl False by auto
    moreover have "compressAll sha256Init0 (m @ c) = sh ctx" "tailOf (m @ c) = tailOf m @ c"
      using A lt64 lt n(1) r(5) by (simp_all add: compressAll_short tailOf_short)
    moreover have "sh ctx1 = sh ctx" by (simp add: ctx1_def)
    ultimately show ?thesis using L lt64 bl b r lt n(1) by (simp add: holds_def)
  qed
qed

lemma update_holds: "holds ctx m \<Longrightarrow> holds (shaUpdateLoop ctx p) (m @ p) \<and> totalBytes (shaUpdateLoop ctx p) = totalBytes ctx"
proof (induction ctx p arbitrary: m rule: shaUpdateLoop.induct)
  case (1 ctx p)
  note H = "1.prems"
  show ?case
  proof (cases "p = []")
    case True
    then show ?thesis using H by (simp add: shaUpdateLoop.simps)
  next
    case ne: False
    show ?thesis
    proof (cases "bufLen ctx = 0 \<and> length p \<ge> 64")
      case True
      then have "holds (ctx\<lparr>sh := sha256Block (sh ctx) (take 64 p)\<rparr>) (m @ take 64 p)" using H by (intro absorb_block) auto
      from 1(1) [OF ne True this] show ?thesis using ne True by (subst (1 2) shaUpdateLoop.simps) simp
    next
      case False
      define room where "room = unat (64 - bufLen ctx)"
      define n where "n = (if length p < room then length p else room)"
      define ctx1 where "ctx1 = ctx\<lparr>buf := blit (buf ctx) (unat (bufLen ctx)) (take n p), bufLen := bufLen ctx + of_nat n\<rparr>"
      define ctx2 where "ctx2 = (if bufLen ctx1 = 64 then ctx1\<lparr>sh := sha256Block (sh ctx1) (buf ctx1), bufLen := 0\<rparr> else ctx1)"
      have "unat (bufLen ctx) = length m mod 64" using H by (simp add: holds_def)
      then have "room = 64 - length m mod 64" by (simp add: room_def unat_sub_le)
      then have "length (take n p) = n" "n \<le> 64 - length m mod 64" by (simp_all add: n_def)
      then have "holds ctx2 (m @ take n p)" using absorb_part [OF H, of "take n p" n] unfolding ctx2_def ctx1_def by blast
      from 1(2) [OF ne False room_def n_def ctx1_def ctx2_def this] 
      have ih: "holds (shaUpdateLoop ctx2 (drop n p)) (m @ p) \<and> totalBytes (shaUpdateLoop ctx2 (drop n p)) = totalBytes ctx2" by simp
      have "shaUpdateLoop ctx p = shaUpdateLoop ctx2 (drop n p)"
        using ne False unfolding ctx2_def ctx1_def n_def room_def by (subst shaUpdateLoop.simps) (simp only: Let_def if_False)
      moreover have "totalBytes ctx2 = totalBytes ctx" by (simp add: ctx2_def ctx1_def)
      ultimately show ?thesis using ih by simp
    qed
  qed
qed

lemma fold_zero_bytes:
  "n \<le> k \<Longrightarrow> k \<le> length b \<Longrightarrow> fold (\<lambda>i b. b[i := 0]) [n..<k] b = take n b @ replicate (k - n) (0 :: u8) @ drop k b"
proof (induction k)
  case (Suc k)
  show ?case
  proof (cases "n \<le> k")
    case True
    then have "fold (\<lambda>i b. b[i := 0]) [n..<Suc k] b = (take n b @ replicate (k - n) 0 @ drop k b)[k := 0]" using Suc by simp
    also have "\<dots> = take n b @ replicate (k - n) 0 @ (0 # drop (Suc k) b)"
      using True Suc.prems by (simp add: list_update_append Cons_nth_drop_Suc [symmetric])
    finally show ?thesis using True by (simp add: Suc_diff_le replicate_app_Cons_same)
  next
    case False
    then show ?thesis using Suc.prems by (simp add: le_Suc_eq)
  qed
qed simp

lemma length_store32Be [simp]: "length (store32Be v) = 4"
  by (simp add: store32Be_def)

lemma final_correct:
  assumes h: "holds ctx m" and t: "totalBytes ctx = of_nat (length m)"
  shows "fst (sha256Final ctx) = sha256 m"
proof -
  define r where "r = length m mod 64"
  define N :: u64 where "N = of_nat (8 * length m)"
  define l1 l2 where "l1 = store32Be (ucast (drop_bit 32 N))" and "l2 = store32Be (ucast N)"
  have r: "r < 64" "unat (bufLen ctx) = r" "length (buf ctx) = 64" "take r (buf ctx) = tailOf m" "sh ctx = compressAll sha256Init0 m"
    using h by (auto simp: holds_def r_def)
  have lt: "length (tailOf m) = r" by (simp add: r_def length_tailOf)
  have bl: "push_bit 3 (totalBytes ctx) = N" by (simp add: t push_bit_eq_mult N_def)
  have ll: "length l1 = 4" "length l2 = 4" by (simp_all add: l1_def l2_def)
  have n0: "unat (bufLen ctx + 1) = r + 1" using r by (subst unat_add_nowrap) simp_all
  define b0 where "b0 = (buf ctx)[r := 0x80]"
  have b0: "take (Suc r) b0 = tailOf m @ [0x80]" "length b0 = 64"
    using r by (simp_all add: b0_def take_Suc_conv_app_nth)
  have put: "blit (blit b 56 l1) 60 l2 = take 56 b @ l1 @ l2" if "length b = 64" for b
    using that ll by (simp add: blit_take)
  have spec: "sha256 m = concat (map store32Be (compressAll (sh ctx) (tailOf m @ [0x80] @ replicate ((119 - r) mod 64) 0 @ l1 @ l2)))"
    using compressAll_append [of sha256Init0 m "shaPadding (length m)"] r(5)
    unfolding sha256_def shaPadding_def r_def l1_def l2_def N_def by simp
  show ?thesis
  proof (cases "r + 1 > 56")
    case True
    define b1 where "b1 = tailOf m @ [0x80] @ replicate (63 - r) 0"
    have z1: "fst (zeroTo 64 (b0, r + 1)) = b1" using b0 r by (simp add: zeroTo_def fold_zero_bytes b1_def)
    have l: "length b1 = 64" using lt r by (simp add: b1_def)
    have z2: "fst (zeroTo 56 (b1, 0)) = replicate 56 0 @ drop 56 b1" using l by (simp add: zeroTo_def fold_zero_bytes)
    have "fst (sha256Final ctx) = concat (map store32Be (sha256Block (sha256Block (sh ctx) b1) (replicate 56 0 @ l1 @ l2)))"
      using True z1 z2 put [of "replicate 56 0 @ drop 56 b1"] l
      by (simp add: sha256Final_def Let_def split_def bl n0 r(2) b0_def [symmetric] l1_def [symmetric] l2_def [symmetric])
    moreover have "replicate ((119 - r) mod 64) (0 :: u8) = replicate (63 - r) 0 @ replicate 56 0"
      using True r by (simp add: replicate_add [symmetric])
    then have "compressAll (sh ctx) (tailOf m @ [0x80] @ replicate ((119 - r) mod 64) 0 @ l1 @ l2)
        = sha256Block (sha256Block (sh ctx) b1) (replicate 56 0 @ l1 @ l2)"
      using compressAll_step [OF l, of "sh ctx" "replicate 56 0 @ l1 @ l2"] compressAll_step [of "replicate 56 0 @ l1 @ l2" _ "[]"] ll
      by (simp add: b1_def compressAll_short)
    ultimately show ?thesis using spec by simp
  next
    case False
    define X where "X = tailOf m @ [0x80] @ replicate (55 - r) 0"
    define b1 where "b1 = X @ l1 @ l2"
    have lX: "length X = 56" using lt False by (simp add: X_def)
    then have l: "length b1 = 64" using ll by (simp add: b1_def)
    have z2: "fst (zeroTo 56 (b0, r + 1)) = X @ drop 56 b0"
      using b0 False by (simp add: zeroTo_def fold_zero_bytes X_def)
    have "blit (blit (X @ drop 56 b0) 56 l1) 60 l2 = b1" using put [of "X @ drop 56 b0"] lX b0(2) by (simp add: b1_def)
    then have "fst (sha256Final ctx) = concat (map store32Be (sha256Block (sh ctx) b1))"
      using False z2 by (simp add: sha256Final_def Let_def split_def bl n0 r(2) b0_def [symmetric] l1_def [symmetric] l2_def [symmetric])
    moreover have "(119 - r) mod 64 = 55 - r" using False by (simp add: mod_if)
    then have "compressAll (sh ctx) (tailOf m @ [0x80] @ replicate ((119 - r) mod 64) 0 @ l1 @ l2) = sha256Block (sh ctx) b1"
      using compressAll_step [OF l, of "sh ctx" "[]"] by (simp add: b1_def X_def compressAll_short)
    ultimately show ?thesis using spec by simp
  qed
qed

definition shaAbsorb :: "u8 list list \<Rightarrow> Sha256Ctx" where
  "shaAbsorb cs = fold (\<lambda>c ctx. sha256Update ctx c) cs sha256Init"

lemma absorb_holds: "holds (shaAbsorb cs) (concat cs) \<and> totalBytes (shaAbsorb cs) = of_nat (length (concat cs))"
proof (induction cs rule: rev_induct)
  case (snoc c cs)
  define ctx where "ctx = shaAbsorb cs\<lparr>totalBytes := totalBytes (shaAbsorb cs) + of_nat (length c)\<rparr>"
  have "holds ctx (concat cs)" using snoc by (simp add: ctx_def holds_def)
  from update_holds [OF this, of c] show ?case using snoc by (simp add: shaAbsorb_def sha256Update_def ctx_def)
qed (simp add: shaAbsorb_def init_holds, simp add: sha256Init_def)

lemma sha256_absorb: "fst (sha256Final (shaAbsorb cs)) = sha256 (concat cs)"
  using absorb_holds [of cs] final_correct by blast

lemma length_sha256Block: "length (sha256Block h b) = 8"
  by (simp add: sha256Block_def Let_def)

lemma length_compressAll: "length h = 8 \<Longrightarrow> length (compressAll h m) = 8"
  by (induction h m rule: compressAll.induct) (subst compressAll.simps, simp add: length_sha256Block)

lemma length_sha256: "length (sha256 m) = 32"
proof -
  have "length (concat (map store32Be ws)) = 4 * length ws" for ws by (induction ws) auto
  then show ?thesis using length_compressAll [of sha256Init0] by (simp add: sha256_def sha256Init0_def)
qed

section \<open>Properties\<close>

text \<open>
  C35: Hashing in pieces is hashing the whole. However a message is cut into calls of
  \<open>sha256Update\<close>, \<open>sha256Final\<close> yields the 32-byte digest of the standard: the message padded with a
  one bit, zeros and its bit length to whole blocks, compressed block by block; and the context is
  left wiped.
\<close>

theorem sha256_streaming:
  "fst (sha256Final (fold (\<lambda>c ctx. sha256Update ctx c) cs sha256Init)) = sha256 (concat cs)
   \<and> length (sha256 (concat cs)) = 32 \<and> snd (sha256Final (fold (\<lambda>c ctx. sha256Update ctx c) cs sha256Init)) = wipedCtx"
  using sha256_absorb [of cs] length_sha256 by (simp add: shaAbsorb_def sha256Final_def Let_def split_def)

text \<open>The standard's first example, the digest of the three bytes of \<open>abc\<close>.\<close>

lemma sha256_abc:
  "sha256 [0x61, 0x62, 0x63] = [0xba, 0x78, 0x16, 0xbf, 0x8f, 0x01, 0xcf, 0xea, 0x41, 0x41, 0x40, 0xde, 0x5d, 0xae, 0x22, 0x23,
     0xb0, 0x03, 0x61, 0xa3, 0x96, 0x17, 0x7a, 0x9c, 0xb4, 0x10, 0xff, 0x61, 0xf2, 0x00, 0x15, 0xad]"
  by code_simp

end
