(* ===== verification/Chacha20.thy ===== *)
theory Chacha20
  imports Prelude
begin

text \<open>
  ChaCha20, \<open>libs/crypto/chacha20.c\<close>: the block function and the stream operation. The working state is a
  list of 16 words; keys, nonces and blocks are byte lists. Wiping local buffers on return does not show.
\<close>

abbreviation CHACHA20_KEY_SIZE :: nat where "CHACHA20_KEY_SIZE \<equiv> 32"
abbreviation CHACHA20_BLOCK_SIZE :: nat where "CHACHA20_BLOCK_SIZE \<equiv> 64"

definition load32Le :: "u8 list \<Rightarrow> u32" where
  "load32Le p = ucast (p ! 0) OR push_bit 8 (ucast (p ! 1)) OR push_bit 16 (ucast (p ! 2)) OR push_bit 24 (ucast (p ! 3))"

definition store32Le :: "u32 \<Rightarrow> u8 list" where
  "store32Le v = [ucast v, ucast (drop_bit 8 v), ucast (drop_bit 16 v), ucast (drop_bit 24 v)]"

definition ROTL32 :: "u32 \<Rightarrow> nat \<Rightarrow> u32" where
  "ROTL32 x n = push_bit n x OR drop_bit (32 - n) x"

definition QUARTER_ROUND :: "nat \<Rightarrow> nat \<Rightarrow> nat \<Rightarrow> nat \<Rightarrow> u32 list \<Rightarrow> u32 list" where
  "QUARTER_ROUND a b c d x =
     (let x = x[a := x ! a + x ! b]; x = x[d := x ! d XOR x ! a]; x = x[d := ROTL32 (x ! d) 16];
          x = x[c := x ! c + x ! d]; x = x[b := x ! b XOR x ! c]; x = x[b := ROTL32 (x ! b) 12];
          x = x[a := x ! a + x ! b]; x = x[d := x ! d XOR x ! a]; x = x[d := ROTL32 (x ! d) 8];
          x = x[c := x ! c + x ! d]; x = x[b := x ! b XOR x ! c]
      in x[b := ROTL32 (x ! b) 7])"

definition chachaState :: "u8 list \<Rightarrow> u32 \<Rightarrow> u8 list \<Rightarrow> u32 list" where
  "chachaState key counter nonce =
     [0x61707865, 0x3320646E, 0x79622D32, 0x6B206574]
     @ map (\<lambda>i. load32Le (drop (4 * i) key)) [0..<8] @ [counter] @ map (\<lambda>i. load32Le (drop (4 * i) nonce)) [0..<3]"

definition doubleRound :: "u32 list \<Rightarrow> u32 list" where
  "doubleRound x =
     (let x = QUARTER_ROUND 0 4 8 12 x; x = QUARTER_ROUND 1 5 9 13 x; x = QUARTER_ROUND 2 6 10 14 x; x = QUARTER_ROUND 3 7 11 15 x;
          x = QUARTER_ROUND 0 5 10 15 x; x = QUARTER_ROUND 1 6 11 12 x; x = QUARTER_ROUND 2 7 8 13 x
      in QUARTER_ROUND 3 4 9 14 x)"

definition chacha20Block :: "u8 list \<Rightarrow> u32 \<Rightarrow> u8 list \<Rightarrow> u8 list" where
  "chacha20Block key counter nonce =
     (let state = chachaState key counter nonce;
          x = (doubleRound ^^ 10) state
      in concat (map (\<lambda>i. store32Le (x ! i + state ! i)) [0..<16]))"

text \<open>The stream loop, on the input that is left and the counter of the next block.\<close>

function xorLoop :: "u8 list \<Rightarrow> u32 \<Rightarrow> u8 list \<Rightarrow> u8 list \<Rightarrow> u8 list" where
  "xorLoop key counter nonce inp =
     (if inp = [] then []
      else let keystream = chacha20Block key counter nonce;
               n = (if length inp > CHACHA20_BLOCK_SIZE then CHACHA20_BLOCK_SIZE else length inp)
        in map (\<lambda>i. inp ! i XOR keystream ! i) [0..<n] @ xorLoop key (counter + 1) nonce (drop n inp))"
  by pat_completeness auto
termination
  by (relation "measure (\<lambda>(key, counter, nonce, inp). length inp)") (auto simp: length_greater_0_conv)

definition chacha20Xor :: "u8 list \<Rightarrow> u32 \<Rightarrow> u8 list \<Rightarrow> u8 list \<Rightarrow> Status + u8 list" where
  "chacha20Xor key counter nonce inp =
     (if inp = [] then Inr []
      else let len = of_nat (length inp) :: u64;
               blocks = drop_bit 6 len + (if len AND 63 \<noteq> 0 then 1 else 0)
        in if blocks > 0x100000000 - ucast counter then Inl STATUS_ERR_INVALID
           else Inr (xorLoop key counter nonce inp))"

declare xorLoop.simps [simp del]

section \<open>The keystream\<close>

definition keystreamAt :: "u8 list \<Rightarrow> u32 \<Rightarrow> u8 list \<Rightarrow> nat \<Rightarrow> u8" where
  "keystreamAt key counter nonce i = chacha20Block key (counter + of_nat (i div 64)) nonce ! (i mod 64)"

lemma length_chacha20Block: "length (chacha20Block key counter nonce) = 64"
proof -
  have "length (concat (map (\<lambda>i. store32Le (f i)) js)) = 4 * length js" for f and js :: "nat list"
    by (induction js) (auto simp: store32Le_def)
  then show ?thesis by (simp add: chacha20Block_def Let_def del: upt_rec_numeral)
qed

lemma xorLoop_keystream:
  "xorLoop key counter nonce inp = map (\<lambda>i. inp ! i XOR keystreamAt key counter nonce i) [0..<length inp]"
proof (induction key counter nonce inp rule: xorLoop.induct)
  case (1 key counter nonce inp)
  show ?case
  proof (cases "inp = []")
    case True
    then show ?thesis by (simp add: xorLoop.simps)
  next
    case False
    define n where "n = (if length inp > 64 then 64 else length inp)"
    have n: "n \<le> length inp" "n \<le> 64" "n < 64 \<Longrightarrow> n = length inp" by (auto simp: n_def)
    have ih: "xorLoop key (counter + 1) nonce (drop n inp)
        = map (\<lambda>i. drop n inp ! i XOR keystreamAt key (counter + 1) nonce i) [0..<length inp - n]"
      using 1 [OF False refl n_def] by simp
    have x: "xorLoop key counter nonce inp = map (\<lambda>i. inp ! i XOR chacha20Block key counter nonce ! i) [0..<n]
        @ xorLoop key (counter + 1) nonce (drop n inp)"
      using False by (subst xorLoop.simps) (simp only: Let_def if_False n_def)
    have s: "keystreamAt key (counter + 1) nonce i = keystreamAt key counter nonce (64 + i)" for i
      by (simp add: keystreamAt_def div_add_self1 add.assoc)
    show ?thesis
    proof (rule nth_equalityI)
      show "length (xorLoop key counter nonce inp) = length (map (\<lambda>i. inp ! i XOR keystreamAt key counter nonce i) [0..<length inp])"
        using n by (simp add: x ih)
      fix i assume "i < length (xorLoop key counter nonce inp)"
      then have i: "i < length inp" using n by (simp add: x ih)
      show "xorLoop key counter nonce inp ! i = map (\<lambda>i. inp ! i XOR keystreamAt key counter nonce i) [0..<length inp] ! i"
      proof (cases "i < n")
        case True
        then show ?thesis using i n by (simp add: x nth_append keystreamAt_def)
      next
        case False
        then have n64: "n = 64" using n i by (cases "n < 64") auto
        have "i - 64 < length inp - 64" using False i n64 by linarith
        then show ?thesis using False i by (simp add: x ih [unfolded n64] n64 nth_append s)
      qed
    qed
  qed
qed

lemma ceil64: "((n::nat) + 63) div 64 = n div 64 + (if n mod 64 \<noteq> 0 then 1 else 0)"
proof (cases "n mod 64")
  case 0
  have "(n + 63) div 64 = (63 + 64 * (n div 64)) div 64" using 0 div_mult_mod_eq [of n 64] by (simp add: mult.commute)
  also have "\<dots> = n div 64" by (subst div_mult_self2) simp_all
  finally show ?thesis using 0 by simp
next
  case (Suc k)
  have k: "k < 63" using mod_less_divisor [of 64 n] Suc by linarith
  have "n + 63 = k + 64 * (n div 64 + 1)" using Suc div_mult_mod_eq [of n 64] by (simp add: mult.commute)
  then have "(n + 63) div 64 = (k + 64 * (n div 64 + 1)) div 64" by presburger
  also have "\<dots> = n div 64 + 1" using k by (subst div_mult_self2) simp_all
  finally show ?thesis using Suc by simp
qed

lemma blocks_needed:
  assumes "n < 2 ^ 64"
  shows "unat (drop_bit 6 (of_nat n :: u64) + (if of_nat n AND (63 :: u64) \<noteq> 0 then 1 else 0)) = (n + 63) div 64"
proof -
  have u: "unat (of_nat n :: u64) = n" using assms by (simp add: unat_of_nat_eq)
  have d: "unat (drop_bit 6 (of_nat n :: u64)) = n div 64" by (simp add: drop_bit_eq_div unat_div u)
  have m: "(63 :: u64) = mask 6" by (simp add: mask_eq_exp_minus_1)
  have "(of_nat n :: u64) AND 63 = 0 \<longleftrightarrow> n mod 64 = 0"
  proof -
    have "unat ((of_nat n :: u64) AND 63) = n mod 64"
      unfolding m take_bit_eq_mask [symmetric] by (simp add: take_bit_eq_mod unat_mod u)
    then show ?thesis by (metis unat_eq_0)
  qed
  then show ?thesis using d assms by (auto simp: unat_add_nowrap ceil64)
qed

lemma counter_room: "unat (0x100000000 - ucast (c :: u32) :: u64) = 2 ^ 32 - unat c"
  using unat_lt_32 [of c] by (subst unat_sub_le) (simp_all add: unat_ucast_32_64)

text \<open>The quarter-round example of RFC 8439, section 2.1.1.\<close>

lemma quarter_round_rfc:
  "QUARTER_ROUND 0 1 2 3 [0x11111111, 0x01020304, 0x9b8d6f43, 0x01234567] = [0xea2a92f4, 0xcb1cf8ce, 0x4581472e, 0x5881c4bb]"
  by (simp add: QUARTER_ROUND_def ROTL32_def Let_def cong: let_weak_cong)

section \<open>Properties\<close>

text \<open>
  C36: The stream operation is exact. It is refused exactly when the message would need a block number
  above 2^32 - 1; otherwise each output byte is the input byte combined with the matching keystream
  byte, no block number repeats within the message, and applying the operation to its output restores
  the input.
\<close>

theorem chacha20Xor_correct:
  assumes "length inp < 2 ^ 64"
  shows "chacha20Xor key c nonce inp
      = (if inp \<noteq> [] \<and> (length inp + 63) div 64 > 2 ^ 32 - unat c then Inl STATUS_ERR_INVALID
         else Inr (map (\<lambda>i. inp ! i XOR keystreamAt key c nonce i) [0..<length inp]))
    \<and> (\<forall>out. chacha20Xor key c nonce inp = Inr out \<longrightarrow> length out = length inp \<and> chacha20Xor key c nonce out = Inr inp
         \<and> (\<forall>i < length inp. unat (c + of_nat (i div 64)) = unat c + i div 64))"
proof -
  have eq: "chacha20Xor key c nonce m
      = (if m \<noteq> [] \<and> (length m + 63) div 64 > 2 ^ 32 - unat c then Inl STATUS_ERR_INVALID
         else Inr (map (\<lambda>i. m ! i XOR keystreamAt key c nonce i) [0..<length m]))" if "length m < 2 ^ 64" for m
    using blocks_needed [OF that] counter_room [of c]
    by (simp add: chacha20Xor_def Let_def word_less_nat_alt xorLoop_keystream)
  have "length out = length inp \<and> chacha20Xor key c nonce out = Inr inp \<and> (\<forall>i < length inp. unat (c + of_nat (i div 64)) = unat c + i div 64)"
    if "chacha20Xor key c nonce inp = Inr out" for out
  proof -
    have ok: "\<not> (inp \<noteq> [] \<and> (length inp + 63) div 64 > 2 ^ 32 - unat c)"
      and out: "out = map (\<lambda>i. inp ! i XOR keystreamAt key c nonce i) [0..<length inp]"
      using that eq [OF assms] by (auto split: if_splits)
    have len: "length out = length inp" by (simp add: out)
    have undo: "map (\<lambda>i. out ! i XOR keystreamAt key c nonce i) [0..<length out] = inp"
      by (rule nth_equalityI) (simp_all add: len, simp add: out xor.assoc)
    have "out = [] \<longleftrightarrow> inp = []" using len by (metis length_0_conv)
    then have "chacha20Xor key c nonce out = Inr inp" using eq [of out] undo len ok assms by (simp only: if_False)
    moreover have "unat (c + of_nat (i div 64)) = unat c + i div 64" if i: "i < length inp" for i
    proof -
      have "i div 64 < (length inp + 63) div 64" using i by linarith
      moreover have "(length inp + 63) div 64 \<le> 2 ^ 32 - unat c" using ok i by auto
      ultimately have lt: "unat c + i div 64 < 2 ^ 32" by linarith
      then have "unat (of_nat (i div 64) :: u32) = i div 64" by (simp add: unat_of_nat_eq)
      then show ?thesis using lt by (subst unat_add_nowrap) simp_all
    qed
    ultimately show ?thesis using len by blast
  qed
  then show ?thesis using eq [OF assms] by blast
qed

theorem chacha20Xor_correct_witness:
  "\<exists>out. chacha20Xor (replicate 32 7) 0xFFFFFFFF (replicate 12 0) [1, 2, 3] = Inr out
     \<and> chacha20Xor (replicate 32 7) 0xFFFFFFFF (replicate 12 0) out = Inr [1, 2, 3]"
  using chacha20Xor_correct [of "[1, 2, 3]" "replicate 32 7" "0xFFFFFFFF" "replicate 12 0"] by simp

end
