(* ===== verification/Random_Core.thy ===== *)
theory Random_Core
  imports Sha256 Chacha20
begin

text \<open>
  The random-number generator's core, \<open>kernel/core/random-core.c\<close>: an entropy pool that is a running
  SHA-256, a ChaCha20 generator with fast key erasure, and the reseed step that joins them. Wiping the
  temporaries does not show in the state; the pool context is wiped by \<open>sha256Final\<close> and restarted.
\<close>

abbreviation RANDOM_STEP_MAX :: nat where "RANDOM_STEP_MAX \<equiv> 512"
abbreviation RANDOM_SEED_SIZE :: nat where "RANDOM_SEED_SIZE \<equiv> 64"

definition RANDOM_POOL_DOMAIN :: "u8 list" where
  "RANDOM_POOL_DOMAIN = map of_char ''rng-pool-v1''"

definition RANDOM_RESEED_DOMAIN :: "u8 list" where
  "RANDOM_RESEED_DOMAIN = map of_char ''rng-reseed-v1''"

record RandomState =
  pool :: Sha256Ctx
  generation :: u64
  pending :: u32
  rkey :: "u8 list"

definition poolRestart :: "RandomState \<Rightarrow> RandomState" where
  "poolRestart s = s\<lparr>pool := sha256Update sha256Init RANDOM_POOL_DOMAIN\<rparr>"

definition randomCoreInit :: "RandomState \<Rightarrow> RandomState" where
  "randomCoreInit s = poolRestart (s\<lparr>rkey := replicate CHACHA20_KEY_SIZE 0, generation := 0, pending := 0\<rparr>)"

definition randomCoreAddEntropy :: "RandomState \<Rightarrow> u8 list \<Rightarrow> RandomState" where
  "randomCoreAddEntropy s data =
     (if data = [] then s
      else let total' = ucast (pending s) + of_nat (length data) :: u64
        in s\<lparr>pool := sha256Update (pool s) data, pending := (if total' > 0xFFFFFFFF then 0xFFFFFFFF else ucast total')\<rparr>)"

text \<open>The eight little-endian bytes of a word, as the byte loops write them.\<close>

definition le64Bytes :: "u64 \<Rightarrow> u8 list" where
  "le64Bytes v = map (\<lambda>i. ucast (drop_bit (8 * i) v)) [0..<8]"

definition randomCoreAddWord :: "RandomState \<Rightarrow> u64 \<Rightarrow> RandomState" where
  "randomCoreAddWord s v = randomCoreAddEntropy s (le64Bytes v)"

definition randomCoreReseed :: "RandomState \<Rightarrow> RandomState" where
  "randomCoreReseed s =
     (let (digest, pool') = sha256Final (pool s);
          h0 = sha256Init;
          h1 = sha256Update h0 RANDOM_RESEED_DOMAIN;
          h2 = sha256Update h1 (rkey s);
          h3 = sha256Update h2 (le64Bytes (generation s));
          h4 = sha256Update h3 digest;
          (newKey, h5) = sha256Final h4
      in poolRestart (s\<lparr>pool := pool', rkey := newKey, generation := generation s + 1, pending := 0\<rparr>))"

definition randomCoreSeed :: "RandomState \<Rightarrow> u8 list \<Rightarrow> u64 list \<Rightarrow> RandomState" where
  "randomCoreSeed s seed ws =
     (let s1 = randomCoreInit s;
          s2 = randomCoreAddEntropy s1 seed;
          s3 = fold (\<lambda>v s. randomCoreAddWord s v) ws s2
      in randomCoreReseed s3)"

definition generateStep :: "RandomState \<Rightarrow> nat \<Rightarrow> u8 list \<times> RandomState" where
  "generateStep s m =
     (let zeroNonce = replicate 12 0;
          blocks = (CHACHA20_KEY_SIZE + m + CHACHA20_BLOCK_SIZE - 1) div CHACHA20_BLOCK_SIZE;
          ks = chacha20Block (rkey s) 0 zeroNonce @ concat (map (\<lambda>b. chacha20Block (rkey s) (of_nat b) zeroNonce) [1..<blocks])
      in (take m (drop CHACHA20_KEY_SIZE ks), s\<lparr>rkey := take CHACHA20_KEY_SIZE ks\<rparr>))"

function randomCoreGenerate :: "RandomState \<Rightarrow> nat \<Rightarrow> u8 list \<times> RandomState" where
  "randomCoreGenerate s n =
     (if n = 0 then ([], s)
      else let m = (if n > RANDOM_STEP_MAX then RANDOM_STEP_MAX else n);
               (out, s1) = generateStep s m;
               (rest, s2) = randomCoreGenerate s1 (n - m)
        in (out @ rest, s2))"
  by pat_completeness auto
termination
  by (relation "measure snd") auto

declare randomCoreGenerate.simps [simp del]

section \<open>Seeding\<close>

lemma shaAbsorb_snoc: "sha256Update (shaAbsorb cs) c = shaAbsorb (cs @ [c])"
  by (simp add: shaAbsorb_def)

lemma shaAbsorb_start: "sha256Update sha256Init c = shaAbsorb [c]"
  by (simp add: shaAbsorb_def)

lemma addEntropy_fields:
  "data \<noteq> [] \<Longrightarrow> pool (randomCoreAddEntropy s data) = sha256Update (pool s) data"
  "rkey (randomCoreAddEntropy s data) = rkey s" "generation (randomCoreAddEntropy s data) = generation s"
  by (simp_all add: randomCoreAddEntropy_def Let_def)

lemma le64Bytes_ne: "le64Bytes v \<noteq> []"
  by (simp add: le64Bytes_def)

lemma addWords_fields:
  "pool s = shaAbsorb cs \<Longrightarrow> pool (fold (\<lambda>v s. randomCoreAddWord s v) ws s) = shaAbsorb (cs @ map le64Bytes ws)
     \<and> rkey (fold (\<lambda>v s. randomCoreAddWord s v) ws s) = rkey s \<and> generation (fold (\<lambda>v s. randomCoreAddWord s v) ws s) = generation s"
proof (induction ws arbitrary: s cs)
  case (Cons v ws)
  have "pool (randomCoreAddWord s v) = shaAbsorb (cs @ [le64Bytes v])"
    using Cons.prems by (simp add: randomCoreAddWord_def addEntropy_fields le64Bytes_ne shaAbsorb_snoc)
  then show ?case using Cons.IH [of "randomCoreAddWord s v" "cs @ [le64Bytes v]"]
    by (simp add: randomCoreAddWord_def addEntropy_fields)
qed simp

lemma reseed_correct:
  assumes "pool s = shaAbsorb cs"
  shows "rkey (randomCoreReseed s) = sha256 (RANDOM_RESEED_DOMAIN @ rkey s @ le64Bytes (generation s) @ sha256 (concat cs))"
    "generation (randomCoreReseed s) = generation s + 1" "pending (randomCoreReseed s) = 0"
    "pool (randomCoreReseed s) = shaAbsorb [RANDOM_POOL_DOMAIN]"
proof -
  have d: "fst (sha256Final (pool s)) = sha256 (concat cs)" by (simp add: assms sha256_absorb)
  show "rkey (randomCoreReseed s) = sha256 (RANDOM_RESEED_DOMAIN @ rkey s @ le64Bytes (generation s) @ sha256 (concat cs))"
    unfolding randomCoreReseed_def Let_def split_def d shaAbsorb_start shaAbsorb_snoc sha256_absorb by (simp add: poolRestart_def)
  show "generation (randomCoreReseed s) = generation s + 1" "pending (randomCoreReseed s) = 0"
    "pool (randomCoreReseed s) = shaAbsorb [RANDOM_POOL_DOMAIN]"
    by (simp_all add: randomCoreReseed_def Let_def split_def poolRestart_def shaAbsorb_start)
qed

lemma seed_correct:
  assumes "length seed = RANDOM_SEED_SIZE"
  shows "rkey (randomCoreSeed s seed ws)
      = sha256 (RANDOM_RESEED_DOMAIN @ replicate 32 0 @ replicate 8 0 @ sha256 (RANDOM_POOL_DOMAIN @ seed @ concat (map le64Bytes ws)))"
    "generation (randomCoreSeed s seed ws) = 1" "pending (randomCoreSeed s seed ws) = 0"
proof -
  define s2 where "s2 = randomCoreAddEntropy (randomCoreInit s) seed"
  have "seed \<noteq> []" using assms by auto
  then have s2: "pool s2 = shaAbsorb [RANDOM_POOL_DOMAIN, seed]" "rkey s2 = replicate 32 0" "generation s2 = 0"
    using shaAbsorb_snoc [of "[RANDOM_POOL_DOMAIN]" seed]
    by (simp_all add: s2_def addEntropy_fields randomCoreInit_def poolRestart_def shaAbsorb_start)
  note W = addWords_fields [OF s2(1), of ws]
  have e: "randomCoreSeed s seed ws = randomCoreReseed (fold (\<lambda>v s. randomCoreAddWord s v) ws s2)"
    by (simp add: randomCoreSeed_def s2_def)
  have z: "le64Bytes 0 = replicate 8 0" by (simp add: le64Bytes_def map_replicate_const)
  show "rkey (randomCoreSeed s seed ws)
      = sha256 (RANDOM_RESEED_DOMAIN @ replicate 32 0 @ replicate 8 0 @ sha256 (RANDOM_POOL_DOMAIN @ seed @ concat (map le64Bytes ws)))"
    "generation (randomCoreSeed s seed ws) = 1" "pending (randomCoreSeed s seed ws) = 0"
    using reseed_correct [of "fold (\<lambda>v s. randomCoreAddWord s v) ws s2"] W s2 z by (simp_all add: e)
qed

section \<open>Generation\<close>

text \<open>The keystream a step computes: blocks from number 0 under the current key.\<close>

definition stepStream :: "u8 list \<Rightarrow> nat \<Rightarrow> u8 list" where
  "stepStream key n = map (\<lambda>i. keystreamAt key 0 (replicate 12 0) i) [0..<n]"

lemma stream_blocks:
  "concat (map (\<lambda>b. chacha20Block key (of_nat b) nonce) [0..<k]) = map (\<lambda>i. keystreamAt key 0 nonce i) [0..<64 * k]"
proof (induction k)
  case (Suc k)
  have "map (\<lambda>i. keystreamAt key 0 nonce i) [64 * k..<64 * k + 64] = chacha20Block key (of_nat k) nonce"
    by (rule nth_equalityI) (simp_all add: length_chacha20Block keystreamAt_def)
  moreover have "[0..<64 * Suc k] = [0..<64 * k] @ [64 * k..<64 * k + 64]"
    by (metis add.commute le_add1 mult_Suc_right upt_add_eq_append zero_le)
  ultimately show ?case using Suc by simp
qed simp

lemma generateStep_stream:
  "generateStep s m = (drop 32 (stepStream (rkey s) (32 + m)), s\<lparr>rkey := stepStream (rkey s) 32\<rparr>)"
proof -
  define blocks where "blocks = (32 + m + 64 - 1) div 64"
  have b: "32 + m \<le> 64 * blocks" "0 < blocks" unfolding blocks_def by linarith+
  have "chacha20Block (rkey s) 0 (replicate 12 0) @ concat (map (\<lambda>b. chacha20Block (rkey s) (of_nat b) (replicate 12 0)) [1..<blocks])
      = concat (map (\<lambda>b. chacha20Block (rkey s) (of_nat b) (replicate 12 0)) [0..<blocks])"
    using b(2) by (simp add: upt_conv_Cons)
  then have ks: "chacha20Block (rkey s) 0 (replicate 12 0) @ concat (map (\<lambda>b. chacha20Block (rkey s) (of_nat b) (replicate 12 0)) [1..<blocks])
      = map (\<lambda>i. keystreamAt (rkey s) 0 (replicate 12 0) i) [0..<64 * blocks]"
    by (simp add: stream_blocks)
  have "take n (map f [0..<64 * blocks]) = map f [0..<n]" if "n \<le> 64 * blocks" for n and f :: "nat \<Rightarrow> u8"
    using that by (simp add: take_map)
  then have t: "take 32 (map f [0..<64 * blocks]) = map f [0..<32]" "take (32 + m) (map f [0..<64 * blocks]) = map f [0..<32 + m]" for f :: "nat \<Rightarrow> u8"
    using b(1) by simp_all
  show ?thesis
    unfolding generateStep_def Let_def blocks_def [symmetric] ks stepStream_def t(1)
    using t(2) by (simp add: take_drop add.commute)
qed

lemma generate_0: "randomCoreGenerate s 0 = ([], s)"
  by (simp add: randomCoreGenerate.simps)

lemma generate_length: "length (fst (randomCoreGenerate s n)) = n"
proof (induction s n rule: randomCoreGenerate.induct)
  case (1 s n)
  show ?case
  proof (cases "n = 0")
    case True then show ?thesis by (simp add: randomCoreGenerate.simps)
  next
    case False
    then show ?thesis
      using 1 [OF False refl refl prod.collapse]
      by (subst randomCoreGenerate.simps) (simp add: Let_def split_def generateStep_stream stepStream_def)
  qed
qed

lemma generate_split:
  "512 dvd a \<Longrightarrow> randomCoreGenerate s (a + b) = (let (x, s1) = randomCoreGenerate s a; (y, s2) = randomCoreGenerate s1 b in (x @ y, s2))"
proof (induction "a div 512" arbitrary: a s)
  case 0
  then have "a = 0" by (auto elim!: dvdE)
  then show ?case by (simp add: randomCoreGenerate.simps [of s 0] split_def)
next
  case (Suc k)
  define a' where "a' = a - 512"
  have a: "a = 512 + a'" "512 dvd a'" "k = a' div 512" using Suc(2,3) by (auto simp: a'_def elim!: dvdE)
  have st: "randomCoreGenerate s (512 + n)
      = (fst (generateStep s 512) @ fst (randomCoreGenerate (snd (generateStep s 512)) n), snd (randomCoreGenerate (snd (generateStep s 512)) n))" for n
    by (subst randomCoreGenerate.simps) (cases "n = 0"; simp add: Let_def split_def)
  show ?case
    using Suc(1) [OF a(3,2), of "snd (generateStep s 512)"] st [of a'] st [of "a' + b"] by (simp add: a(1) add.assoc split_def Let_def)
qed

section \<open>Properties\<close>

text \<open>
  C37: The generator does what its contract says. Seeding hashes the pool label, the boot seed and the
  extra words, and derives the key from the reseed label, the zero key, the zero generation and that
  digest. A request of up to 512 bytes returns the keystream bytes after the first 32 and replaces the
  key by those first 32, so no key bit is ever output; every request returns exactly the number of
  bytes asked for; and splitting a request at a multiple of 512 changes neither the output nor the
  final state.
\<close>

theorem random_core_correct:
  assumes "length seed = RANDOM_SEED_SIZE"
  shows "rkey (randomCoreSeed s seed ws)
      = sha256 (RANDOM_RESEED_DOMAIN @ replicate 32 0 @ replicate 8 0 @ sha256 (RANDOM_POOL_DOMAIN @ seed @ concat (map le64Bytes ws)))
    \<and> generation (randomCoreSeed s seed ws) = 1 \<and> pending (randomCoreSeed s seed ws) = 0
    \<and> (\<forall>t n. length (fst (randomCoreGenerate t n)) = n)
    \<and> (\<forall>t n. 0 < n \<and> n \<le> RANDOM_STEP_MAX \<longrightarrow>
         randomCoreGenerate t n = (drop 32 (stepStream (rkey t) (32 + n)), t\<lparr>rkey := stepStream (rkey t) 32\<rparr>))
    \<and> (\<forall>t a b. 512 dvd a \<longrightarrow> randomCoreGenerate t (a + b)
         = (let (x, t1) = randomCoreGenerate t a; (y, t2) = randomCoreGenerate t1 b in (x @ y, t2)))"
proof -
  have "randomCoreGenerate t n = (drop 32 (stepStream (rkey t) (32 + n)), t\<lparr>rkey := stepStream (rkey t) 32\<rparr>)"
    if "0 < n" "n \<le> 512" for t n
  proof -
    have "randomCoreGenerate t n = generateStep t n"
      using that by (subst randomCoreGenerate.simps) (simp add: generate_0 split_def)
    then show ?thesis by (simp add: generateStep_stream)
  qed
  then show ?thesis using seed_correct [OF assms] by (intro conjI allI impI) (simp_all only: generate_length generate_split)
qed

theorem random_core_correct_witness:
  "generation (randomCoreSeed \<lparr>pool = sha256Init, generation = 9, pending = 4, rkey = []\<rparr> (replicate 64 5) [7]) = 1
   \<and> length (fst (randomCoreGenerate \<lparr>pool = sha256Init, generation = 9, pending = 4, rkey = []\<rparr> 1000)) = 1000"
  using random_core_correct [of "replicate 64 5" "\<lparr>pool = sha256Init, generation = 9, pending = 4, rkey = []\<rparr>" "[7]"] by simp

end
