(* ===== verification/Kva.thy ===== *)
theory Kva
  imports Extents Allocator
begin

text \<open>
  The kernel virtual area allocator, \<open>kernel/mm/kva.c\<close> with \<open>kernel/mm/kva-internal.h\<close>:
  a table of free extents, kept sorted and coalesced, with first-fit allocation and guard
  pages. The table is the full C array of \<open>KVA_MAX_EXTENTS\<close> cells together with the number
  of cells in use; the element shifts of the source are the array loops of the prelude.
\<close>

section \<open>State and operations\<close>

definition KVA_MAX_EXTENTS :: nat where "KVA_MAX_EXTENTS = 512"
definition KVA_PAGE_SIZE :: u64 where "KVA_PAGE_SIZE = 4096"
definition KVA_GUARD_SIZE :: u64 where "KVA_GUARD_SIZE = 4096"

record KvaExtent =
  kx_start :: u64
  kx_end :: u64

record KvaState =
  kva_base :: u64
  kva_end :: u64
  extents :: "KvaExtent list"
  kva_count :: nat
  liveCount :: u32

definition kvaStateInit :: "KvaState \<Rightarrow> u64 \<Rightarrow> u64 \<Rightarrow> KvaState" where
  "kvaStateInit st base end' =
     st\<lparr>kva_base := base, kva_end := end',
        extents := (extents st)[0 := \<lparr>kx_start = base, kx_end = end'\<rparr>],
        kva_count := 1, liveCount := 0\<rparr>"

definition kvaFits :: "KvaState \<Rightarrow> u64 \<Rightarrow> nat \<Rightarrow> bool" where
  "kvaFits st need i \<longleftrightarrow> \<not> kx_end (extents st ! i) - kx_start (extents st ! i) < need"

text \<open>The body of the allocation loop at the first extent that is large enough.\<close>

definition kvaTake :: "KvaState \<Rightarrow> u64 \<Rightarrow> nat \<Rightarrow> KvaState \<times> u64" where
  "kvaTake st need i =
     (let start = kx_start (extents st ! i);
          newStart = start + need;
          st1 = (if newStart = kx_end (extents st ! i)
                 then st\<lparr>extents := arr_close (extents st) i (kva_count st),
                         kva_count := kva_count st - 1\<rparr>
                 else st\<lparr>extents := (extents st)[i := (extents st ! i)\<lparr>kx_start := newStart\<rparr>]\<rparr>)
      in (st1\<lparr>liveCount := liveCount st1 + 1\<rparr>, start + KVA_GUARD_SIZE))"

text \<open>\<open>outNull\<close> says whether the caller's \<open>outVa\<close> pointer is NULL.\<close>

definition kvaAlloc :: "KvaState \<Rightarrow> u64 \<Rightarrow> bool \<Rightarrow> Status + (KvaState \<times> u64)" where
  "kvaAlloc st sz outNull =
     (if outNull \<or> sz = 0 \<or> sz mod KVA_PAGE_SIZE \<noteq> 0 then Inl STATUS_ERR_INVALID
      else let need = sz + 2 * KVA_GUARD_SIZE in
        if need < sz then Inl STATUS_ERR_INVALID
        else if liveCount st \<ge> of_nat (KVA_MAX_EXTENTS - 1) then Inl STATUS_ERR_NO_MEMORY
        else case find (kvaFits st need) [0..<kva_count st] of
               Some i \<Rightarrow> Inr (kvaTake st need i)
             | None \<Rightarrow> Inl STATUS_ERR_NO_MEMORY)"

text \<open>The insertion point: the first extent that does not start below \<open>start\<close>.\<close>

definition kvaInsertIdx :: "KvaState \<Rightarrow> u64 \<Rightarrow> nat" where
  "kvaInsertIdx st start =
     length (takeWhile (\<lambda>e. kx_start e < start) (take (kva_count st) (extents st)))"

text \<open>The coalescing update at index \<open>idx\<close>, once the overlap checks have passed.\<close>

definition kvaMerge :: "KvaState \<Rightarrow> nat \<Rightarrow> u64 \<Rightarrow> u64 \<Rightarrow> Status + KvaState" where
  "kvaMerge st idx start end' =
     (let xs = extents st; n = kva_count st;
          mergeLeft = (idx > 0 \<and> kx_end (xs ! (idx - 1)) = start);
          mergeRight = (idx < n \<and> kx_start (xs ! idx) = end')
      in if mergeLeft \<and> mergeRight then
           (let xs1 = xs[idx - 1 := (xs ! (idx - 1))\<lparr>kx_end := kx_end (xs ! idx)\<rparr>]
            in Inr (st\<lparr>extents := arr_close xs1 idx n, kva_count := n - 1\<rparr>))
         else if mergeLeft then
           Inr (st\<lparr>extents := xs[idx - 1 := (xs ! (idx - 1))\<lparr>kx_end := end'\<rparr>]\<rparr>)
         else if mergeRight then
           Inr (st\<lparr>extents := xs[idx := (xs ! idx)\<lparr>kx_start := start\<rparr>]\<rparr>)
         else if n \<ge> KVA_MAX_EXTENTS then Inl STATUS_ERR_INVALID
         else Inr (st\<lparr>extents := (arr_open xs idx n)[idx := \<lparr>kx_start = start, kx_end = end'\<rparr>],
                      kva_count := n + 1\<rparr>))"

definition kvaFree :: "KvaState \<Rightarrow> u64 \<Rightarrow> u64 \<Rightarrow> Status + KvaState" where
  "kvaFree st va sz =
     (if sz = 0 \<or> sz mod KVA_PAGE_SIZE \<noteq> 0 \<or> va < KVA_GUARD_SIZE then Inl STATUS_ERR_INVALID
      else let start = va - KVA_GUARD_SIZE; end' = va + sz + KVA_GUARD_SIZE in
        if end' < va then Inl STATUS_ERR_INVALID
        else if start < kva_base st \<or> end' > kva_end st then Inl STATUS_ERR_INVALID
        else let idx = kvaInsertIdx st start in
          if idx > 0 \<and> kx_end (extents st ! (idx - 1)) > start then Inl STATUS_ERR_INVALID
          else if idx < kva_count st \<and> kx_start (extents st ! idx) < end' then Inl STATUS_ERR_INVALID
          else case kvaMerge st idx start end' of
                 Inl e \<Rightarrow> Inl e
               | Inr st1 \<Rightarrow> Inr (st1\<lparr>liveCount := liveCount st1 - 1\<rparr>))"

section \<open>The free table as a list of intervals\<close>

definition ext_nat :: "KvaExtent \<Rightarrow> ext" where
  "ext_nat e = (unat (kx_start e), unat (kx_end e))"

definition kvaAbs :: "KvaState \<Rightarrow> ext list" where
  "kvaAbs st = map ext_nat (take (kva_count st) (extents st))"

text \<open>Well-formedness: the table is sorted, coalesced, page-aligned and inside the bounds.\<close>

definition page_ext :: "ext \<Rightarrow> bool" where
  "page_ext e \<longleftrightarrow> 4096 dvd fst e \<and> 4096 dvd snd e"

definition kvaWf :: "KvaState \<Rightarrow> bool" where
  "kvaWf st \<longleftrightarrow> length (extents st) = KVA_MAX_EXTENTS \<and> kva_count st \<le> KVA_MAX_EXTENTS
     \<and> exts_ok (unat (kva_base st)) (unat (kva_end st)) (kvaAbs st)
     \<and> list_all page_ext (kvaAbs st) \<and> unat (liveCount st) \<le> KVA_MAX_EXTENTS - 1"

lemma length_kvaAbs: "kvaWf st \<Longrightarrow> length (kvaAbs st) = kva_count st"
  by (simp add: kvaAbs_def kvaWf_def)

lemma kvaAbs_nth: "kvaWf st \<Longrightarrow> i < kva_count st \<Longrightarrow> kvaAbs st ! i = ext_nat (extents st ! i)"
  by (simp add: kvaAbs_def kvaWf_def)

lemma kvaAbs_liveCount [simp]: "kvaAbs (st\<lparr>liveCount := c\<rparr>) = kvaAbs st"
  by (simp add: kvaAbs_def)

lemma kvaAbs_split:
  assumes "kvaWf st" "i < kva_count st"
  shows "kvaAbs st = take i (kvaAbs st) @ kvaAbs st ! i # drop (i + 1) (kvaAbs st)"
  using assms by (simp add: length_kvaAbs id_take_nth_drop)

lemma exts_ok_nth:
  assumes "exts_ok lo hi es" "i < length es"
  shows "lo \<le> fst (es ! i) \<and> fst (es ! i) < snd (es ! i) \<and> snd (es ! i) \<le> hi"
  using assms exts_ok_ends [of lo hi es "fst (es ! i)" "snd (es ! i)"] by simp

lemma kvaFits_iff:
  assumes "kvaWf st" "i < kva_count st"
  shows "kvaFits st need i \<longleftrightarrow> fst (kvaAbs st ! i) + unat need \<le> snd (kvaAbs st ! i)"
proof -
  have "fst (kvaAbs st ! i) < snd (kvaAbs st ! i)"
    using assms exts_ok_nth [of _ _ "kvaAbs st" i] by (auto simp: kvaWf_def length_kvaAbs)
  then show ?thesis
    using assms
    by (auto simp: kvaFits_def kvaAbs_nth ext_nat_def word_less_nat_alt unat_sub_le)
qed

lemma kvaTake_abs:
  assumes wf: "kvaWf st" and i: "i < kva_count st" and fit: "kvaFits st need i"
  shows "kvaAbs (fst (kvaTake st need i))
           = take i (kvaAbs st) @ cut_front (kvaAbs st ! i) (unat need) @ drop (i + 1) (kvaAbs st)"
proof -
  let ?e = "extents st ! i"
  let ?n = "kva_count st"
  have n: "?n \<le> length (extents st)" using wf by (simp add: kvaWf_def)
  have le: "unat (kx_start ?e) + unat need \<le> unat (kx_end ?e)"
    using kvaFits_iff [OF wf i] fit by (simp add: kvaAbs_nth [OF wf i] ext_nat_def)
  then have nowrap: "unat (kx_start ?e + need) = unat (kx_start ?e) + unat need"
    using unat_lt_64 [of "kx_end ?e"] by (intro unat_add_nowrap) simp
  have eq: "kx_start ?e + need = kx_end ?e \<longleftrightarrow> unat (kx_start ?e) + unat need = unat (kx_end ?e)"
    by (simp flip: nowrap)
  have e: "kvaAbs st ! i = ext_nat ?e" by (rule kvaAbs_nth [OF wf i])
  show ?thesis
  proof (cases "kx_start ?e + need = kx_end ?e")
    case True
    have "kvaAbs (fst (kvaTake st need i)) = map ext_nat (take (?n - 1) (arr_close (extents st) i ?n))"
      using True by (simp add: kvaTake_def Let_def kvaAbs_def)
    also have "\<dots> = take i (kvaAbs st) @ drop (i + 1) (kvaAbs st)"
      using n i by (simp add: take_arr_close kvaAbs_def take_map drop_map)
    finally show ?thesis using True eq by (simp add: e cut_front_def ext_nat_def)
  next
    case False
    have "kvaAbs (fst (kvaTake st need i))
        = map ext_nat (take ?n ((extents st)[i := ?e\<lparr>kx_start := kx_start ?e + need\<rparr>]))"
      using False by (simp add: kvaTake_def Let_def kvaAbs_def)
    also have "\<dots> = take i (kvaAbs st) @ ext_nat (?e\<lparr>kx_start := kx_start ?e + need\<rparr>)
                     # drop (i + 1) (kvaAbs st)"
      using n i by (simp add: take_list_update_eq kvaAbs_def take_map drop_map)
    finally show ?thesis using False eq nowrap by (simp add: e cut_front_def ext_nat_def)
  qed
qed

lemma kvaTake_fields:
  "kva_base (fst (kvaTake st need i)) = kva_base st"
  "kva_end (fst (kvaTake st need i)) = kva_end st"
  "length (extents (fst (kvaTake st need i))) = length (extents st)"
  "kva_count (fst (kvaTake st need i)) \<le> kva_count st"
  "liveCount (fst (kvaTake st need i)) = liveCount st + 1"
  by (auto simp: kvaTake_def Let_def)

lemma list_all_take_drop:
  "list_all P xs \<Longrightarrow> list_all P (take i xs) \<and> list_all P (drop j xs)"
  by (auto simp: list_all_iff dest: in_set_takeD in_set_dropD)

lemma kvaTake_wf:
  assumes wf: "kvaWf st" and i: "i < kva_count st" and fit: "kvaFits st need i"
    and al: "4096 dvd unat need" and lv: "liveCount st < 511"
  shows "kvaWf (fst (kvaTake st need i))"
proof -
  obtain a b where ab: "kvaAbs st ! i = (a, b)" by fastforce
  have ok: "exts_ok (unat (kva_base st)) (unat (kva_end st))
              (take i (kvaAbs st) @ (a, b) # drop (i + 1) (kvaAbs st))"
    using kvaAbs_split [OF wf i] wf ab by (simp add: kvaWf_def)
  have "a + unat need \<le> b" using kvaFits_iff [OF wf i] fit ab by simp
  with ok have "exts_ok (unat (kva_base st)) (unat (kva_end st)) (kvaAbs (fst (kvaTake st need i)))"
    unfolding kvaTake_abs [OF wf i fit] ab by (rule cut_front_ok)
  moreover have "page_ext (kvaAbs st ! i)"
    using wf i by (simp add: kvaWf_def list_all_length length_kvaAbs [OF wf])
  then have "list_all page_ext (kvaAbs (fst (kvaTake st need i)))"
    using wf al list_all_take_drop [of page_ext "kvaAbs st" i "i + 1"] ab
    unfolding kvaTake_abs [OF wf i fit]
    by (auto simp: kvaWf_def cut_front_def page_ext_def)
  moreover have "unat (liveCount st + 1) \<le> KVA_MAX_EXTENTS - 1"
    using lv unat_add_nowrap [of "liveCount st" 1] by (simp add: word_less_nat_alt KVA_MAX_EXTENTS_def)
  ultimately show ?thesis
    using wf kvaTake_fields [of st need i] by (auto simp: kvaWf_def)
qed

text \<open>The coalescing update joins the freed interval into the list at its place.\<close>

lemma kvaMerge_abs:
  assumes wf: "kvaWf st" and idx: "idx \<le> kva_count st"
    and eq: "kvaMerge st idx s e = Inr st'"
  shows "kvaAbs st' = join_ext (take idx (kvaAbs st)) (drop idx (kvaAbs st)) (unat s) (unat e)"
    and "kva_base st' = kva_base st" "kva_end st' = kva_end st" "liveCount st' = liveCount st"
    and "length (extents st') = length (extents st)" "kva_count st' \<le> KVA_MAX_EXTENTS"
proof -
  let ?xs = "extents st"
  let ?n = "kva_count st"
  have n: "?n \<le> length ?xs" and cap: "length ?xs = KVA_MAX_EXTENTS" "?n \<le> KVA_MAX_EXTENTS"
    using wf by (auto simp: kvaWf_def)
  have last: "last (take idx (kvaAbs st)) = ext_nat (?xs ! (idx - 1))" if "0 < idx"
    using that idx n by (subst last_conv_nth) (auto simp: kvaAbs_def)
  have hd: "hd (drop idx (kvaAbs st)) = ext_nat (?xs ! idx)" if "idx < ?n"
    using that n by (simp add: hd_drop_conv_nth kvaAbs_def)
  have jl: "join_left (take idx (kvaAbs st)) (unat s) \<longleftrightarrow> 0 < idx \<and> kx_end (?xs ! (idx - 1)) = s"
    using last idx n by (auto simp: join_left_def kvaAbs_def ext_nat_def)
  have jr: "join_right (drop idx (kvaAbs st)) (unat e) \<longleftrightarrow> idx < ?n \<and> kx_start (?xs ! idx) = e"
    using hd n by (auto simp: join_right_def kvaAbs_def ext_nat_def)
  have bl: "butlast (take (Suc k) (kvaAbs st)) = take k (kvaAbs st)" if "k < ?n" for k
    using that length_kvaAbs [OF wf] by (simp add: butlast_take)
  have tl: "tl (drop k (kvaAbs st)) = drop (Suc k) (kvaAbs st)" for k
    by (simp add: drop_Suc tl_drop)
  note defs = kvaMerge_def Let_def
  have "kvaAbs st' = join_ext (take idx (kvaAbs st)) (drop idx (kvaAbs st)) (unat s) (unat e)
        \<and> kva_count st' \<le> KVA_MAX_EXTENTS"
  proof (cases "0 < idx \<and> kx_end (?xs ! (idx - 1)) = s")
    case l: True
    then obtain k where k: "idx = Suc k" "k < ?n" using idx by (cases idx) auto
    show ?thesis
    proof (cases "idx < ?n \<and> kx_start (?xs ! idx) = e")
      case r: True
      let ?v = "(?xs ! k)\<lparr>kx_end := kx_end (?xs ! idx)\<rparr>"
      have st': "st' = st\<lparr>extents := arr_close (?xs[k := ?v]) idx ?n, kva_count := ?n - 1\<rparr>"
        using eq l r k by (auto simp: defs)
      have "kvaAbs st' = map ext_nat (take idx (take ?n (?xs[k := ?v])) @ drop (idx + 1) (take ?n (?xs[k := ?v])))"
        using r n by (simp add: st' kvaAbs_def take_arr_close)
      also have "\<dots> = take k (kvaAbs st) @ ext_nat ?v # drop (idx + 1) (kvaAbs st)"
        using r k n by (simp add: kvaAbs_def take_map drop_map take_Suc_conv_app_nth drop_update_cancel
            take_update_swap list_update_append)
      finally show ?thesis
        using l r k jl jr last hd bl [of k] tl [of idx] cap
        by (auto simp: join_ext_def Let_def ext_nat_def st')
    next
      case r: False
      let ?v = "(?xs ! k)\<lparr>kx_end := e\<rparr>"
      have st': "st' = st\<lparr>extents := ?xs[k := ?v]\<rparr>"
        using eq l r k by (auto simp: defs)
      have "kvaAbs st' = take k (kvaAbs st) @ ext_nat ?v # drop idx (kvaAbs st)"
        using k n by (simp add: st' kvaAbs_def take_list_update_eq take_map drop_map)
      then show ?thesis
        using l r k jl jr last bl [of k] cap
        by (auto simp: join_ext_def Let_def ext_nat_def st')
    qed
  next
    case l: False
    show ?thesis
    proof (cases "idx < ?n \<and> kx_start (?xs ! idx) = e")
      case r: True
      let ?v = "(?xs ! idx)\<lparr>kx_start := s\<rparr>"
      have st': "st' = st\<lparr>extents := ?xs[idx := ?v]\<rparr>"
        using eq l r by (auto simp: defs)
      have "kvaAbs st' = take idx (kvaAbs st) @ ext_nat ?v # drop (idx + 1) (kvaAbs st)"
        using r n by (simp add: st' kvaAbs_def take_list_update_eq take_map drop_map)
      then show ?thesis
        using l r jl jr hd tl [of idx] cap
        by (auto simp: join_ext_def Let_def ext_nat_def st')
    next
      case r: False
      have lt: "?n < KVA_MAX_EXTENTS"
        and st': "st' = st\<lparr>extents := (arr_open ?xs idx ?n)[idx := \<lparr>kx_start = s, kx_end = e\<rparr>],
                           kva_count := ?n + 1\<rparr>"
        using eq l r by (auto simp: defs split: if_splits)
      have "kvaAbs st' = take idx (kvaAbs st) @ (unat s, unat e) # drop idx (kvaAbs st)"
        using lt idx cap take_arr_open [of ?n ?xs idx "\<lparr>kx_start = s, kx_end = e\<rparr>"]
        by (simp add: st' kvaAbs_def ext_nat_def take_map drop_map)
      then show ?thesis
        using l r jl jr lt by (auto simp: join_ext_def Let_def st')
    qed
  qed
  then show "kvaAbs st' = join_ext (take idx (kvaAbs st)) (drop idx (kvaAbs st)) (unat s) (unat e)"
    and "kva_count st' \<le> KVA_MAX_EXTENTS" by auto
  show "kva_base st' = kva_base st" "kva_end st' = kva_end st" "liveCount st' = liveCount st"
    "length (extents st') = length (extents st)"
    using eq by (auto simp: defs split: if_splits)
qed

section \<open>What allocation and release do to the free set\<close>

definition kvaFreeSet :: "KvaState \<Rightarrow> nat set" where
  "kvaFreeSet st = cover (kvaAbs st)"

definition kvaWhole :: "KvaState \<Rightarrow> nat set" where
  "kvaWhole st = {unat (kva_base st)..<unat (kva_end st)}"

text \<open>The reservation behind a returned address: the usable bytes and both guard pages.\<close>

definition kvaSpan :: "u64 \<Rightarrow> u64 \<Rightarrow> ext" where
  "kvaSpan va sz = (unat va - 4096, unat va + unat sz + 4096)"

definition kvaSizeOk :: "u64 \<Rightarrow> bool" where
  "kvaSizeOk sz \<longleftrightarrow> 0 < unat sz \<and> 4096 dvd unat sz"

lemma kva_sz_guard:
  "\<not> (sz = 0 \<or> sz mod KVA_PAGE_SIZE \<noteq> 0) \<longleftrightarrow> kvaSizeOk sz"
  by (auto simp: kvaSizeOk_def KVA_PAGE_SIZE_def unat_mod_eq_0 dvd_eq_mod_eq_0 unat_gt_0)

lemma kva_need_guard:
  "\<not> sz + 2 * KVA_GUARD_SIZE < sz \<longleftrightarrow> unat sz + 8192 < 2 ^ 64"
  by (simp add: KVA_GUARD_SIZE_def wrap_add_less_iff not_le)

lemma kva_need_unat:
  "unat sz + 8192 < 2 ^ 64 \<Longrightarrow> unat (sz + 2 * KVA_GUARD_SIZE) = unat sz + 8192"
  by (simp add: KVA_GUARD_SIZE_def unat_add_nowrap)

lemma find_SomeE:
  assumes "find P [0..<n] = Some i"
  obtains "i < n" "P i" "\<And>j. j < i \<Longrightarrow> \<not> P j"
  using assms by (auto simp: find_Some_iff)

lemma kvaAlloc_cases:
  assumes "kvaAlloc st sz outNull = Inr (st', va)"
  obtains i where "\<not> outNull" "kvaSizeOk sz" "unat sz + 8192 < 2 ^ 64" "liveCount st < 511"
    "i < kva_count st" "kvaFits st (sz + 2 * KVA_GUARD_SIZE) i"
    "\<And>j. j < i \<Longrightarrow> \<not> kvaFits st (sz + 2 * KVA_GUARD_SIZE) j"
    "st' = fst (kvaTake st (sz + 2 * KVA_GUARD_SIZE) i)"
    "va = snd (kvaTake st (sz + 2 * KVA_GUARD_SIZE) i)"
proof -
  let ?need = "sz + 2 * KVA_GUARD_SIZE"
  from assms have g: "\<not> outNull" "\<not> (sz = 0 \<or> sz mod KVA_PAGE_SIZE \<noteq> 0)" "\<not> ?need < sz"
      "\<not> liveCount st \<ge> of_nat (KVA_MAX_EXTENTS - 1)"
    by (auto simp: kvaAlloc_def Let_def split: if_splits)
  with assms obtain i where i: "find (kvaFits st ?need) [0..<kva_count st] = Some i"
      "kvaTake st ?need i = (st', va)"
    by (auto simp: kvaAlloc_def Let_def split: if_splits option.splits)
  have "liveCount st < 511" using g(4) by (simp add: KVA_MAX_EXTENTS_def not_le)
  with that g(1) g(2) [unfolded kva_sz_guard] g(3) [unfolded kva_need_guard] i
  show thesis by (metis find_SomeE fst_conv snd_conv)
qed

lemma kvaTake_va:
  assumes wf: "kvaWf st" and i: "i < kva_count st" and nw: "unat sz + 8192 < 2 ^ 64"
    and fit: "kvaFits st (sz + 2 * KVA_GUARD_SIZE) i"
  shows "unat (snd (kvaTake st (sz + 2 * KVA_GUARD_SIZE) i)) = fst (kvaAbs st ! i) + 4096"
proof -
  let ?e = "extents st ! i"
  have "unat (kx_start ?e) + (unat sz + 8192) \<le> unat (kx_end ?e)"
    using kvaFits_iff [OF wf i] fit by (simp add: kvaAbs_nth [OF wf i] ext_nat_def kva_need_unat [OF nw])
  then have "unat (kx_start ?e) + 4096 < 2 ^ 64" using unat_lt_64 [of "kx_end ?e"] by simp
  then have "unat (kx_start ?e + 4096) = unat (kx_start ?e) + 4096"
    using unat_add_nowrap [of "kx_start ?e" 4096] by simp
  then show ?thesis
    by (simp add: kvaTake_def Let_def KVA_GUARD_SIZE_def kvaAbs_nth [OF wf i] ext_nat_def)
qed

lemma kvaAlloc_effect:
  assumes wf: "kvaWf st" and ok: "kvaAlloc st sz outNull = Inr (st', va)"
  shows "kvaWf st' \<and> kva_base st' = kva_base st \<and> kva_end st' = kva_end st
     \<and> liveCount st' = liveCount st + 1
     \<and> 4096 \<le> unat va \<and> 4096 dvd unat va
     \<and> {fst (kvaSpan va sz)..<snd (kvaSpan va sz)} \<subseteq> kvaFreeSet st
     \<and> kvaFreeSet st' = kvaFreeSet st - {fst (kvaSpan va sz)..<snd (kvaSpan va sz)}
     \<and> (\<forall>e \<in> set (kvaAbs st). fst e + 4096 < unat va \<longrightarrow> snd e - fst e < unat sz + 8192)"
proof -
  let ?need = "sz + 2 * KVA_GUARD_SIZE"
  from ok obtain i where c: "kvaSizeOk sz" "unat sz + 8192 < 2 ^ 64" "i < kva_count st"
      "kvaFits st ?need i" "\<And>j. j < i \<Longrightarrow> \<not> kvaFits st ?need j" and lv: "liveCount st < 511"
      and st': "st' = fst (kvaTake st ?need i)" and va: "va = snd (kvaTake st ?need i)"
    by (rule kvaAlloc_cases) blast
  obtain a b where ab: "kvaAbs st ! i = (a, b)" by fastforce
  have need: "unat ?need = unat sz + 8192" by (rule kva_need_unat [OF c(2)])
  have nva: "unat va = a + 4096" using kvaTake_va [OF wf c(3,2,4)] ab va by simp
  have span: "kvaSpan va sz = (a, a + (unat sz + 8192))" by (simp add: kvaSpan_def nva)
  have ab_le: "a + (unat sz + 8192) \<le> b"
    using kvaFits_iff [OF wf c(3)] c(4) ab need by simp
  have al: "4096 dvd a" using wf c(3) ab
    by (auto simp: kvaWf_def list_all_length length_kvaAbs [OF wf] page_ext_def dest!: spec [of _ i])
  have split: "kvaAbs st = take i (kvaAbs st) @ (a, b) # drop (i + 1) (kvaAbs st)"
    using kvaAbs_split [OF wf c(3)] ab by simp
  have exts: "exts_ok (unat (kva_base st)) (unat (kva_end st)) (take i (kvaAbs st) @ (a, b) # drop (i + 1) (kvaAbs st))"
    using wf split by (simp add: kvaWf_def)
  have abs': "kvaAbs st' = take i (kvaAbs st) @ cut_front (a, b) (unat sz + 8192) @ drop (i + 1) (kvaAbs st)"
    using kvaTake_abs [OF wf c(3,4)] st' ab need by simp
  have "4096 dvd unat ?need" using c(1) need by (simp add: kvaSizeOk_def)
  then have "kvaWf st'" unfolding st' using lv by (rule kvaTake_wf [OF wf c(3,4)])
  moreover have "kvaFreeSet st' = kvaFreeSet st - {a..<a + (unat sz + 8192)}"
    "{a..<a + (unat sz + 8192)} \<subseteq> kvaFreeSet st"
    unfolding kvaFreeSet_def abs' using cut_front_cover [OF exts ab_le] split by (metis, metis)
  moreover have "snd e - fst e < unat sz + 8192" if e: "e \<in> set (kvaAbs st)" "fst e + 4096 < unat va" for e
  proof -
    obtain j where j: "j < kva_count st" "e = kvaAbs st ! j"
      using e(1) by (auto simp: in_set_conv_nth length_kvaAbs [OF wf])
    have "j < i"
    proof (rule ccontr)
      assume "\<not> j < i"
      then have "e = (a, b) \<or> e \<in> set (drop (i + 1) (kvaAbs st))"
        using j ab by (cases "j = i") (auto simp: in_set_conv_nth length_kvaAbs [OF wf] intro!: exI [of _ "j - (i + 1)"])
      moreover have "exts_ok (Suc b) (unat (kva_end st)) (drop (i + 1) (kvaAbs st))" "a < b"
        using exts by (auto simp: exts_ok_append)
      ultimately have "a \<le> fst e" using exts_ok_ends by (cases e) fastforce
      then show False using e(2) nva by simp
    qed
    then show ?thesis using c(5) [of j] kvaFits_iff [OF wf j(1)] j(2) need by simp
  qed
  ultimately show ?thesis using nva al span kvaTake_fields [of st ?need i] st' by simp
qed

lemma kvaInsertIdx_abs:
  assumes wf: "kvaWf st"
  shows "take (kvaInsertIdx st s) (kvaAbs st) = takeWhile (\<lambda>x. fst x < unat s) (kvaAbs st)"
    and "drop (kvaInsertIdx st s) (kvaAbs st) = dropWhile (\<lambda>x. fst x < unat s) (kvaAbs st)"
    and "kvaInsertIdx st s \<le> kva_count st"
proof -
  have "kvaInsertIdx st s = length (takeWhile (\<lambda>x. fst x < unat s) (kvaAbs st))"
    by (simp add: kvaInsertIdx_def kvaAbs_def takeWhile_map ext_nat_def comp_def word_less_nat_alt)
  then show "take (kvaInsertIdx st s) (kvaAbs st) = takeWhile (\<lambda>x. fst x < unat s) (kvaAbs st)"
    "drop (kvaInsertIdx st s) (kvaAbs st) = dropWhile (\<lambda>x. fst x < unat s) (kvaAbs st)"
    by (simp_all only: takeWhile_eq_take [symmetric] dropWhile_eq_drop [symmetric])
  show "kvaInsertIdx st s \<le> kva_count st"
    using length_takeWhile_le [of "\<lambda>e. kx_start e < s" "take (kva_count st) (extents st)"]
    unfolding kvaInsertIdx_def by simp
qed

text \<open>The neighbour checks of the source, over the abstract list.\<close>

lemma kva_overlap_guard:
  fixes s e :: u64
  assumes wf: "kvaWf st" and se: "unat s < unat e" and idx: "idx = kvaInsertIdx st s"
  shows "\<not> (idx > 0 \<and> kx_end (extents st ! (idx - 1)) > s)
         \<and> \<not> (idx < kva_count st \<and> kx_start (extents st ! idx) < e)
         \<longleftrightarrow> kvaFreeSet st \<inter> {unat s..<unat e} = {}"
proof -
  let ?ls = "take idx (kvaAbs st)" and ?rs = "drop idx (kvaAbs st)"
  have n: "idx \<le> kva_count st" "kva_count st \<le> length (extents st)"
    using kvaInsertIdx_abs(3) [OF wf] idx wf by (auto simp: kvaWf_def)
  have "idx > 0 \<Longrightarrow> snd (last ?ls) = unat (kx_end (extents st ! (idx - 1)))"
    using n by (subst last_conv_nth) (auto simp: kvaAbs_def ext_nat_def)
  moreover have "idx < kva_count st \<Longrightarrow> fst (hd ?rs) = unat (kx_start (extents st ! idx))"
    using n by (simp add: hd_drop_conv_nth kvaAbs_def ext_nat_def)
  moreover have "?ls = [] \<longleftrightarrow> idx = 0" "?rs = [] \<longleftrightarrow> idx = kva_count st"
    using n length_kvaAbs [OF wf] by auto
  ultimately have "\<not> (idx > 0 \<and> kx_end (extents st ! (idx - 1)) > s)
         \<and> \<not> (idx < kva_count st \<and> kx_start (extents st ! idx) < e)
      \<longleftrightarrow> (?ls = [] \<or> snd (last ?ls) \<le> unat s) \<and> (?rs = [] \<or> unat e \<le> fst (hd ?rs))"
    using n by (auto simp: word_less_nat_alt not_less)
  also have "\<dots> \<longleftrightarrow> cover (kvaAbs st) \<inter> {unat s..<unat e} = {}"
    using wf se kvaInsertIdx_abs(1,2) [OF wf] idx
    by (intro neighbours_decide_overlap) (auto simp: kvaWf_def)
  finally show ?thesis by (simp add: kvaFreeSet_def)
qed

text \<open>The addresses of a release, when \<open>va + size + guard\<close> does not wrap past \<open>va\<close>.\<close>

lemma kva_release_addrs:
  assumes "unat sz + 4096 < 2 ^ 64"
  shows "\<not> va + sz + KVA_GUARD_SIZE < va \<longleftrightarrow> unat va + unat sz + 4096 < 2 ^ 64"
    and "unat va + unat sz + 4096 < 2 ^ 64 \<Longrightarrow> unat (va + sz + KVA_GUARD_SIZE) = unat va + unat sz + 4096"
    and "\<not> va < KVA_GUARD_SIZE \<longleftrightarrow> 4096 \<le> unat va"
    and "4096 \<le> unat va \<Longrightarrow> unat (va - KVA_GUARD_SIZE) = unat va - 4096"
proof -
  have g: "unat (sz + 4096) = unat sz + 4096"
    using assms unat_add_nowrap [of sz 4096] by simp
  show "\<not> va + sz + KVA_GUARD_SIZE < va \<longleftrightarrow> unat va + unat sz + 4096 < 2 ^ 64"
    using wrap_add_less_iff [of va "sz + 4096"] g by (simp add: KVA_GUARD_SIZE_def add.assoc not_le)
  show "unat va + unat sz + 4096 < 2 ^ 64 \<Longrightarrow> unat (va + sz + KVA_GUARD_SIZE) = unat va + unat sz + 4096"
    using unat_add_nowrap [of va "sz + 4096"] g by (simp add: KVA_GUARD_SIZE_def add.assoc)
  show "\<not> va < KVA_GUARD_SIZE \<longleftrightarrow> 4096 \<le> unat va"
    by (simp add: KVA_GUARD_SIZE_def word_less_nat_alt not_less)
  show "4096 \<le> unat va \<Longrightarrow> unat (va - KVA_GUARD_SIZE) = unat va - 4096"
    using unat_sub_le [of 4096 va] by (simp add: KVA_GUARD_SIZE_def)
qed

text \<open>What \<open>kvaFree\<close> requires of a release before it touches the table.\<close>

definition kvaReleasable :: "KvaState \<Rightarrow> u64 \<Rightarrow> u64 \<Rightarrow> bool" where
  "kvaReleasable st va sz \<longleftrightarrow> kvaSizeOk sz \<and> 4096 \<le> unat va
     \<and> unat (kva_base st) \<le> unat va - 4096 \<and> unat va + unat sz + 4096 \<le> unat (kva_end st)
     \<and> kvaFreeSet st \<inter> {fst (kvaSpan va sz)..<snd (kvaSpan va sz)} = {}"

text \<open>
  The addresses a release gives back. For the size \<open>2^64 - 4096\<close> the sum \<open>va + size + guard\<close> wraps
  around to \<open>va\<close> itself, which the overflow test \<open>end < va\<close> does not see: only the page below \<open>va\<close>
  is then released.
\<close>

definition kvaReleased :: "u64 \<Rightarrow> u64 \<Rightarrow> nat set" where
  "kvaReleased va sz = {unat va - 4096..<(if unat sz + 4096 = 2 ^ 64 then unat va else unat va + unat sz + 4096)}"

definition kvaAccepts :: "KvaState \<Rightarrow> u64 \<Rightarrow> u64 \<Rightarrow> bool" where
  "kvaAccepts st va sz \<longleftrightarrow> kvaSizeOk sz \<and> 4096 \<le> unat va
     \<and> kvaReleased va sz \<subseteq> kvaWhole st \<and> kvaFreeSet st \<inter> kvaReleased va sz = {}"

lemma kvaSizeOk_cases:
  assumes "kvaSizeOk sz"
  obtains "unat sz + 4096 < 2 ^ 64" | "unat sz + 4096 = 2 ^ 64" "sz = - 4096"
proof -
  obtain n where n: "unat sz = 4096 * n" using assms by (auto simp: kvaSizeOk_def elim!: dvdE)
  then have "n < 2 ^ 52" using unat_lt_64 [of sz] by simp
  then have "n + 1 < 2 ^ 52 \<or> n + 1 = 2 ^ 52" by linarith
  then show thesis
  proof
    assume "n + 1 = 2 ^ 52"
    then have u: "unat sz = 2 ^ 64 - 4096" using n by simp
    then have "unat sz = unat (- 4096 :: u64)" by simp
    then have "sz = - 4096" by (rule unat_inj [THEN iffD1])
    then show thesis using that(2) u by simp
  qed (use that(1) n in simp)
qed

text \<open>The end of the release in the code, for the sizes that pass its size test.\<close>

lemma kva_release_end:
  assumes "kvaSizeOk sz" "4096 \<le> unat va"
  shows "va + sz + KVA_GUARD_SIZE < va \<Longrightarrow> \<not> kvaReleased va sz \<subseteq> kvaWhole st"
    and "\<not> va + sz + KVA_GUARD_SIZE < va \<Longrightarrow> kvaReleased va sz = {unat (va - KVA_GUARD_SIZE)..<unat (va + sz + KVA_GUARD_SIZE)}"
    and "\<not> va + sz + KVA_GUARD_SIZE < va \<Longrightarrow> unat (va - KVA_GUARD_SIZE) < unat (va + sz + KVA_GUARD_SIZE)"
    and "\<not> va + sz + KVA_GUARD_SIZE < va \<Longrightarrow> 4096 dvd unat va \<Longrightarrow> 4096 dvd unat (va + sz + KVA_GUARD_SIZE)"
proof -
  have s: "unat (va - KVA_GUARD_SIZE) = unat va - 4096"
    using assms(2) unat_sub_le [of 4096 va] by (simp add: KVA_GUARD_SIZE_def)
  have "(va + sz + KVA_GUARD_SIZE < va \<longrightarrow> \<not> kvaReleased va sz \<subseteq> kvaWhole st)
    \<and> (\<not> va + sz + KVA_GUARD_SIZE < va \<longrightarrow> kvaReleased va sz = {unat (va - KVA_GUARD_SIZE)..<unat (va + sz + KVA_GUARD_SIZE)}
         \<and> unat (va - KVA_GUARD_SIZE) < unat (va + sz + KVA_GUARD_SIZE) \<and> (4096 dvd unat va \<longrightarrow> 4096 dvd unat (va + sz + KVA_GUARD_SIZE)))"
    using assms(1)
  proof (cases rule: kvaSizeOk_cases)
    case 1
    note A = kva_release_addrs(1,2) [OF 1, of va]
    have "unat va - 4096 < unat va + unat sz + 4096" by simp
    then have "\<not> {unat va - 4096..<unat va + unat sz + 4096} \<subseteq> kvaWhole st" if "2 ^ 64 \<le> unat va + unat sz + 4096"
      using that unat_lt_64 [of "kva_end st"] by (simp add: kvaWhole_def)
    moreover have "4096 dvd unat sz" using assms(1) by (simp add: kvaSizeOk_def)
    ultimately show ?thesis using A s 1 by (auto simp: kvaReleased_def not_less)
  next
    case 2
    have "va + sz + KVA_GUARD_SIZE = va" by (simp add: 2(2) KVA_GUARD_SIZE_def)
    then show ?thesis unfolding \<open>va + sz + KVA_GUARD_SIZE = va\<close> s using 2(1) assms(2) by (simp add: kvaReleased_def)
  qed
  then show "va + sz + KVA_GUARD_SIZE < va \<Longrightarrow> \<not> kvaReleased va sz \<subseteq> kvaWhole st"
    "\<not> va + sz + KVA_GUARD_SIZE < va \<Longrightarrow> kvaReleased va sz = {unat (va - KVA_GUARD_SIZE)..<unat (va + sz + KVA_GUARD_SIZE)}"
    "\<not> va + sz + KVA_GUARD_SIZE < va \<Longrightarrow> unat (va - KVA_GUARD_SIZE) < unat (va + sz + KVA_GUARD_SIZE)"
    "\<not> va + sz + KVA_GUARD_SIZE < va \<Longrightarrow> 4096 dvd unat va \<Longrightarrow> 4096 dvd unat (va + sz + KVA_GUARD_SIZE)" by blast+
qed

lemma kvaFree_total:
  assumes wf: "kvaWf st"
  shows "kvaFree st va sz =
    (if kvaAccepts st va sz
     then case kvaMerge st (kvaInsertIdx st (va - KVA_GUARD_SIZE)) (va - KVA_GUARD_SIZE) (va + sz + KVA_GUARD_SIZE) of
            Inl e \<Rightarrow> Inl e
          | Inr st1 \<Rightarrow> Inr (st1\<lparr>liveCount := liveCount st1 - 1\<rparr>)
     else Inl STATUS_ERR_INVALID)"
proof (cases "kvaSizeOk sz \<and> 4096 \<le> unat va")
  case False
  then show ?thesis
    using kva_sz_guard [of sz] by (auto simp: kvaFree_def kvaAccepts_def KVA_GUARD_SIZE_def word_less_nat_alt not_less)
next
  case True
  let ?s = "va - KVA_GUARD_SIZE" and ?e = "va + sz + KVA_GUARD_SIZE"
  have g: "\<not> (sz = 0 \<or> sz mod KVA_PAGE_SIZE \<noteq> 0)" "\<not> va < KVA_GUARD_SIZE"
    using True kva_sz_guard [of sz] by (auto simp: KVA_GUARD_SIZE_def word_less_nat_alt not_less)
  note E = kva_release_end [OF conjunct1 [OF True] conjunct2 [OF True]]
  show ?thesis
  proof (cases "?e < va")
    case w: True
    then show ?thesis using g E(1) by (auto simp: kvaFree_def kvaAccepts_def)
  next
    case w: False
    have "kvaAccepts st va sz \<longleftrightarrow> \<not> (?s < kva_base st \<or> ?e > kva_end st) \<and> kvaFreeSet st \<inter> {unat ?s..<unat ?e} = {}"
      using True E(3) [OF w] unfolding kvaAccepts_def E(2) [OF w] kvaWhole_def ivl_subset word_less_nat_alt by auto
    then show ?thesis
      using g w unfolding kva_overlap_guard [OF wf E(3) [OF w] refl, symmetric] by (auto simp: kvaFree_def Let_def)
  qed
qed

lemma kvaAccepts_nowrap: "unat sz + 4096 < 2 ^ 64 \<Longrightarrow> kvaAccepts st va sz = kvaReleasable st va sz"
  by (auto simp: kvaAccepts_def kvaReleasable_def kvaReleased_def kvaWhole_def kvaSpan_def ivl_subset)

lemma kvaFree_eq:
  assumes wf: "kvaWf st" and nw: "unat sz + 4096 < 2 ^ 64"
  shows "kvaFree st va sz =
    (if kvaReleasable st va sz
     then case kvaMerge st (kvaInsertIdx st (va - KVA_GUARD_SIZE)) (va - KVA_GUARD_SIZE) (va + sz + KVA_GUARD_SIZE) of
            Inl e \<Rightarrow> Inl e
          | Inr st1 \<Rightarrow> Inr (st1\<lparr>liveCount := liveCount st1 - 1\<rparr>)
     else Inl STATUS_ERR_INVALID)"
  unfolding kvaFree_total [OF wf] kvaAccepts_nowrap [OF nw] ..

text \<open>Inserting an interval that meets no free extent.\<close>

lemma kvaMerge_interval:
  assumes wf: "kvaWf st" and se: "unat s < unat t" and "in": "{unat s..<unat t} \<subseteq> kvaWhole st"
    and dis: "kvaFreeSet st \<inter> {unat s..<unat t} = {}" and m: "kvaMerge st (kvaInsertIdx st s) s t = Inr st'"
  shows "exts_ok (unat (kva_base st)) (unat (kva_end st)) (kvaAbs st')"
    and "kvaFreeSet st' = kvaFreeSet st \<union> {unat s..<unat t}"
    and "4096 dvd unat s \<Longrightarrow> 4096 dvd unat t \<Longrightarrow> kvaWf st'"
proof -
  let ?idx = "kvaInsertIdx st s"
  let ?ls = "take ?idx (kvaAbs st)" and ?rs = "drop ?idx (kvaAbs st)"
  have b: "unat (kva_base st) \<le> unat s" "unat t \<le> unat (kva_end st)"
    using "in" se by (auto simp: kvaWhole_def)
  note M = kvaMerge_abs [OF wf kvaInsertIdx_abs(3) [OF wf] m]
  have ok: "exts_ok (unat (kva_base st)) (unat (kva_end st)) (kvaAbs st)" using wf by (simp add: kvaWf_def)
  have nb: "(?ls = [] \<or> snd (last ?ls) \<le> unat s) \<and> (?rs = [] \<or> unat t \<le> fst (hd ?rs))"
    using neighbours_decide_overlap [OF ok se kvaInsertIdx_abs(1) [OF wf] kvaInsertIdx_abs(2) [OF wf]] dis
    by (simp add: kvaFreeSet_def)
  have lr: "?ls @ ?rs = kvaAbs st" by simp
  show e: "exts_ok (unat (kva_base st)) (unat (kva_end st)) (kvaAbs st')"
    unfolding M(1) using ok nb se b lr by (intro join_ext_ok) (auto simp del: append_take_drop_id)
  show f: "kvaFreeSet st' = kvaFreeSet st \<union> {unat s..<unat t}"
    unfolding kvaFreeSet_def M(1) using join_ext_cover [of _ _ ?ls ?rs] ok se lr by simp
  show "kvaWf st'" if "4096 dvd unat s" "4096 dvd unat t"
  proof -
    have "list_all page_ext ?ls" "list_all page_ext ?rs"
      using wf list_all_take_drop [of page_ext "kvaAbs st"] by (auto simp: kvaWf_def)
    then have "list_all page_ext (kvaAbs st')"
      using join_ext_ends [of ?ls "\<lambda>x. 4096 dvd x" ?rs] that unfolding M(1) list_all_iff page_ext_def by blast
    then show ?thesis using wf M e by (simp add: kvaWf_def)
  qed
qed

lemma kvaMerge_wf:
  assumes wf: "kvaWf st" and rel: "kvaReleasable st va sz" and al: "4096 dvd unat va"
    and nw: "unat sz + 4096 < 2 ^ 64"
    and m: "kvaMerge st (kvaInsertIdx st (va - KVA_GUARD_SIZE)) (va - KVA_GUARD_SIZE) (va + sz + KVA_GUARD_SIZE) = Inr st'"
  shows "kvaWf st' \<and> kvaFreeSet st' = kvaFreeSet st \<union> {fst (kvaSpan va sz)..<snd (kvaSpan va sz)}"
proof -
  have b: "unat va + unat sz + 4096 < 2 ^ 64" "4096 \<le> unat va" "4096 dvd unat sz"
    using rel unat_lt_64 [of "kva_end st"] by (auto simp: kvaReleasable_def kvaSizeOk_def)
  then have a: "unat (va - KVA_GUARD_SIZE) = unat va - 4096" "unat (va + sz + KVA_GUARD_SIZE) = unat va + unat sz + 4096"
    using kva_release_addrs(2,4) [OF nw, of va] by auto
  show ?thesis
    using kvaMerge_interval [OF wf _ _ _ m] rel al a b(3) by (auto simp: kvaReleasable_def kvaWhole_def kvaSpan_def)
qed

section \<open>The allocator implements the interface\<close>

definition spanSet :: "u64 \<times> u64 \<Rightarrow> nat set" where
  "spanSet r = {fst (kvaSpan (fst r) (snd r))..<snd (kvaSpan (fst r) (snd r))}"

definition kvaLive :: "KvaState \<Rightarrow> nat" where
  "kvaLive st = unat (liveCount st)"

text \<open>The state counts the reservations that are out.\<close>

definition kvaHeld :: "KvaState \<Rightarrow> (u64 \<times> u64) set \<Rightarrow> bool" where
  "kvaHeld st L \<longleftrightarrow> finite L \<and> card L = kvaLive st"

lemma kvaHeld_pos: "kvaHeld st L \<Longrightarrow> h \<in> L \<Longrightarrow> 0 < kvaLive st"
  unfolding kvaHeld_def by (metis card_gt_0_iff empty_iff)

definition kvaEntry :: "u64 \<times> u64 \<Rightarrow> bool" where
  "kvaEntry r \<longleftrightarrow> kvaSizeOk (snd r) \<and> unat (snd r) + 8192 < 2 ^ 64
     \<and> 4096 \<le> unat (fst r) \<and> 4096 dvd unat (fst r)"

lemma kvaFree_effect:
  assumes wf: "kvaWf st" and ok: "kvaFree st va sz = Inr st'"
    and nw: "unat sz + 4096 < 2 ^ 64" and al: "4096 dvd unat va" and lv: "0 < unat (liveCount st)"
  shows "kvaReleasable st va sz \<and> kvaWf st' \<and> kva_base st' = kva_base st \<and> kva_end st' = kva_end st
     \<and> unat (liveCount st') = unat (liveCount st) - 1
     \<and> kvaFreeSet st' = kvaFreeSet st \<union> spanSet (va, sz)"
proof -
  let ?s = "va - KVA_GUARD_SIZE" and ?e = "va + sz + KVA_GUARD_SIZE"
  obtain st1 where rel: "kvaReleasable st va sz" and m: "kvaMerge st (kvaInsertIdx st ?s) ?s ?e = Inr st1"
      and st': "st' = st1\<lparr>liveCount := liveCount st1 - 1\<rparr>"
    using ok unfolding kvaFree_eq [OF wf nw] by (auto split: if_splits sum.splits)
  note M = kvaMerge_abs [OF wf kvaInsertIdx_abs(3) [OF wf] m]
  have w: "kvaWf st1" "kvaFreeSet st1 = kvaFreeSet st \<union> spanSet (va, sz)"
    using kvaMerge_wf [OF wf rel al nw m] by (auto simp: spanSet_def)
  have "unat (liveCount st1 - 1) = unat (liveCount st) - 1"
    using lv M(4) unat_sub_le [of 1 "liveCount st1"] by simp
  moreover have "unat (liveCount st) - 1 \<le> KVA_MAX_EXTENTS - 1"
    using wf unfolding kvaWf_def by linarith
  ultimately show ?thesis using w M rel st' by (simp add: kvaWf_def kvaFreeSet_def)
qed

lemma kvaReleasable_ledger:
  assumes wf: "kvaWf st" and L: "ledger_ok spanSet (kvaWhole st) (kvaFreeSet st) L"
    and m: "(va, sz) \<in> L" and e: "kvaEntry (va, sz)"
  shows "kvaReleasable st va sz"
proof -
  let ?a = "unat va - 4096" and ?b = "unat va + unat sz + 4096"
  have sub: "{?a..<?b} \<subseteq> kvaWhole st" and dis: "kvaFreeSet st \<inter> {?a..<?b} = {}"
    using L m unfolding ledger_ok_def by (force simp: spanSet_def kvaSpan_def)+
  have "?a < ?b" by simp
  then have "unat (kva_base st) \<le> ?a" "?b \<le> unat (kva_end st)"
    using sub unfolding kvaWhole_def by (auto simp: atLeastLessThan_subset_iff)
  then show ?thesis using e dis by (simp add: kvaReleasable_def kvaEntry_def kvaSpan_def)
qed

text \<open>
  When the full-table branch of \<open>kvaFree\<close> is taken, the table with the released interval
  inserted would be a well-formed list with one extent more.
\<close>

lemma kvaMerge_Inl:
  assumes wf: "kvaWf st" and rel: "kvaReleasable st va sz" and nw: "unat sz + 4096 < 2 ^ 64"
    and no: "kvaMerge st (kvaInsertIdx st (va - KVA_GUARD_SIZE)) (va - KVA_GUARD_SIZE) (va + sz + KVA_GUARD_SIZE) = Inl x"
  obtains J where "exts_ok (unat (kva_base st)) (unat (kva_end st)) J"
    "cover J = kvaFreeSet st \<union> spanSet (va, sz)" "length J = Suc (kva_count st)"
    "KVA_MAX_EXTENTS \<le> kva_count st"
proof -
  define s t where "s = va - KVA_GUARD_SIZE" and "t = va + sz + KVA_GUARD_SIZE"
  let ?idx = "kvaInsertIdx st s"
  let ?ls = "take ?idx (kvaAbs st)" and ?rs = "drop ?idx (kvaAbs st)"
  have b: "unat va + unat sz + 4096 < 2 ^ 64" "4096 \<le> unat va"
    using rel unat_lt_64 [of "kva_end st"] by (auto simp: kvaReleasable_def)
  then have a: "unat s = unat va - 4096" "unat t = unat va + unat sz + 4096"
    using kva_release_addrs(2,4) [OF nw, of va] by (auto simp: s_def t_def)
  have st: "unat s < unat t" using a by simp
  have ok: "exts_ok (unat (kva_base st)) (unat (kva_end st)) (kvaAbs st)" using wf by (simp add: kvaWf_def)
  have idx: "?idx \<le> kva_count st" by (rule kvaInsertIdx_abs(3) [OF wf])
  have cap: "kva_count st \<le> length (extents st)" using wf by (simp add: kvaWf_def)
  from no have full: "KVA_MAX_EXTENTS \<le> kva_count st"
      and nl: "\<not> (?idx > 0 \<and> kx_end (extents st ! (?idx - 1)) = s)"
      and nr: "\<not> (?idx < kva_count st \<and> kx_start (extents st ! ?idx) = t)"
    unfolding s_def [symmetric] t_def [symmetric] by (auto simp: kvaMerge_def Let_def split: if_splits)
  have "?ls \<noteq> [] \<Longrightarrow> snd (last ?ls) = unat (kx_end (extents st ! (?idx - 1)))"
    using idx cap by (subst last_conv_nth) (auto simp: kvaAbs_def ext_nat_def)
  then have jl: "\<not> join_left ?ls (unat s)" using nl by (auto simp: join_left_def)
  have "?rs \<noteq> [] \<Longrightarrow> fst (hd ?rs) = unat (kx_start (extents st ! ?idx))"
    using length_kvaAbs [OF wf] cap by (auto simp: hd_drop_conv_nth kvaAbs_def ext_nat_def)
  then have jr: "\<not> join_right ?rs (unat t)"
    using nr length_kvaAbs [OF wf] by (auto simp: join_right_def)
  have J: "join_ext ?ls ?rs (unat s) (unat t) = ?ls @ (unat s, unat t) # ?rs"
    using jl jr by (simp add: join_ext_def)
  have nb: "(?ls = [] \<or> snd (last ?ls) \<le> unat s) \<and> (?rs = [] \<or> unat t \<le> fst (hd ?rs))"
    using neighbours_decide_overlap [OF ok st kvaInsertIdx_abs(1) [OF wf] kvaInsertIdx_abs(2) [OF wf]] rel a
    by (simp add: kvaReleasable_def kvaFreeSet_def kvaSpan_def)
  have lr: "?ls @ ?rs = kvaAbs st" by simp
  show thesis
  proof (rule that)
    show "exts_ok (unat (kva_base st)) (unat (kva_end st)) (join_ext ?ls ?rs (unat s) (unat t))"
      using ok nb st rel a lr
      by (intro join_ext_ok) (auto simp: kvaReleasable_def simp del: append_take_drop_id)
    show "cover (join_ext ?ls ?rs (unat s) (unat t)) = kvaFreeSet st \<union> spanSet (va, sz)"
      unfolding kvaFreeSet_def using join_ext_cover [of _ _ ?ls ?rs] ok st lr a
      by (simp add: spanSet_def kvaSpan_def)
    show "length (join_ext ?ls ?rs (unat s) (unat t)) = Suc (kva_count st)"
      unfolding J using idx length_kvaAbs [OF wf] by simp
  qed (rule full)
qed

text \<open>It is never taken for a reservation of the ledger.\<close>

lemma kvaMerge_room:
  assumes wf: "kvaWf st" and L: "ledger_ok spanSet (kvaWhole st) (kvaFreeSet st) L" and hd: "kvaHeld st L"
    and m: "(va, sz) \<in> L" and e: "kvaEntry (va, sz)"
  shows "\<exists>st'. kvaMerge st (kvaInsertIdx st (va - KVA_GUARD_SIZE)) (va - KVA_GUARD_SIZE) (va + sz + KVA_GUARD_SIZE) = Inr st'"
proof (rule ccontr)
  let ?H = "(\<lambda>r. kvaSpan (fst r) (snd r)) ` (L - {(va, sz)})"
  have rel: "kvaReleasable st va sz" by (rule kvaReleasable_ledger [OF wf L m e])
  have nw: "unat sz + 4096 < 2 ^ 64" using e by (simp add: kvaEntry_def)
  assume "\<not> ?thesis"
  then obtain x where "kvaMerge st (kvaInsertIdx st (va - KVA_GUARD_SIZE)) (va - KVA_GUARD_SIZE) (va + sz + KVA_GUARD_SIZE) = Inl x"
    by (metis sum.exhaust)
  from kvaMerge_Inl [OF wf rel nw this] obtain J where
      okJ: "exts_ok (unat (kva_base st)) (unat (kva_end st)) J"
      and covJ: "cover J = kvaFreeSet st \<union> spanSet (va, sz)" and lenJ: "length J = Suc (kva_count st)"
      and full: "KVA_MAX_EXTENTS \<le> kva_count st" .
  have H: "holes ?H = \<Union>(spanSet ` (L - {(va, sz)}))"
    unfolding holes_def spanSet_def by (auto simp: split_beta)
  have "spanSet (va, sz) \<inter> holes ?H = {}" "kvaFreeSet st \<inter> holes ?H = {}"
    unfolding H using L m unfolding ledger_ok_def by blast+
  then have dis: "cover J \<inter> holes ?H = {}" unfolding covJ by blast
  have "\<Union>(spanSet ` L) = spanSet (va, sz) \<union> holes ?H" unfolding H using m by blast
  then have fill: "cover J \<union> holes ?H = {unat (kva_base st)..<unat (kva_end st)}"
    unfolding covJ using L unfolding ledger_ok_def kvaWhole_def by (simp add: Un_assoc)
  have fin: "finite L" "card L = kvaLive st" using hd by (auto simp: kvaHeld_def)
  have "length J \<le> Suc (card ?H)"
    using fin by (intro extents_le_holes [OF okJ _ fill dis]) simp
  also have "\<dots> \<le> Suc (card (L - {(va, sz)}))" using fin by (simp add: card_image_le)
  also have "\<dots> = card L" using fin m by (metis card.remove)
  finally have "Suc (kva_count st) \<le> kvaLive st" using fin lenJ by simp
  with full wf show False by (simp add: kvaWf_def kvaLive_def KVA_MAX_EXTENTS_def)
qed

text \<open>The client's view: a handle is the returned address with the requested size.\<close>

definition kvaReserve :: "KvaState \<Rightarrow> u64 \<Rightarrow> (KvaState \<times> (u64 \<times> u64)) option" where
  "kvaReserve st sz = (case kvaAlloc st sz False of Inr (st', va) \<Rightarrow> Some (st', (va, sz)) | Inl _ \<Rightarrow> None)"

definition kvaUnreserve :: "KvaState \<Rightarrow> u64 \<times> u64 \<Rightarrow> KvaState option" where
  "kvaUnreserve st r = (case kvaFree st (fst r) (snd r) of Inr st' \<Rightarrow> Some st' | Inl _ \<Rightarrow> None)"

lemma kvaReserve_Some:
  "kvaReserve st sz = Some (st', h) \<longleftrightarrow> kvaAlloc st sz False = Inr (st', fst h) \<and> snd h = sz"
  by (cases h) (auto simp: kvaReserve_def split: sum.splits)

lemma kvaUnreserve_Some: "kvaUnreserve st r = Some st' \<longleftrightarrow> kvaFree st (fst r) (snd r) = Inr st'"
  by (auto simp: kvaUnreserve_def split: sum.splits)

interpretation kva: ledger_allocator kvaWf kvaWhole kvaFreeSet kvaHeld kvaEntry spanSet kvaReserve kvaUnreserve
proof (unfold_locales, goal_cases)
  case (1 s q s' h)
  then show ?case using kvaAlloc_effect [of s q False s' "fst h"] by (simp add: kvaReserve_Some kvaWhole_def)
next
  case (2 s q s' h)
  then have a: "kvaAlloc s q False = Inr (s', fst h)" "snd h = q" by (auto simp: kvaReserve_Some)
  from a(1) show ?case
    by (rule kvaAlloc_cases) (use kvaAlloc_effect [OF 2(1) a(1)] a(2) in \<open>simp add: kvaEntry_def\<close>)
next
  case (3 s L h q s')
  then have a: "kvaAlloc s q False = Inr (s', fst h)" by (auto simp: kvaReserve_Some)
  from a have "liveCount s < 511" by (rule kvaAlloc_cases)
  then have "kvaLive s' = Suc (kvaLive s)"
    using kvaAlloc_effect [OF 3(1) a] unat_add_nowrap [of "liveCount s" 1]
    by (simp add: kvaLive_def word_less_nat_alt)
  then show ?case using 3(2,3) by (simp add: kvaHeld_def)
next
  case (4 s q s' h)
  then show ?case using kvaAlloc_effect [of s q False s' "fst h"] by (simp add: kvaReserve_Some spanSet_def)
next
  case (5 h)
  then show ?case by (simp add: spanSet_def kvaSpan_def kvaEntry_def)
next
  case (6 s L h)
  obtain va n where h: "h = (va, n)" by fastforce
  then have e: "kvaEntry (va, n)" and m: "(va, n) \<in> L" using 6 by auto
  then have nw: "unat n + 4096 < 2 ^ 64" by (simp add: kvaEntry_def)
  show ?case
    using kvaMerge_room [OF 6(1,3,2) m e] kvaReleasable_ledger [OF 6(1,3) m e] kvaFree_eq [OF 6(1) nw] h
    by (auto simp: kvaUnreserve_Some)
next
  case (7 s L h s')
  then show ?case using kvaFree_effect [of s "fst h" "snd h" s'] kvaHeld_pos [OF 7(2,3)]
    by (simp add: kvaUnreserve_Some kvaEntry_def kvaLive_def kvaWhole_def)
next
  case (8 s L h s')
  then show ?case using kvaFree_effect [of s "fst h" "snd h" s'] kvaHeld_pos [OF 8(2,3)]
    by (simp add: kvaUnreserve_Some kvaEntry_def kvaLive_def)
next
  case (9 s L h s')
  then show ?case using kvaFree_effect [of s "fst h" "snd h" s'] kvaHeld_pos [OF 9(2,3)]
    by (simp add: kvaUnreserve_Some kvaEntry_def kvaLive_def kvaHeld_def)
qed

section \<open>Initial state\<close>

lemma kvaStateInit_wf:
  assumes "length (extents st) = KVA_MAX_EXTENTS" "unat base < unat end'"
    "4096 dvd unat base" "4096 dvd unat end'"
  shows "kvaAbs (kvaStateInit st base end') = [(unat base, unat end')]"
    and "kvaWf (kvaStateInit st base end')"
    and "kvaFreeSet (kvaStateInit st base end') = kvaWhole (kvaStateInit st base end')"
    and "kvaHeld (kvaStateInit st base end') {}"
proof -
  have "extents st \<noteq> []" using assms(1) by (auto simp: KVA_MAX_EXTENTS_def)
  then show a: "kvaAbs (kvaStateInit st base end') = [(unat base, unat end')]"
    by (cases "extents st") (auto simp: kvaAbs_def kvaStateInit_def ext_nat_def)
  show "kvaWf (kvaStateInit st base end')"
    using assms a by (auto simp: kvaWf_def page_ext_def) (auto simp: kvaStateInit_def KVA_MAX_EXTENTS_def)
  show "kvaFreeSet (kvaStateInit st base end') = kvaWhole (kvaStateInit st base end')"
    unfolding kvaFreeSet_def a by (simp add: kvaWhole_def kvaStateInit_def)
  show "kvaHeld (kvaStateInit st base end') {}" by (simp add: kvaHeld_def kvaLive_def kvaStateInit_def)
qed

text \<open>A concrete instance, used by the witnesses.\<close>

definition kvaDemo :: KvaState where
  "kvaDemo = kvaStateInit \<lparr>kva_base = 0, kva_end = 0,
     extents = replicate KVA_MAX_EXTENTS \<lparr>kx_start = 0, kx_end = 0\<rparr>, kva_count = 0, liveCount = 0\<rparr>
     0x10000 0x100000"

lemma kvaDemo_facts:
  "kvaWf kvaDemo" "kvaAbs kvaDemo = [(0x10000, 0x100000)]" "kva_count kvaDemo = 1"
  "extents kvaDemo ! 0 = \<lparr>kx_start = 0x10000, kx_end = 0x100000\<rparr>" "liveCount kvaDemo = 0"
  "kvaFreeSet kvaDemo = kvaWhole kvaDemo" "kvaHeld kvaDemo {}"
  using kvaStateInit_wf [of "\<lparr>kva_base = 0, kva_end = 0,
     extents = replicate KVA_MAX_EXTENTS \<lparr>kx_start = 0, kx_end = 0\<rparr>, kva_count = 0, liveCount = 0\<rparr>"
     "0x10000" "0x100000"]
  by (simp_all add: kvaDemo_def) (simp_all add: kvaStateInit_def KVA_MAX_EXTENTS_def)

definition kvaDemo1 :: KvaState where
  "kvaDemo1 = \<lparr>kva_base = 0x10000, kva_end = 0x100000,
     extents = \<lparr>kx_start = 0x14000, kx_end = 0x100000\<rparr> # replicate 511 \<lparr>kx_start = 0, kx_end = 0\<rparr>,
     kva_count = 1, liveCount = 1\<rparr>"

definition kvaDemo2 :: KvaState where
  "kvaDemo2 = \<lparr>kva_base = 0x10000, kva_end = 0x100000,
     extents = \<lparr>kx_start = 0x17000, kx_end = 0x100000\<rparr> # replicate 511 \<lparr>kx_start = 0, kx_end = 0\<rparr>,
     kva_count = 1, liveCount = 2\<rparr>"

lemmas kva_eval = KVA_PAGE_SIZE_def KVA_GUARD_SIZE_def KVA_MAX_EXTENTS_def kvaFits_def kvaTake_def
  Let_def kvaAlloc_def kvaFree_def kvaInsertIdx_def kvaMerge_def

lemma kvaDemo_extents:
  "extents kvaDemo = \<lparr>kx_start = 0x10000, kx_end = 0x100000\<rparr> # replicate 511 \<lparr>kx_start = 0, kx_end = 0\<rparr>"
proof -
  have "replicate 512 x = x # replicate 511 x" for x :: KvaExtent
    using replicate_Suc [of 511 x] by (simp del: replicate_Suc)
  then show ?thesis by (simp add: kvaDemo_def kvaStateInit_def KVA_MAX_EXTENTS_def)
qed

lemma kvaDemo_alloc: "kvaAlloc kvaDemo 0x2000 False = Inr (kvaDemo1, 0x11000)"
  by (simp add: kva_eval kvaDemo_facts(3,5) kvaDemo_extents)
     (simp add: kvaDemo_def kvaDemo1_def kvaStateInit_def KVA_MAX_EXTENTS_def)

lemma kvaDemo1_alloc: "kvaAlloc kvaDemo1 0x1000 False = Inr (kvaDemo2, 0x15000)"
  by (simp add: kva_eval kvaDemo1_def kvaDemo2_def word_le_nat_alt)

lemma kvaDemo1_wf: "kvaWf kvaDemo1"
  using kvaAlloc_effect [OF kvaDemo_facts(1) kvaDemo_alloc] by blast

lemma kvaDemo1_free: "\<exists>st'. kvaFree kvaDemo1 0x11000 0x2000 = Inr st'"
  by (simp add: kva_eval kvaDemo1_def)

text \<open>
  The overflow test \<open>end < va\<close> of \<open>kvaFree\<close> misses the size \<open>2^64 - 4096\<close>: there
  \<open>va + size + guard\<close> wraps around to exactly \<open>va\<close>, so a release of nearly the whole address
  space is taken for the release of one page, here out of the middle of a live reservation.
\<close>

lemma kvaFree_overflow_gap:
  "\<exists>st'. kvaFree kvaDemo1 0x12000 0xFFFFFFFFFFFFF000 = Inr st'"
  by (simp add: kva_eval kvaDemo1_def)

section \<open>Properties\<close>

text \<open>
  C1: A successful \<open>kvaAlloc\<close> keeps the table well formed, returns a page-aligned address,
  takes exactly the requested bytes plus one guard page on each side out of the free set (and
  all of them were free), counts one more live reservation, and is first-fit: every free extent
  at a lower address is too small.
\<close>

theorem kvaAlloc_correct:
  assumes "kvaWf st" and "kvaAlloc st sz outNull = Inr (st', va)"
  shows "kvaWf st' \<and> kva_base st' = kva_base st \<and> kva_end st' = kva_end st
     \<and> liveCount st' = liveCount st + 1
     \<and> 4096 \<le> unat va \<and> 4096 dvd unat va
     \<and> {unat va - 4096..<unat va + unat sz + 4096} \<subseteq> kvaFreeSet st
     \<and> kvaFreeSet st' = kvaFreeSet st - {unat va - 4096..<unat va + unat sz + 4096}
     \<and> (\<forall>e \<in> set (kvaAbs st). fst e + 4096 < unat va \<longrightarrow> snd e - fst e < unat sz + 8192)"
  using kvaAlloc_effect [OF assms] by (simp add: kvaSpan_def)

theorem kvaAlloc_correct_witness:
  "kvaWf kvaDemo1 \<and> kvaFreeSet kvaDemo1 = kvaFreeSet kvaDemo - {0x10000..<0x14000}"
  using kvaAlloc_correct [OF kvaDemo_facts(1) kvaDemo_alloc] by simp

lemma cover_interval:
  assumes "exts_ok lo hi es" "{x..<x + Suc n} \<subseteq> cover es"
  shows "\<exists>(a, b) \<in> set es. a \<le> x \<and> x + Suc n \<le> b"
  using assms
proof (induction lo hi es rule: exts_ok.induct)
  case (1 lo hi)
  then show ?case by simp
next
  case (2 lo hi a b es)
  have rest: "\<And>y. y \<in> cover es \<Longrightarrow> b < y" using "2.prems"(1) exts_ok_cover_lo by fastforce
  show ?case
  proof (cases "x < b")
    case True
    have "x \<in> cover ((a, b) # es)" using "2.prems"(2) by fastforce
    then have "a \<le> x" using True rest by fastforce
    moreover have "x + Suc n \<le> b"
    proof (rule ccontr)
      assume "\<not> x + Suc n \<le> b"
      then have "b \<in> {x..<x + Suc n}" using True by simp
      then have "b \<in> cover ((a, b) # es)" using "2.prems"(2) by blast
      then show False using rest by fastforce
    qed
    ultimately show ?thesis by auto
  next
    case False
    then have "{x..<x + Suc n} \<inter> {a..<b} = {}" by auto
    then have "{x..<x + Suc n} \<subseteq> cover es" using "2.prems"(2) by auto
    then show ?thesis using "2.IH" "2.prems"(1) by auto
  qed
qed

text \<open>
  C6: \<open>kvaAlloc\<close> of a valid size reports out of memory exactly when the admission cap of 511
  live reservations is reached or no run of free addresses is long enough for the request and
  its guards; in every other case it succeeds.
\<close>

theorem kvaAlloc_no_memory_iff:
  assumes wf: "kvaWf st" and sz: "kvaSizeOk sz" and nw: "unat sz + 8192 < 2 ^ 64"
  shows "(kvaAlloc st sz False = Inl STATUS_ERR_NO_MEMORY
           \<longleftrightarrow> unat (liveCount st) = 511 \<or> (\<forall>x. \<not> {x..<x + (unat sz + 8192)} \<subseteq> kvaFreeSet st))
         \<and> kvaAlloc st sz False \<noteq> Inl STATUS_ERR_INVALID"
proof -
  let ?need = "sz + 2 * KVA_GUARD_SIZE"
  have need: "unat ?need = unat sz + 8192" by (rule kva_need_unat [OF nw])
  have ok: "exts_ok (unat (kva_base st)) (unat (kva_end st)) (kvaAbs st)" using wf by (simp add: kvaWf_def)
  have lv: "liveCount st \<ge> of_nat (KVA_MAX_EXTENTS - 1) \<longleftrightarrow> unat (liveCount st) = 511"
    using wf by (auto simp: KVA_MAX_EXTENTS_def kvaWf_def word_le_nat_alt)
  have eq: "kvaAlloc st sz False =
      (if unat (liveCount st) = 511 then Inl STATUS_ERR_NO_MEMORY
       else case find (kvaFits st ?need) [0..<kva_count st] of
               Some i \<Rightarrow> Inr (kvaTake st ?need i) | None \<Rightarrow> Inl STATUS_ERR_NO_MEMORY)"
    using sz nw kva_sz_guard [of sz] kva_need_guard [of sz] unfolding kvaAlloc_def Let_def lv by auto
  have "(\<exists>i < kva_count st. kvaFits st ?need i) \<longleftrightarrow> (\<exists>x. {x..<x + (unat sz + 8192)} \<subseteq> kvaFreeSet st)"
  proof
    assume "\<exists>i < kva_count st. kvaFits st ?need i"
    then obtain i where i: "i < kva_count st" "kvaFits st ?need i" by blast
    obtain a b where ab: "kvaAbs st ! i = (a, b)" by fastforce
    then have "a + (unat sz + 8192) \<le> b" using kvaFits_iff [OF wf i(1)] i(2) need by simp
    moreover have "(a, b) \<in> set (kvaAbs st)" using ab i(1) length_kvaAbs [OF wf] by (metis nth_mem)
    ultimately have "{a..<a + (unat sz + 8192)} \<subseteq> kvaFreeSet st"
      unfolding kvaFreeSet_def cover_def by fastforce
    then show "\<exists>x. {x..<x + (unat sz + 8192)} \<subseteq> kvaFreeSet st" ..
  next
    assume "\<exists>x. {x..<x + (unat sz + 8192)} \<subseteq> kvaFreeSet st"
    then obtain x where "{x..<x + (unat sz + 8192)} \<subseteq> cover (kvaAbs st)"
      unfolding kvaFreeSet_def by blast
    moreover have "unat sz + 8192 = Suc (unat sz + 8191)" by simp
    ultimately have "{x..<x + Suc (unat sz + 8191)} \<subseteq> cover (kvaAbs st)" by simp
    from cover_interval [OF ok this] obtain a b where
      "(a, b) \<in> set (kvaAbs st)" "a \<le> x" "x + Suc (unat sz + 8191) \<le> b" by blast
    then obtain i where "i < kva_count st" "kvaAbs st ! i = (a, b)" "a + (unat sz + 8192) \<le> b"
      by (auto simp: in_set_conv_nth length_kvaAbs [OF wf])
    then show "\<exists>i < kva_count st. kvaFits st ?need i" using kvaFits_iff [OF wf] need by auto
  qed
  then show ?thesis unfolding eq by (auto simp: find_None_iff split: option.splits dest: find_SomeE)
qed

theorem kvaAlloc_no_memory_iff_witness:
  "kvaAlloc kvaDemo 0x200000 False = Inl STATUS_ERR_NO_MEMORY"
proof -
  have "\<not> {x..<x + (unat (0x200000 :: u64) + 8192)} \<subseteq> kvaFreeSet kvaDemo" for x
    by (simp add: kvaFreeSet_def kvaDemo_facts atLeastLessThan_subset_iff)
  then show ?thesis
    using kvaAlloc_no_memory_iff [OF kvaDemo_facts(1), of "0x200000"] by (simp add: kvaSizeOk_def)
qed

text \<open>
  C2: In every well-formed state, \<open>kvaFree\<close> accepts a release exactly when the size is a positive
  multiple of the page size, the address is not below the first guard page, and the released addresses
  lie inside the bounds and meet no free extent (so a double free is refused); the only other
  refusal is a full table, and every refusal is \<open>STATUS_ERR_INVALID\<close>. An accepted release adds exactly
  the released addresses to the free set, leaves the table sorted and coalesced inside the unchanged
  bounds, and counts one live reservation fewer (as a 32-bit counter); if the address is page-aligned
  and a reservation was counted, the state is well formed again. The released addresses are the
  usable bytes with both guard pages, except for the size \<open>2^64 - 4096\<close>: there the overflow test misses
  the wrap-around, and the code releases the single page below the address.
\<close>

theorem kvaFree_correct:
  assumes wf: "kvaWf st"
  shows "case kvaFree st va sz of
      Inl err \<Rightarrow> err = STATUS_ERR_INVALID
        \<and> (\<not> (kvaSizeOk sz \<and> 4096 \<le> unat va \<and> kvaReleased va sz \<subseteq> kvaWhole st \<and> kvaFreeSet st \<inter> kvaReleased va sz = {})
           \<or> kva_count st = KVA_MAX_EXTENTS)
    | Inr st' \<Rightarrow> kvaSizeOk sz \<and> 4096 \<le> unat va \<and> kvaReleased va sz \<subseteq> kvaWhole st \<and> kvaFreeSet st \<inter> kvaReleased va sz = {}
        \<and> kvaFreeSet st' = kvaFreeSet st \<union> kvaReleased va sz
        \<and> exts_ok (unat (kva_base st)) (unat (kva_end st)) (kvaAbs st')
        \<and> kva_base st' = kva_base st \<and> kva_end st' = kva_end st \<and> liveCount st' = liveCount st - 1
        \<and> (4096 dvd unat va \<and> 0 < liveCount st \<longrightarrow> kvaWf st')"
proof (cases "kvaFree st va sz")
  case (Inl err)
  have "x = STATUS_ERR_INVALID \<and> kva_count st = KVA_MAX_EXTENTS" if "kvaMerge st i s t = Inl x" for x i s t
    using that wf by (auto simp: kvaMerge_def Let_def kvaWf_def split: if_splits)
  then have "err = STATUS_ERR_INVALID \<and> (\<not> kvaAccepts st va sz \<or> kva_count st = KVA_MAX_EXTENTS)"
    using Inl unfolding kvaFree_total [OF wf] by (auto split: if_splits sum.splits)
  then show ?thesis by (auto simp: Inl kvaAccepts_def)
next
  case (Inr st')
  let ?s = "va - KVA_GUARD_SIZE" and ?t = "va + sz + KVA_GUARD_SIZE"
  obtain st1 where a: "kvaAccepts st va sz" and m: "kvaMerge st (kvaInsertIdx st ?s) ?s ?t = Inr st1"
      and st': "st' = st1\<lparr>liveCount := liveCount st1 - 1\<rparr>"
    using Inr unfolding kvaFree_total [OF wf] by (auto split: if_splits sum.splits)
  have g: "kvaSizeOk sz" "4096 \<le> unat va" and r: "kvaReleased va sz \<subseteq> kvaWhole st" "kvaFreeSet st \<inter> kvaReleased va sz = {}"
    using a by (simp_all add: kvaAccepts_def)
  note E = kva_release_end [OF g]
  have w: "\<not> ?t < va" using E(1) r(1) by blast
  note I = kvaMerge_interval [OF wf E(3) [OF w] r [unfolded E(2) [OF w]] m]
  note M = kvaMerge_abs [OF wf kvaInsertIdx_abs(3) [OF wf] m]
  have "kvaWf st'" if al: "4096 dvd unat va" and lv: "0 < liveCount st"
  proof -
    have "unat ?s = unat va - 4096" using g(2) unat_sub_le [of 4096 va] by (simp add: KVA_GUARD_SIZE_def)
    then have w1: "kvaWf st1" using I(3) E(4) [OF w al] al by simp
    have "unat (liveCount st - 1) = unat (liveCount st) - 1"
      using lv unat_sub_le [of 1 "liveCount st"] by (simp add: word_less_nat_alt)
    moreover have "unat (liveCount st) - 1 \<le> KVA_MAX_EXTENTS - 1" using wf unfolding kvaWf_def by linarith
    moreover have "liveCount st1 = liveCount st" using M by blast
    ultimately show ?thesis using w1 by (simp add: kvaWf_def st')
  qed
  moreover have "kvaFreeSet st' = kvaFreeSet st \<union> kvaReleased va sz" using I(2) E(2) [OF w] by (simp add: st' kvaFreeSet_def)
  ultimately show ?thesis using g r I(1) M by (simp add: Inr st')
qed

theorem kvaFree_correct_witness:
  "(\<exists>st'. kvaFree kvaDemo1 0x11000 0x2000 = Inr st' \<and> kvaWf st'
      \<and> kvaFreeSet st' = kvaFreeSet kvaDemo1 \<union> {0x10000..<0x14000})
   \<and> (\<exists>st'. kvaFree kvaDemo1 0x12000 0xFFFFFFFFFFFFF000 = Inr st'
      \<and> kvaFreeSet st' = kvaFreeSet kvaDemo1 \<union> {0x11000..<0x12000})"
proof -
  obtain st1 st2 where f: "kvaFree kvaDemo1 0x11000 0x2000 = Inr st1" "kvaFree kvaDemo1 0x12000 0xFFFFFFFFFFFFF000 = Inr st2"
    using kvaDemo1_free kvaFree_overflow_gap by blast
  have l: "0 < liveCount kvaDemo1" by (simp add: kvaDemo1_def)
  show ?thesis
    using kvaFree_correct [OF kvaDemo1_wf, of "0x2000" "0x11000"] kvaFree_correct [OF kvaDemo1_wf, of "0xFFFFFFFFFFFFF000" "0x12000"]
    by (simp add: f l kvaReleased_def)
qed

lemma kvaFree_undo:
  assumes wf: "kvaWf st" and a: "kvaAlloc st sz False = Inr (st1, va)"
  shows "\<exists>st2. kvaFree st1 va sz = Inr st2 \<and> kvaWf st2 \<and> kvaAbs st2 = kvaAbs st \<and> liveCount st2 = liveCount st
    \<and> kva_base st2 = kva_base st \<and> kva_end st2 = kva_end st"
proof -
  from a have nw: "unat sz + 4096 < 2 ^ 64" and sz: "kvaSizeOk sz" and l: "liveCount st < 511"
    by (auto elim: kvaAlloc_cases)
  note E = kvaAlloc_effect [OF wf a]
  have span: "spanSet (va, sz) \<subseteq> kvaFreeSet st" "kvaFreeSet st1 = kvaFreeSet st - spanSet (va, sz)"
    using E by (auto simp: spanSet_def)
  have ok: "exts_ok (unat (kva_base st)) (unat (kva_end st)) (kvaAbs st)" using wf by (simp add: kvaWf_def)
  have "spanSet (va, sz) \<subseteq> kvaWhole st"
    using span(1) exts_ok_cover_lo [OF ok] by (auto simp: kvaFreeSet_def kvaWhole_def)
  then have rel: "kvaReleasable st1 va sz"
    using E span sz by (auto simp: kvaReleasable_def kvaWhole_def spanSet_def kvaSpan_def)
  have canon: "J = kvaAbs st"
    if "exts_ok (unat (kva_base st1)) (unat (kva_end st1)) J" "cover J = kvaFreeSet st1 \<union> spanSet (va, sz)" for J
    using that span E by (intro exts_ok_canonical [OF _ ok]) (auto simp: kvaFreeSet_def)
  let ?s = "va - KVA_GUARD_SIZE"
  have wf1: "kvaWf st1" using E by blast
  obtain st2 where f: "kvaFree st1 va sz = Inr st2"
  proof (cases "kvaMerge st1 (kvaInsertIdx st1 ?s) ?s (va + sz + KVA_GUARD_SIZE)")
    case (Inl x)
    from kvaMerge_Inl [OF wf1 rel nw Inl] canon have "Suc (kva_count st1) = length (kvaAbs st)"
      "KVA_MAX_EXTENTS \<le> kva_count st1" by metis+
    then have False using wf length_kvaAbs [OF wf] by (simp add: kvaWf_def)
    then show thesis ..
  next
    case (Inr st2)
    then show thesis using that rel kvaFree_eq [OF wf1 nw] by auto
  qed
  have "unat (liveCount st1) = Suc (unat (liveCount st))"
    using E l unat_add_nowrap [of "liveCount st" 1] by (simp add: word_less_nat_alt)
  then have "kvaWf st2 \<and> unat (liveCount st2) = unat (liveCount st) \<and> kvaAbs st2 = kvaAbs st \<and> kva_base st2 = kva_base st \<and> kva_end st2 = kva_end st"
    using kvaFree_effect [OF wf1 f nw] E canon [of "kvaAbs st2"] by (auto simp: kvaWf_def kvaFreeSet_def)
  then show ?thesis using f by auto
qed

text \<open>
  C3: Allocation followed by release of the same range is the identity on the table: the
  release succeeds and the free extents are, as a list, what they were before.
\<close>

theorem kva_alloc_free_roundtrip:
  assumes "kvaWf st" and "kvaAlloc st sz False = Inr (st1, va)"
  shows "\<exists>st2. kvaFree st1 va sz = Inr st2 \<and> kvaAbs st2 = kvaAbs st \<and> liveCount st2 = liveCount st"
  using kvaFree_undo [OF assms] by blast

theorem kva_alloc_free_roundtrip_witness:
  "\<exists>st2. kvaFree kvaDemo1 0x11000 0x2000 = Inr st2 \<and> kvaAbs st2 = [(0x10000, 0x100000)]"
  using kva_alloc_free_roundtrip [OF kvaDemo_facts(1) kvaDemo_alloc] by (auto simp: kvaDemo_facts)

text \<open>
  C4: However allocations and releases are interleaved from a fresh state, every reservation a
  client holds (guard pages included) stays inside the allocator's bounds, meets no free extent and
  overlaps no other reservation held.
\<close>

theorem kva_live_disjoint:
  assumes "length (extents st) = KVA_MAX_EXTENTS" "unat base < unat end'"
    and "4096 dvd unat base" "4096 dvd unat end'"
    and "kva.reach (kvaStateInit st base end') s L" and "x \<in> L"
  shows "spanSet x \<subseteq> {unat base..<unat end'} \<and> spanSet x \<inter> kvaFreeSet s = {}
     \<and> (\<forall>y \<in> L. y \<noteq> x \<longrightarrow> spanSet x \<inter> spanSet y = {})"
  using kva.reach_disjoint [OF assms(5) kvaStateInit_wf(2-4) [OF assms(1-4)] assms(6)]
  by (simp add: kvaWhole_def kvaStateInit_def)

lemma kvaDemo_reach: "kva.reach kvaDemo kvaDemo2 {(0x11000, 0x2000), (0x15000, 0x1000)}"
proof -
  have "kvaReserve kvaDemo 0x2000 = Some (kvaDemo1, (0x11000, 0x2000))"
    "kvaReserve kvaDemo1 0x1000 = Some (kvaDemo2, (0x15000, 0x1000))"
    by (simp_all add: kvaReserve_Some kvaDemo_alloc kvaDemo1_alloc)
  from kva.reach.take [OF kva.reach.take [OF kva.reach.start this(1)] this(2)]
  show ?thesis by (simp add: insert_commute)
qed

theorem kva_live_disjoint_witness:
  "spanSet (0x11000, 0x2000) \<subseteq> {0x10000..<0x100000} \<and> spanSet (0x11000, 0x2000) \<inter> kvaFreeSet kvaDemo2 = {}
     \<and> spanSet (0x11000, 0x2000) \<inter> spanSet (0x15000, 0x1000) = {}"
  using kva_live_disjoint [OF _ _ _ _ kvaDemo_reach [unfolded kvaDemo_def], of "(0x11000, 0x2000)"]
  by simp

text \<open>
  C5: From a fresh state, releasing a reservation that is still held always succeeds: the
  admission cap on live reservations makes the table large enough, so the table-full branch of
  \<open>kvaFree\<close> is never reached.
\<close>

theorem kva_release_succeeds:
  assumes "length (extents st) = KVA_MAX_EXTENTS" "unat base < unat end'"
    and "4096 dvd unat base" "4096 dvd unat end'"
    and "kva.reach (kvaStateInit st base end') s L" and "(va, sz) \<in> L"
  shows "\<exists>s'. kvaFree s va sz = Inr s'"
  using kva.reach_release [OF assms(5) kvaStateInit_wf(2-4) [OF assms(1-4)] assms(6)]
  by (auto simp: kvaUnreserve_Some)

theorem kva_release_succeeds_witness:
  "\<exists>s'. kvaFree kvaDemo2 0x11000 0x2000 = Inr s'"
  using kva_release_succeeds [OF _ _ _ _ kvaDemo_reach [unfolded kvaDemo_def], of "0x11000" "0x2000"]
  by simp

end
