(* ===== verification/Page_Table.thy ===== *)
theory Page_Table
  imports Prelude "HOL-Library.Sublist"
begin

text \<open>
  Four-level page tables as a radix tree: the entry bits of \<open>kernel/arch/x86_64/include/pte.h\<close>, the
  walk from a root table along a list of indices, and what one entry write does to every walk. The
  tables are a function from a table's physical address and an index to the entry. The tree is well
  formed when every table is reached along one path only; a write then changes the walks through the
  written slot and no others.
\<close>

section \<open>Entries\<close>

definition X86_PTE_P :: u64 where "X86_PTE_P = 1"
definition X86_PTE_W :: u64 where "X86_PTE_W = 2"
definition X86_PTE_US :: u64 where "X86_PTE_US = 4"
definition X86_PTE_PWT :: u64 where "X86_PTE_PWT = 8"
definition X86_PTE_PCD :: u64 where "X86_PTE_PCD = 16"
definition X86_PTE_PS :: u64 where "X86_PTE_PS = 128"
definition X86_PTE_G :: u64 where "X86_PTE_G = 256"
definition X86_PTE_NX :: u64 where "X86_PTE_NX = 0x8000000000000000"
definition X86_PTE_ADDR_MASK :: u64 where "X86_PTE_ADDR_MASK = 0x000FFFFFFFFFF000"
definition X86_PTE_SIZE_4K :: u64 where "X86_PTE_SIZE_4K = 0x1000"
definition X86_PTE_SIZE_2M :: u64 where "X86_PTE_SIZE_2M = 0x200000"
definition X86_PTE_SIZE_1G :: u64 where "X86_PTE_SIZE_1G = 0x40000000"

lemmas pte_consts = X86_PTE_P_def X86_PTE_W_def X86_PTE_US_def X86_PTE_PWT_def X86_PTE_PCD_def X86_PTE_PS_def X86_PTE_G_def
  X86_PTE_NX_def X86_PTE_ADDR_MASK_def X86_PTE_SIZE_4K_def X86_PTE_SIZE_2M_def X86_PTE_SIZE_1G_def

text \<open>The test \<^verbatim>\<open>entry & flag\<close>.\<close>

definition has :: "u64 \<Rightarrow> u64 \<Rightarrow> bool" where
  "has e f \<longleftrightarrow> e AND f \<noteq> 0"

lemma has_0 [simp]: "\<not> has 0 f"
  by (simp add: has_def)

lemma has_bit:
  "has e X86_PTE_P \<longleftrightarrow> bit e 0" "has e X86_PTE_W \<longleftrightarrow> bit e 1" "has e X86_PTE_US \<longleftrightarrow> bit e 2" "has e X86_PTE_PWT \<longleftrightarrow> bit e 3"
  "has e X86_PTE_PCD \<longleftrightarrow> bit e 4" "has e X86_PTE_PS \<longleftrightarrow> bit e 7" "has e X86_PTE_G \<longleftrightarrow> bit e 8" "has e X86_PTE_NX \<longleftrightarrow> bit e 63"
proof -
  have h: "has e (2 ^ n) \<longleftrightarrow> bit e n" for n
    by (simp add: has_def and_exp_eq_0_iff_not_bit)
  show "has e X86_PTE_P \<longleftrightarrow> bit e 0" "has e X86_PTE_W \<longleftrightarrow> bit e 1" "has e X86_PTE_US \<longleftrightarrow> bit e 2" "has e X86_PTE_PWT \<longleftrightarrow> bit e 3"
    "has e X86_PTE_PCD \<longleftrightarrow> bit e 4" "has e X86_PTE_PS \<longleftrightarrow> bit e 7" "has e X86_PTE_G \<longleftrightarrow> bit e 8" "has e X86_PTE_NX \<longleftrightarrow> bit e 63"
    using h [of 0] h [of 1] h [of 2] h [of 3] h [of 4] h [of 7] h [of 8] h [of 63] by (simp_all add: pte_consts)
qed

lemma addr_mask_bit: "bit X86_PTE_ADDR_MASK n \<longleftrightarrow> 12 \<le> n \<and> n < 52"
proof -
  have m: "X86_PTE_ADDR_MASK = push_bit 12 (mask 40)" by (simp add: X86_PTE_ADDR_MASK_def mask_eq_exp_minus_1)
  show ?thesis unfolding m by (auto simp: bit_push_bit_iff bit_mask_iff)
qed

lemma unat_bit_lt: "unat (x :: u64) < 2 ^ n \<Longrightarrow> bit x k \<Longrightarrow> k < n"
  by (metis bit_take_bit_iff take_bit_nat_eq_self_iff unsigned_take_bit_eq unat_inj)

lemma page_aligned_bit: "4096 dvd unat (x :: u64) \<Longrightarrow> k < 12 \<Longrightarrow> \<not> bit x k"
proof -
  assume a: "4096 dvd unat x" "k < 12"
  have "take_bit 12 (unat x) = 0" using a(1) by (simp add: take_bit_eq_mod)
  then have "take_bit 12 x = 0" by (metis unsigned_take_bit_eq unat_eq_zero)
  then show "\<not> bit x k" using a(2) by (metis bit_0_eq bit_take_bit_iff bot_apply bot_bool_def)
qed

lemma addr_mask_id: "4096 dvd unat (x :: u64) \<Longrightarrow> unat x < 2 ^ 52 \<Longrightarrow> x AND X86_PTE_ADDR_MASK = x"
proof (rule bit_word_eqI)
  fix k assume a: "4096 dvd unat x" "unat x < 2 ^ 52" "k < LENGTH(64)"
  show "bit (x AND X86_PTE_ADDR_MASK) k = bit x k"
    using page_aligned_bit [OF a(1), of k] unat_bit_lt [OF a(2), of k] by (cases "k < 12") (auto simp: bit_and_iff addr_mask_bit)
qed

section \<open>Walks\<close>

type_synonym tabs = "u64 \<Rightarrow> nat \<Rightarrow> u64"

text \<open>
  \<open>tbl\<close> follows indices through pointer entries to a table; \<open>look\<close> follows them to a leaf of any size,
  the last index reading an entry of the lowest level, where bit 7 has another meaning.
\<close>

fun tbl :: "tabs \<Rightarrow> u64 \<Rightarrow> nat list \<Rightarrow> u64 option" where
  "tbl E t [] = Some t"
| "tbl E t (i # is) =
     (if has (E t i) X86_PTE_P \<and> \<not> has (E t i) X86_PTE_PS then tbl E (E t i AND X86_PTE_ADDR_MASK) is else None)"

fun look :: "tabs \<Rightarrow> u64 \<Rightarrow> nat list \<Rightarrow> u64 option" where
  "look E t [] = None"
| "look E t [i] = (if has (E t i) X86_PTE_P then Some (E t i) else None)"
| "look E t (i # j # is) =
     (if \<not> has (E t i) X86_PTE_P then None
      else if has (E t i) X86_PTE_PS then Some (E t i)
      else look E (E t i AND X86_PTE_ADDR_MASK) (j # is))"

lemma tbl_append: "tbl E t (p @ q) = (case tbl E t p of None \<Rightarrow> None | Some t' \<Rightarrow> tbl E t' q)"
  by (induction E t p rule: tbl.induct) auto

lemma look_append: "tbl E t p = Some t' \<Longrightarrow> q \<noteq> [] \<Longrightarrow> look E t (p @ q) = look E t' q"
proof (induction p arbitrary: t)
  case (Cons i p)
  then have "has (E t i) X86_PTE_P" "\<not> has (E t i) X86_PTE_PS" "tbl E (E t i AND X86_PTE_ADDR_MASK) p = Some t'"
    by (auto split: if_splits)
  moreover obtain j r where "p @ q = j # r" using Cons.prems(2) by (cases "p @ q") auto
  ultimately show ?case using Cons.IH [of "E t i AND X86_PTE_ADDR_MASK"] Cons.prems(2) by simp
qed simp

lemma tbl_cong:
  "(\<And>q j r t'. p = q @ j # r \<Longrightarrow> tbl E t q = Some t' \<Longrightarrow> E' t' j = E t' j) \<Longrightarrow> tbl E' t p = tbl E t p"
proof (induction p arbitrary: t)
  case (Cons i p)
  have e: "E' t i = E t i" using Cons.prems [of "[]" i p t] by simp
  show ?case
  proof (cases "has (E t i) X86_PTE_P \<and> \<not> has (E t i) X86_PTE_PS")
    case True
    have "tbl E' (E t i AND X86_PTE_ADDR_MASK) p = tbl E (E t i AND X86_PTE_ADDR_MASK) p"
    proof (rule Cons.IH)
      fix q j r t' assume "p = q @ j # r" "tbl E (E t i AND X86_PTE_ADDR_MASK) q = Some t'"
      then show "E' t' j = E t' j" using Cons.prems [of "i # q" j r t'] True by simp
    qed
    then show ?thesis using e True by simp
  qed (auto simp: e)
qed simp

lemma look_cong:
  "(\<And>q j r t'. p = q @ j # r \<Longrightarrow> tbl E t q = Some t' \<Longrightarrow> E' t' j = E t' j) \<Longrightarrow> look E' t p = look E t p"
proof (induction p arbitrary: t)
  case (Cons i p)
  have e: "E' t i = E t i" using Cons.prems [of "[]" i p t] by simp
  show ?case
  proof (cases "p = []")
    case True
    then show ?thesis by (simp add: e)
  next
    case False
    then obtain j p' where p: "p = j # p'" by (cases p) auto
    have "look E' (E t i AND X86_PTE_ADDR_MASK) p = look E (E t i AND X86_PTE_ADDR_MASK) p"
      if h: "has (E t i) X86_PTE_P" "\<not> has (E t i) X86_PTE_PS"
    proof (rule Cons.IH)
      fix q k r t' assume "p = q @ k # r" "tbl E (E t i AND X86_PTE_ADDR_MASK) q = Some t'"
      then show "E' t' k = E t' k" using Cons.prems [of "i # q" k r t'] h by simp
    qed
    then show ?thesis by (simp add: e p)
  qed
qed simp

section \<open>Well-formed trees\<close>

text \<open>The paths of tables: up to three indices, each below 512; a full path has four.\<close>

definition tpath :: "nat list \<Rightarrow> bool" where
  "tpath p \<longleftrightarrow> length p \<le> 3 \<and> (\<forall>i \<in> set p. i < 512)"

definition fpath :: "nat list \<Rightarrow> bool" where
  "fpath p \<longleftrightarrow> length p = 4 \<and> (\<forall>i \<in> set p. i < 512)"

lemma tpath_prefix: "tpath (p @ q) \<Longrightarrow> tpath p"
  by (auto simp: tpath_def)

lemma fpath_prefix: "fpath (p @ i # q) \<Longrightarrow> tpath p \<and> i < 512"
  by (auto simp: tpath_def fpath_def)

text \<open>
  Every table is acceptable (\<open>ok\<close>), is reached along one path only, and the top level holds no large
  leaf.
\<close>

definition treeOk :: "tabs \<Rightarrow> u64 \<Rightarrow> (u64 \<Rightarrow> bool) \<Rightarrow> bool" where
  "treeOk E root ok \<longleftrightarrow>
     (\<forall>p t. tpath p \<longrightarrow> tbl E root p = Some t \<longrightarrow> ok t)
     \<and> (\<forall>p q t. tpath p \<longrightarrow> tpath q \<longrightarrow> tbl E root p = Some t \<longrightarrow> tbl E root q = Some t \<longrightarrow> p = q)
     \<and> (\<forall>i < 512. has (E root i) X86_PTE_P \<longrightarrow> \<not> has (E root i) X86_PTE_PS)"

lemma treeOkD:
  assumes "treeOk E root ok"
  shows "\<And>p t. tpath p \<Longrightarrow> tbl E root p = Some t \<Longrightarrow> ok t"
    and "\<And>p q t. tpath p \<Longrightarrow> tpath q \<Longrightarrow> tbl E root p = Some t \<Longrightarrow> tbl E root q = Some t \<Longrightarrow> p = q"
    and "\<And>i. i < 512 \<Longrightarrow> has (E root i) X86_PTE_P \<Longrightarrow> \<not> has (E root i) X86_PTE_PS"
  using assms unfolding treeOk_def by blast+

section \<open>Writing one slot\<close>

text \<open>
  \<open>E'\<close> is \<open>E\<close> with \<open>v\<close> in slot \<open>i\<close> of table \<open>t\<close>, as far as acceptable tables go; walks that do not go
  through the slot are as before.
\<close>

definition slotUpd :: "(u64 \<Rightarrow> bool) \<Rightarrow> tabs \<Rightarrow> u64 \<Rightarrow> nat \<Rightarrow> u64 \<Rightarrow> tabs \<Rightarrow> bool" where
  "slotUpd ok E t i v E' \<longleftrightarrow> (\<forall>t' j. ok t' \<longrightarrow> j < 512 \<longrightarrow> E' t' j = (if t' = t \<and> j = i then v else E t' j))"

lemma slot_other:
  assumes w: "treeOk E root ok" and u: "slotUpd ok E t i v E'" and p: "tpath p" "tbl E root p = Some t"
    and q: "\<not> prefix (p @ [i]) q"
  shows "tpath q \<Longrightarrow> tbl E' root q = tbl E root q" and "fpath q \<Longrightarrow> look E' root q = look E root q"
proof -
  have same: "E' t' j = E t' j" if "q = a @ j # r" "tbl E root a = Some t'" "tpath a" "j < 512" for a j r t'
  proof -
    have "t' \<noteq> t \<or> j \<noteq> i" using treeOkD(2) [OF w that(3) p(1) that(2)] p(2) that(1) q by auto
    then show ?thesis using u that(4) treeOkD(1) [OF w that(3,2)] unfolding slotUpd_def by auto
  qed
  show "tbl E' root q = tbl E root q" if t: "tpath q"
  proof (rule tbl_cong)
    fix a j r t' assume h: "q = a @ j # r" "tbl E root a = Some t'"
    then show "E' t' j = E t' j" using t by (intro same) (auto simp: tpath_def)
  qed
  show "look E' root q = look E root q" if f: "fpath q"
  proof (rule look_cong)
    fix a j r t' assume h: "q = a @ j # r" "tbl E root a = Some t'"
    then show "E' t' j = E t' j" using f fpath_prefix [of a j r] by (intro same) auto
  qed
qed

lemma slot_self:
  assumes w: "treeOk E root ok" and u: "slotUpd ok E t i v E'" and p: "tpath p" "tbl E root p = Some t" "i < 512"
  shows "tbl E' root p = Some t" and "E' t i = v"
    and "tbl E' root (p @ i # r) = (if has v X86_PTE_P \<and> \<not> has v X86_PTE_PS then tbl E' (v AND X86_PTE_ADDR_MASK) r else None)"
    and "look E' root (p @ i # r)
      = (if \<not> has v X86_PTE_P then None else if r = [] \<or> has v X86_PTE_PS then Some v else look E' (v AND X86_PTE_ADDR_MASK) r)"
proof -
  have "\<not> prefix (p @ [i]) p" using prefix_length_le [of "p @ [i]" p] by auto
  then show t: "tbl E' root p = Some t" using slot_other(1) [OF w u p(1,2) _ p(1)] p(2) by simp
  show e: "E' t i = v" using u treeOkD(1) [OF w p(1,2)] p(3) by (simp add: slotUpd_def)
  show "tbl E' root (p @ i # r) = (if has v X86_PTE_P \<and> \<not> has v X86_PTE_PS then tbl E' (v AND X86_PTE_ADDR_MASK) r else None)"
    by (simp add: tbl_append t e)
  show "look E' root (p @ i # r)
      = (if \<not> has v X86_PTE_P then None else if r = [] \<or> has v X86_PTE_PS then Some v else look E' (v AND X86_PTE_ADDR_MASK) r)"
    by (cases r) (auto simp: look_append [OF t] e)
qed

text \<open>Writing an entry that is no table pointer over an entry that is none: no table appears or goes.\<close>

lemma slot_leaf:
  assumes w: "treeOk E root ok" and u: "slotUpd ok E t i v E'" and p: "tpath p" "tbl E root p = Some t" "i < 512"
    and old: "length p = 3 \<or> \<not> has (E t i) X86_PTE_P"
    and new: "length p = 3 \<or> (0 < length p \<and> has v X86_PTE_PS)"
  shows "tpath q \<Longrightarrow> tbl E' root q = tbl E root q" and "treeOk E' root ok"
    and "fpath q \<Longrightarrow> look E' root q = (if prefix (p @ [i]) q then (if has v X86_PTE_P then Some v else None) else look E root q)"
proof -
  have tb: "tbl E' root q = tbl E root q" if q: "tpath q" for q
  proof (cases "prefix (p @ [i]) q")
    case False
    then show ?thesis by (rule slot_other(1) [OF w u p(1,2) _ q])
  next
    case True
    then obtain r where r: "q = p @ i # r" by (auto elim: prefixE)
    then have l: "length p < 3" using q by (simp add: tpath_def)
    then have "tbl E root q = None" using old by (simp add: r tbl_append p(2))
    then show ?thesis using slot_self(3) [OF w u p, of r] new l by (simp add: r)
  qed
  then show "tpath q \<Longrightarrow> tbl E' root q = tbl E root q" .
  have "\<not> has (E' root j) X86_PTE_PS" if "j < 512" "has (E' root j) X86_PTE_P" for j
  proof -
    have rt: "tpath []" "tbl E root [] = Some root" by (simp_all add: tpath_def)
    have "t \<noteq> root" using treeOkD(2) [OF w p(1) rt(1) p(2)] new by auto
    then have "E' root j = E root j" using u that(1) treeOkD(1) [OF w rt] by (auto simp: slotUpd_def)
    then show ?thesis using treeOkD(3) [OF w that(1)] that(2) by simp
  qed
  then show "treeOk E' root ok" unfolding treeOk_def using tb treeOkD(1,2) [OF w] by metis
  show "look E' root q = (if prefix (p @ [i]) q then (if has v X86_PTE_P then Some v else None) else look E root q)" if q: "fpath q"
  proof (cases "prefix (p @ [i]) q")
    case False
    then show ?thesis using slot_other(2) [OF w u p(1,2) False q] by simp
  next
    case True
    then obtain r where r: "q = p @ i # r" by (auto elim: prefixE)
    then have "r = [] \<or> has v X86_PTE_PS" using q new by (auto simp: fpath_def)
    then show ?thesis using slot_self(4) [OF w u p, of r] True by (auto simp: r)
  qed
qed

text \<open>Linking an empty table that the tree does not use into an absent slot: nothing new is mapped.\<close>

lemma slot_table:
  assumes w: "treeOk E root ok" and u: "slotUpd ok E t i v E'" and p: "tpath (p @ [i])" "tbl E root p = Some t"
    and old: "\<not> has (E t i) X86_PTE_P"
    and v: "has v X86_PTE_P" "\<not> has v X86_PTE_PS" "v AND X86_PTE_ADDR_MASK = n" "ok n"
    and fresh: "\<forall>q. tpath q \<longrightarrow> tbl E root q \<noteq> Some n" and zero: "\<forall>j < 512. E n j = 0"
  shows "tpath q \<Longrightarrow> tbl E' root q = (if q = p @ [i] then Some n else tbl E root q)"
    and "treeOk E' root ok" and "fpath q \<Longrightarrow> look E' root q = look E root q"
proof -
  have p': "tpath p" "i < 512" using p(1) by (auto simp: tpath_def)
  have nt: "n \<noteq> t" using fresh p'(1) p(2) by auto
  have z: "E' n j = 0" if "j < 512" for j using u v(4) nt zero that by (simp add: slotUpd_def)
  have tb: "tbl E' root q = (if q = p @ [i] then Some n else tbl E root q)" if q: "tpath q" for q
  proof (cases "prefix (p @ [i]) q")
    case False
    then show ?thesis using slot_other(1) [OF w u p'(1) p(2) False q] by auto
  next
    case True
    then obtain r where r: "q = p @ i # r" by (auto elim: prefixE)
    have o: "tbl E root q = None" using old by (simp add: r tbl_append p(2))
    have "tbl E' root q = tbl E' n r" using slot_self(3) [OF w u p'(1) p(2) p'(2), of r] v by (simp add: r)
    moreover have "tbl E' n r = (if r = [] then Some n else None)"
      using q r z by (cases r) (auto simp: tpath_def)
    ultimately show ?thesis using o by (simp add: r)
  qed
  then show "tpath q \<Longrightarrow> tbl E' root q = (if q = p @ [i] then Some n else tbl E root q)" .
  have top: "\<not> has (E' root j) X86_PTE_PS" if "j < 512" "has (E' root j) X86_PTE_P" for j
  proof -
    have "ok root" using treeOkD(1) [OF w, of "[]"] by (simp add: tpath_def)
    then have "E' root j = (if root = t \<and> j = i then v else E root j)" using u that(1) by (simp add: slotUpd_def)
    then show ?thesis using treeOkD(3) [OF w that(1)] that(2) v(2) by auto
  qed
  have inj: "a = b" if "tpath a" "tpath b" "tbl E' root a = Some x" "tbl E' root b = Some x" for a b x
    using that tb [OF that(1)] tb [OF that(2)] fresh treeOkD(2) [OF w that(1,2)] by (auto split: if_splits)
  have "ok x" if "tpath a" "tbl E' root a = Some x" for a x
    using that tb [OF that(1)] treeOkD(1) [OF w that(1)] v(4) by (auto split: if_splits)
  then show "treeOk E' root ok" unfolding treeOk_def using inj top by blast
  show "look E' root q = look E root q" if q: "fpath q"
  proof (cases "prefix (p @ [i]) q")
    case False
    then show ?thesis by (rule slot_other(2) [OF w u p'(1) p(2) _ q])
  next
    case True
    then obtain r where r: "q = p @ i # r" by (auto elim: prefixE)
    have ne: "r \<noteq> []" using q p(1) by (auto simp: r tpath_def fpath_def)
    have "look E root q = None" using old ne by (cases r) (auto simp: r look_append [OF p(2)])
    moreover obtain j s where "r = j # s" using ne by (cases r) auto
    then have "look E' n r = None" using q z [of j] by (cases s) (auto simp: r fpath_def)
    ultimately show ?thesis using slot_self(4) [OF w u p'(1) p(2) p'(2), of r] ne v by (simp add: r)
  qed
qed

text \<open>From here on the walks are used through these lemmas.\<close>

declare look.simps [simp del] tbl.simps(2) [simp del]

end
