(* ===== verification/Paging.thy ===== *)
theory Paging
  imports Page_Table Pmm_Spec Bootinfo
begin

text \<open>
  The kernel's page tables, \<open>kernel/arch/x86_64/paging.c\<close>: walking, mapping, unmapping and looking up
  pages of the live tables. The static variables of the file are the record \<open>Paging\<close>, together with the
  memory manager the table pages come from and the processor registers the file uses; the tables lie
  in the physical memory of the memory manager and are reached through the direct map. What the
  processor does with a register write (which bits of a model-specific register stick, what \<open>cpuid\<close>
  reports) is a field of \<open>Cpu\<close>. Dereferencing the NULL pointer of a failed walk is a panic here.
\<close>

section \<open>State\<close>

record Cpu =
  cr0 :: u64
  cr3 :: u64
  cr4 :: u64
  rflags :: u64
  msr :: "u32 \<Rightarrow> u64"
  msrKeeps :: "u32 \<Rightarrow> u64 \<Rightarrow> u64"
  cpuid :: "u32 \<Rightarrow> u32 \<Rightarrow> u32 list"
  invlpgs :: "u64 list"

record Paging =
  tpmm :: Pmm
  kernelPml4Phys :: u64
  tablesActive :: bool
  has1GPages :: bool
  kernelRoPhysStart :: u64
  kernelRoPhysEnd :: u64
  physLimit :: u64
  cpu :: Cpu

type_synonym VmmFlags = u32

definition VMM_WRITE :: VmmFlags where "VMM_WRITE = 1"
definition VMM_EXEC :: VmmFlags where "VMM_EXEC = 2"
definition VMM_CACHE_WB :: VmmFlags where "VMM_CACHE_WB = 0"
definition VMM_CACHE_WC :: VmmFlags where "VMM_CACHE_WC = 4"
definition VMM_CACHE_UC :: VmmFlags where "VMM_CACHE_UC = 8"
definition VMM_CACHE_MASK :: VmmFlags where "VMM_CACHE_MASK = 12"
definition VMM_FLAGS_VALID :: VmmFlags where "VMM_FLAGS_VALID = VMM_WRITE OR VMM_EXEC OR VMM_CACHE_MASK"

lemmas vmm_consts = VMM_WRITE_def VMM_EXEC_def VMM_CACHE_WB_def VMM_CACHE_WC_def VMM_CACHE_UC_def VMM_CACHE_MASK_def VMM_FLAGS_VALID_def

section \<open>Tables\<close>

definition pml4Index :: "u64 \<Rightarrow> nat" where
  "pml4Index va = unat (drop_bit 39 va AND 511)"

definition pdptIndex :: "u64 \<Rightarrow> nat" where
  "pdptIndex va = unat (drop_bit 30 va AND 511)"

definition pdIndex :: "u64 \<Rightarrow> nat" where
  "pdIndex va = unat (drop_bit 21 va AND 511)"

definition ptIndex :: "u64 \<Rightarrow> nat" where
  "ptIndex va = unat (drop_bit 12 va AND 511)"

definition tableAt :: "Paging \<Rightarrow> u64 \<Rightarrow> u64" where
  "tableAt st phys = pmmHhdmBaseValue (tpmm st) + (phys AND X86_PTE_ADDR_MASK)"

text \<open>\<^verbatim>\<open>table[idx]\<close>, read and written.\<close>

definition getEntry :: "Paging \<Rightarrow> u64 \<Rightarrow> nat \<Rightarrow> u64" where
  "getEntry st table idx = physRam (tpmm st) (table + 8 * of_nat idx)"

definition setWord :: "Paging \<Rightarrow> u64 \<Rightarrow> u64 \<Rightarrow> Paging" where
  "setWord st a v = st\<lparr>tpmm := (tpmm st)\<lparr>physRam := (physRam (tpmm st))(a := v)\<rparr>\<rparr>"

definition setEntry :: "Paging \<Rightarrow> u64 \<Rightarrow> nat \<Rightarrow> u64 \<Rightarrow> Paging" where
  "setEntry st table idx v = setWord st (table + 8 * of_nat idx) v"

definition pmmPageToPhys :: "u64 \<Rightarrow> u64" where
  "pmmPageToPhys page = push_bit 12 (of_nat (pageToPfn page))"

definition allocTable :: "Paging \<Rightarrow> Paging \<times> (Status + u64)" where
  "allocTable st =
     (case pmmAllocPages 0 PMM_FLAG_ZERO False (tpmm st) of
        (p, Inl e) \<Rightarrow> (st\<lparr>tpmm := p\<rparr>, Inl e)
      | (p, Inr page) \<Rightarrow> (st\<lparr>tpmm := p\<rparr>, Inr (pmmPageToPhys page)))"

definition getOrAllocTable :: "Paging \<Rightarrow> u64 \<Rightarrow> nat \<Rightarrow> Paging \<times> (Status + u64)" where
  "getOrAllocTable st table idx =
     (let entry = getEntry st table idx
      in if has entry X86_PTE_P then
           (if has entry X86_PTE_PS then (st, Inl STATUS_ERR_INVALID) else (st, Inr (tableAt st entry)))
         else case allocTable st of
             (st1, Inl e) \<Rightarrow> (st1, Inl e)
           | (st1, Inr newPhys) \<Rightarrow>
               (let st2 = setEntry st1 table idx ((newPhys AND X86_PTE_ADDR_MASK) OR X86_PTE_P OR X86_PTE_W)
                in (st2, Inr (tableAt st2 newPhys))))"

text \<open>Going on only when the previous call returned \<open>STATUS_OK\<close>.\<close>

definition thenS :: "'s \<times> ('e + 'a) \<Rightarrow> ('s \<Rightarrow> 'a \<Rightarrow> 's \<times> ('e + 'b)) \<Rightarrow> 's \<times> ('e + 'b)" where
  "thenS r f = (case r of (s, Inl e) \<Rightarrow> (s, Inl e) | (s, Inr x) \<Rightarrow> f s x)"

lemma thenS_simps [simp]: "thenS (s, Inl e) f = (s, Inl e)" "thenS (s, Inr x) f = f s x"
  by (simp_all add: thenS_def)

section \<open>Walks\<close>

definition findLeafPte :: "Paging \<Rightarrow> u64 \<Rightarrow> u64 option" where
  "findLeafPte st va =
     (let pml4 = tableAt st (kernelPml4Phys st); e4 = getEntry st pml4 (pml4Index va)
      in if \<not> has e4 X86_PTE_P then None
         else let pdpt = tableAt st e4; e3 = getEntry st pdpt (pdptIndex va)
           in if \<not> has e3 X86_PTE_P \<or> has e3 X86_PTE_PS then None
              else let pd = tableAt st e3; e2 = getEntry st pd (pdIndex va)
                in if \<not> has e2 X86_PTE_P \<or> has e2 X86_PTE_PS then None
                   else let pt = tableAt st e2 in Some (pt + 8 * of_nat (ptIndex va)))"

definition findAnyLeafEntry :: "Paging \<Rightarrow> u64 \<Rightarrow> u64 option" where
  "findAnyLeafEntry st va =
     (let pml4 = tableAt st (kernelPml4Phys st); e4 = getEntry st pml4 (pml4Index va)
      in if \<not> has e4 X86_PTE_P then None
         else let pdpt = tableAt st e4; e3 = getEntry st pdpt (pdptIndex va)
           in if \<not> has e3 X86_PTE_P then None
              else if has e3 X86_PTE_PS then Some e3
              else let pd = tableAt st e3; e2 = getEntry st pd (pdIndex va)
                in if \<not> has e2 X86_PTE_P then None
                   else if has e2 X86_PTE_PS then Some e2
                   else let pt = tableAt st e2; e1 = getEntry st pt (ptIndex va)
                     in if \<not> has e1 X86_PTE_P then None else Some e1)"

definition hhdmLeafEntry :: "Paging \<Rightarrow> u64 \<Rightarrow> u64 option" where
  "hhdmLeafEntry st pa = (if pa \<ge> BOOTINFO_HHDM_SIZE then None else findAnyLeafEntry st (BOOTINFO_HHDM_BASE + pa))"

definition hhdmAliasCache :: "Paging \<Rightarrow> u64 \<Rightarrow> bool \<times> VmmFlags" where
  "hhdmAliasCache st pa =
     (case hhdmLeafEntry st pa of
        None \<Rightarrow> (False, VMM_CACHE_WB)
      | Some entry \<Rightarrow>
          (True, if has entry X86_PTE_PCD then VMM_CACHE_UC
                 else if has entry X86_PTE_PWT then VMM_CACHE_WC else VMM_CACHE_WB))"

section \<open>Mapping\<close>

text \<open>The offsets of a loop \<^verbatim>\<open>for (off = 0; off < size; off += X86_PTE_SIZE_4K)\<close>.\<close>

definition pageOffsets :: "u64 \<Rightarrow> u64 list" where
  "pageOffsets sz = map (\<lambda>k. of_nat k * X86_PTE_SIZE_4K) [0..<(unat sz + 4095) div 4096]"

definition clearLeaf :: "Paging \<Rightarrow> u64 \<Rightarrow> Paging outcome" where
  "clearLeaf st va = (case findLeafPte st va of None \<Rightarrow> Panic ''page fault'' | Some pte \<Rightarrow> Ret (setWord st pte 0))"

fun clearLeaves :: "u64 \<Rightarrow> u64 list \<Rightarrow> Paging \<Rightarrow> Paging outcome" where
  "clearLeaves va [] st = Ret st"
| "clearLeaves va (off # offs) st = bindO (clearLeaf st (va + off)) (clearLeaves va offs)"

definition archTlbInvalidateKernelRange :: "u64 \<Rightarrow> u64 \<Rightarrow> Paging \<Rightarrow> Paging" where
  "archTlbInvalidateKernelRange va sz st =
     st\<lparr>cpu := (cpu st)\<lparr>invlpgs := invlpgs (cpu st) @ map (\<lambda>off. va + off) (pageOffsets sz)\<rparr>\<rparr>"

definition physAddrLimit :: "Paging \<Rightarrow> Paging \<times> u64" where
  "physAddrLimit st =
     (if physLimit st \<noteq> 0 then (st, physLimit st)
      else let bits0 = (if cpuid (cpu st) 0x80000000 0 ! 0 \<ge> 0x80000008 then cpuid (cpu st) 0x80000008 0 ! 0 AND 0xFF else 36);
               bits = (if bits0 < 36 then 36 else if bits0 > 52 then 52 else bits0);
               limit = push_bit (unat bits) 1 - 1
        in (st\<lparr>physLimit := limit\<rparr>, limit))"

text \<open>One page of the mapping loop, and the loop, which counts the bytes mapped.\<close>

definition mapPage :: "Paging \<Rightarrow> u64 \<Rightarrow> u64 \<Rightarrow> u64 \<Rightarrow> Paging \<times> (Status + unit)" where
  "mapPage st v pa leafFlags =
     thenS (getOrAllocTable st (tableAt st (kernelPml4Phys st)) (pml4Index v)) (\<lambda>st1 pdpt.
     thenS (getOrAllocTable st1 pdpt (pdptIndex v)) (\<lambda>st2 pd.
     thenS (getOrAllocTable st2 pd (pdIndex v)) (\<lambda>st3 pt.
       let i1 = ptIndex v
       in if has (getEntry st3 pt i1) X86_PTE_P then (st3, Inl STATUS_ERR_INVALID)
          else (setEntry st3 pt i1 ((pa AND X86_PTE_ADDR_MASK) OR leafFlags), Inr ()))))"

fun mapLoop :: "u64 \<Rightarrow> u64 \<Rightarrow> u64 \<Rightarrow> u64 list \<Rightarrow> Paging \<Rightarrow> u64 \<Rightarrow> Paging \<times> u64 \<times> (Status + unit)" where
  "mapLoop va pa leafFlags [] st mapped = (st, mapped, Inr ())"
| "mapLoop va pa leafFlags (off # offs) st mapped =
     (case mapPage st (va + off) (pa + off) leafFlags of
        (st1, Inl e) \<Rightarrow> (st1, mapped, Inl e)
      | (st1, Inr _) \<Rightarrow> mapLoop va pa leafFlags offs st1 (mapped + X86_PTE_SIZE_4K))"

definition leafFlagsFor :: "VmmFlags \<Rightarrow> u64" where
  "leafFlagsFor fl =
     (let f0 = X86_PTE_P OR X86_PTE_NX OR X86_PTE_G;
          f1 = (if fl AND VMM_WRITE \<noteq> 0 then f0 OR X86_PTE_W else f0)
      in if fl AND VMM_CACHE_MASK = VMM_CACHE_WC then f1 OR X86_PTE_PWT
         else if fl AND VMM_CACHE_MASK = VMM_CACHE_UC then f1 OR X86_PTE_PWT OR X86_PTE_PCD else f1)"

definition archMapPages :: "Paging \<Rightarrow> u64 \<Rightarrow> u64 \<Rightarrow> u64 \<Rightarrow> VmmFlags \<Rightarrow> (Paging \<times> (Status + unit)) outcome" where
  "archMapPages st va pa sz fl =
     (if \<not> tablesActive st then Panic ''archMapPages: called before archPagingActivate()''
      else if (va OR pa OR sz) AND (X86_PTE_SIZE_4K - 1) \<noteq> 0 \<or> sz = 0 then Ret (st, Inl STATUS_ERR_INVALID)
      else let lastPa = pa + (sz - 1)
        in if lastPa < pa then Ret (st, Inl STATUS_ERR_INVALID)
           else let (st, limit) = physAddrLimit st
             in if lastPa > limit then Ret (st, Inl STATUS_ERR_INVALID)
                else if fl AND VMM_EXEC \<noteq> 0 then Ret (st, Inl STATUS_ERR_UNSUPPORTED)
                else if fl AND NOT VMM_FLAGS_VALID \<noteq> 0 \<or> fl AND VMM_CACHE_MASK = VMM_CACHE_MASK then Ret (st, Inl STATUS_ERR_INVALID)
                else if fl AND VMM_WRITE \<noteq> 0 \<and> pa < kernelRoPhysEnd st \<and> kernelRoPhysStart st < pa + sz
                  then Ret (st, Inl STATUS_ERR_INVALID)
                else let cache = fl AND VMM_CACHE_MASK
                  in if list_ex (\<lambda>off. let (present, aliasCache) = hhdmAliasCache st (pa + off) in present \<and> aliasCache \<noteq> cache) (pageOffsets sz)
                     then Ret (st, Inl STATUS_ERR_INVALID)
                     else case mapLoop va pa (leafFlagsFor fl) (pageOffsets sz) st 0 of
                         (st1, mapped, Inr _) \<Rightarrow> Ret (st1, Inr ())
                       | (st1, mapped, Inl e) \<Rightarrow>
                           bindO (clearLeaves va (pageOffsets mapped) st1) (\<lambda>st2.
                             Ret (if mapped > 0 then archTlbInvalidateKernelRange va mapped st2 else st2, Inl e)))"

section \<open>Unmapping and looking up\<close>

definition leafPresent :: "Paging \<Rightarrow> u64 \<Rightarrow> bool" where
  "leafPresent st va = (case findLeafPte st va of None \<Rightarrow> False | Some pte \<Rightarrow> has (physRam (tpmm st) pte) X86_PTE_P)"

definition archUnmapPages :: "Paging \<Rightarrow> u64 \<Rightarrow> u64 \<Rightarrow> (Paging \<times> (Status + unit)) outcome" where
  "archUnmapPages st va sz =
     (if \<not> tablesActive st then Panic ''archUnmapPages: called before archPagingActivate()''
      else if (va OR sz) AND (X86_PTE_SIZE_4K - 1) \<noteq> 0 \<or> sz = 0 then Ret (st, Inl STATUS_ERR_INVALID)
      else if \<not> list_all (\<lambda>off. leafPresent st (va + off)) (pageOffsets sz) then Ret (st, Inl STATUS_ERR_NOT_FOUND)
      else bindO (clearLeaves va (pageOffsets sz) st) (\<lambda>st1. Ret (archTlbInvalidateKernelRange va sz st1, Inr ())))"

definition leafVmmFlags :: "u64 \<Rightarrow> VmmFlags" where
  "leafVmmFlags e =
     (let f0 = (if has e X86_PTE_W then VMM_WRITE else 0);
          f1 = (if \<not> has e X86_PTE_NX then f0 OR VMM_EXEC else f0)
      in if has e X86_PTE_PCD then f1 OR VMM_CACHE_UC else if has e X86_PTE_PWT then f1 OR VMM_CACHE_WC else f1)"

definition archLookupKernel :: "Paging \<Rightarrow> u64 \<Rightarrow> (Status + (u64 \<times> VmmFlags)) outcome" where
  "archLookupKernel st va =
     (if \<not> tablesActive st then Panic ''archLookupKernel: called before archPagingActivate()''
      else if va AND (X86_PTE_SIZE_4K - 1) \<noteq> 0 then Ret (Inl STATUS_ERR_INVALID)
      else if \<not> leafPresent st va then Ret (Inl STATUS_ERR_NOT_FOUND)
      else let e = physRam (tpmm st) (the (findLeafPte st va))
        in Ret (Inr (e AND X86_PTE_ADDR_MASK, leafVmmFlags e)))"

definition archPagingRawPte :: "Paging \<Rightarrow> u64 \<Rightarrow> u64" where
  "archPagingRawPte st va =
     (if \<not> tablesActive st then 0
      else case findLeafPte st va of None \<Rightarrow> 0 | Some pte \<Rightarrow> physRam (tpmm st) pte)"

end
