(* ===== verification/Paging_Map.thy ===== *)
theory Paging_Map
  imports Paging
begin

text \<open>
  Mapping and unmapping are exact: the tables of a well-formed state form a tree whose pages the
  memory manager does not consider free, so an entry write through the direct map changes one walk
  and a new table page is never one in use. The abstraction of a state is the function that takes a
  virtual address to its leaf entry.
\<close>

section \<open>The tree in memory\<close>

definition ents :: "Paging \<Rightarrow> tabs" where
  "ents st t i = physRam (tpmm st) (pmmHhdmBaseValue (tpmm st) + t + 8 * of_nat i)"

text \<open>A table page: aligned, inside the direct map, and not free.\<close>

definition tbok :: "Paging \<Rightarrow> u64 \<Rightarrow> bool" where
  "tbok st t \<longleftrightarrow> 4096 dvd unat t \<and> unat t < 2 ^ 46 \<and> unat t div 4096 \<notin> pmmFree (tpmm st)"

definition ptWf :: "Paging \<Rightarrow> bool" where
  "ptWf st \<longleftrightarrow> pmmWf (tpmm st) \<and> treeOk (ents st) (kernelPml4Phys st) (tbok st)"

definition kpath :: "u64 \<Rightarrow> nat list" where
  "kpath va = [pml4Index va, pdptIndex va, pdIndex va, ptIndex va]"

abbreviation ptLook :: "Paging \<Rightarrow> nat list \<Rightarrow> u64 option" where
  "ptLook st \<equiv> look (ents st) (kernelPml4Phys st)"

abbreviation ptTbl :: "Paging \<Rightarrow> nat list \<Rightarrow> u64 option" where
  "ptTbl st \<equiv> tbl (ents st) (kernelPml4Phys st)"

lemma ptWfD: "ptWf st \<Longrightarrow> pmmWf (tpmm st)" "ptWf st \<Longrightarrow> treeOk (ents st) (kernelPml4Phys st) (tbok st)"
  by (simp_all add: ptWf_def)

lemma idx_lt: "unat (x AND (511 :: u64)) < 512"
proof -
  have "(511 :: u64) = mask 9" by (simp add: mask_eq_exp_minus_1)
  then have "x AND 511 = take_bit 9 x" by (simp add: take_bit_eq_mask)
  then show ?thesis by (simp add: take_bit_eq_mod unat_mod_distrib)
qed

lemma index_lt [simp]: "pml4Index va < 512" "pdptIndex va < 512" "pdIndex va < 512" "ptIndex va < 512"
  by (simp_all add: pml4Index_def pdptIndex_def pdIndex_def ptIndex_def idx_lt)

lemma fpath_kpath [simp]: "fpath (kpath va)"
  by (simp add: fpath_def kpath_def)

lemma kpath_split: "kpath va = [pml4Index va, pdptIndex va, pdIndex va] @ [ptIndex va]"
  by (simp add: kpath_def)

lemma tpath_kpath: "tpath []" "tpath [pml4Index va]" "tpath [pml4Index va, pdptIndex va]" "tpath [pml4Index va, pdptIndex va, pdIndex va]"
  by (simp_all add: tpath_def)

lemma tbok_mask: "tbok st t \<Longrightarrow> t AND X86_PTE_ADDR_MASK = t"
  by (rule addr_mask_id) (simp_all add: tbok_def)

lemma mask_mask [simp]: "(e AND X86_PTE_ADDR_MASK) AND X86_PTE_ADDR_MASK = e AND X86_PTE_ADDR_MASK"
  by (simp add: and.assoc)

lemma root_ok:
  assumes "ptWf st"
  shows "tbok st (kernelPml4Phys st)" "tableAt st (kernelPml4Phys st) = pmmHhdmBaseValue (tpmm st) + kernelPml4Phys st"
proof -
  show t: "tbok st (kernelPml4Phys st)" using treeOkD(1) [OF ptWfD(2) [OF assms], of "[]"] by (simp add: tpath_def)
  show "tableAt st (kernelPml4Phys st) = pmmHhdmBaseValue (tpmm st) + kernelPml4Phys st" by (simp add: tableAt_def tbok_mask [OF t])
qed

lemma getEntry_ents: "getEntry st (pmmHhdmBaseValue (tpmm st) + t) i = ents st t i"
  by (simp add: getEntry_def ents_def)

lemma getEntry_tableAt: "getEntry st (tableAt st e) i = ents st (e AND X86_PTE_ADDR_MASK) i"
  by (simp add: getEntry_def ents_def tableAt_def)

text \<open>The two walks of the code are the walks of the tree.\<close>

lemma findAnyLeafEntry_look:
  assumes "ptWf st"
  shows "findAnyLeafEntry st va = ptLook st (kpath va)"
proof -
  have r: "kernelPml4Phys st AND X86_PTE_ADDR_MASK = kernelPml4Phys st" using tbok_mask [OF root_ok(1) [OF assms]] .
  show ?thesis
    using treeOkD(3) [OF ptWfD(2) [OF assms], of "pml4Index va"]
    by (simp add: findAnyLeafEntry_def Let_def getEntry_tableAt r kpath_def look.simps)
qed

lemma findLeafPte_tbl:
  assumes "ptWf st"
  shows "findLeafPte st va = (case ptTbl st [pml4Index va, pdptIndex va, pdIndex va] of None \<Rightarrow> None
    | Some t \<Rightarrow> Some (pmmHhdmBaseValue (tpmm st) + t + 8 * of_nat (ptIndex va)))"
proof -
  have r: "kernelPml4Phys st AND X86_PTE_ADDR_MASK = kernelPml4Phys st" using tbok_mask [OF root_ok(1) [OF assms]] .
  show ?thesis
    using treeOkD(3) [OF ptWfD(2) [OF assms], of "pml4Index va"]
    by (simp add: findLeafPte_def Let_def getEntry_ents r tableAt_def tbl.simps)
qed

section \<open>Writes\<close>

lemma entry_addr:
  assumes "4096 dvd unat t" "unat t < 2 ^ 46" "i < 512"
  shows "unat (t + 8 * of_nat i :: u64) = unat t + 8 * i"
proof -
  have u: "unat (8 * of_nat i :: u64) = 8 * i" using assms(3) unat_of_nat_eq [of "8 * i", where 'a = 64] by simp
  show ?thesis using assms u by (subst unat_add_nowrap) simp_all
qed

lemma entry_inj:
  fixes hb :: u64
  assumes t: "4096 dvd unat t" "unat t < 2 ^ 46" "i < 512" and t': "4096 dvd unat t'" "unat t' < 2 ^ 46" "i' < 512"
  shows "hb + t + 8 * of_nat i = hb + t' + 8 * of_nat i' \<longleftrightarrow> t = t' \<and> i = i'"
proof
  assume "hb + t + 8 * of_nat i = hb + t' + 8 * of_nat i'"
  then have "t + 8 * of_nat i = t' + 8 * of_nat i'" by (simp add: add.assoc)
  then have e: "unat t + 8 * i = unat t' + 8 * i'" using entry_addr [OF t] entry_addr [OF t'] by metis
  obtain a b where ab: "unat t = 4096 * a" "unat t' = 4096 * b" using t(1) t'(1) by (auto elim!: dvdE)
  have "a = b" using e t(3) t'(3) unfolding ab by linarith
  then show "t = t' \<and> i = i'" using e ab by (metis add_left_cancel mult_left_cancel unat_inj zero_neq_numeral)
qed simp

text \<open>What a call may change: the memory manager's state, but not its map and not the direct map.\<close>

definition pgSame :: "Paging \<Rightarrow> Paging \<Rightarrow> bool" where
  "pgSame st st' \<longleftrightarrow> st' = st\<lparr>tpmm := tpmm st'\<rparr> \<and> pmmHhdmBaseValue (tpmm st') = pmmHhdmBaseValue (tpmm st)
     \<and> pmmMap (tpmm st') = pmmMap (tpmm st) \<and> early (tpmm st') = early (tpmm st)"

lemma pgSame_refl [simp]: "pgSame st st"
  by (simp add: pgSame_def)

lemma pgSame_trans: "pgSame a b \<Longrightarrow> pgSame b c \<Longrightarrow> pgSame a c"
  unfolding pgSame_def by (metis Paging.surjective Paging.update_convs(1))

lemma pgSame_fields:
  assumes "pgSame st st'"
  shows "kernelPml4Phys st' = kernelPml4Phys st" "tablesActive st' = tablesActive st" "has1GPages st' = has1GPages st"
    "kernelRoPhysStart st' = kernelRoPhysStart st" "kernelRoPhysEnd st' = kernelRoPhysEnd st" "physLimit st' = physLimit st" "cpu st' = cpu st"
    "pmmHhdmBaseValue (tpmm st') = pmmHhdmBaseValue (tpmm st)"
  using assms unfolding pgSame_def by (metis Paging.ext_inject Paging.surjective Paging.update_convs(1))+

lemma pmm_ram [simp]:
  "pmmWf (p\<lparr>physRam := r\<rparr>) = pmmWf p" "pmmFree (p\<lparr>physRam := r\<rparr>) = pmmFree p"
  by (simp_all add: pmmWf_def managed_def pmmFree_def)

lemma setEntry_slot:
  assumes t: "tbok st t" "i < 512"
  shows "slotUpd (tbok st) (ents st) t i v (ents (setEntry st (pmmHhdmBaseValue (tpmm st) + t) i v))"
  unfolding slotUpd_def
proof (intro allI impI)
  fix t' :: u64 and j :: nat assume j: "tbok st t'" "j < 512"
  have "pmmHhdmBaseValue (tpmm st) + t' + 8 * of_nat j = pmmHhdmBaseValue (tpmm st) + t + 8 * of_nat i \<longleftrightarrow> t' = t \<and> j = i"
    using t j by (intro entry_inj) (auto simp: tbok_def)
  then show "ents (setEntry st (pmmHhdmBaseValue (tpmm st) + t) i v) t' j = (if t' = t \<and> j = i then v else ents st t' j)"
    by (simp add: ents_def setEntry_def setWord_def)
qed

lemma setEntry_props:
  "pgSame st (setEntry st a i v)" "tbok (setEntry st a i v) = tbok st" "pmmWf (tpmm (setEntry st a i v)) = pmmWf (tpmm st)"
  "pmmFree (tpmm (setEntry st a i v)) = pmmFree (tpmm st)" "kernelPml4Phys (setEntry st a i v) = kernelPml4Phys st"
  by (simp_all add: setEntry_def setWord_def pgSame_def tbok_def fun_eq_iff)

text \<open>Writing a leaf, in terms of the state.\<close>

lemma write_leaf:
  assumes w: "ptWf st" and p: "tpath p" "ptTbl st p = Some t" "i < 512"
    and old: "length p = 3 \<or> \<not> has (ents st t i) X86_PTE_P"
    and new: "length p = 3 \<or> (0 < length p \<and> has v X86_PTE_PS)"
    and s: "st' = setEntry st (pmmHhdmBaseValue (tpmm st) + t) i v"
  shows "ptWf st'" "pgSame st st'" "tpath q \<Longrightarrow> ptTbl st' q = ptTbl st q" "pmmFree (tpmm st') = pmmFree (tpmm st)"
    "fpath q \<Longrightarrow> ptLook st' q = (if prefix (p @ [i]) q then (if has v X86_PTE_P then Some v else None) else ptLook st q)"
proof -
  have tb: "tbok st t" by (rule treeOkD(1) [OF ptWfD(2) [OF w] p(1,2)])
  note S = slot_leaf [OF ptWfD(2) [OF w] setEntry_slot [OF tb p(3)] p old new]
  show "ptWf st'" using S(2) w by (simp add: ptWf_def s setEntry_props)
  show "pgSame st st'" "pmmFree (tpmm st') = pmmFree (tpmm st)" by (simp_all add: s setEntry_props)
  show "tpath q \<Longrightarrow> ptTbl st' q = ptTbl st q" using S(1) by (simp add: s setEntry_props)
  show "fpath q \<Longrightarrow> ptLook st' q = (if prefix (p @ [i]) q then (if has v X86_PTE_P then Some v else None) else ptLook st q)"
    using S(3) by (simp add: s setEntry_props)
qed

section \<open>New tables\<close>

lemma pmmAlloc_hhdm: "pmmAllocPages ord fl b p = (p', r) \<Longrightarrow> pmmHhdmBaseValue p' = pmmHhdmBaseValue p"
  by (auto simp: pmmAllocPages_def Let_def split: if_splits prod.splits option.splits)

lemma treeOk_mono: "treeOk E root ok \<Longrightarrow> (\<And>t. ok t \<Longrightarrow> ok' t) \<Longrightarrow> treeOk E root ok'"
  unfolding treeOk_def by blast

lemma frame_addr:
  assumes "p < 17179869184"
  shows "unat (push_bit 12 (of_nat p) :: u64) = 4096 * p" "4096 dvd unat (push_bit 12 (of_nat p) :: u64)"
    "unat (push_bit 12 (of_nat p) :: u64) < 2 ^ 46" "unat (push_bit 12 (of_nat p) :: u64) div 4096 = p"
proof -
  have "push_bit 12 (of_nat p) = (of_nat (4096 * p) :: u64)" by (simp add: push_bit_eq_mult)
  then show u: "unat (push_bit 12 (of_nat p) :: u64) = 4096 * p" using assms unat_of_nat_eq [of "4096 * p", where 'a = 64] by simp
  show "4096 dvd unat (push_bit 12 (of_nat p) :: u64)" "unat (push_bit 12 (of_nat p) :: u64) < 2 ^ 46" "unat (push_bit 12 (of_nat p) :: u64) div 4096 = p"
    using u assms by simp_all
qed

lemma allocTable_ok:
  assumes w: "pmmWf (tpmm st)" and a: "allocTable st = (st', Inr phys)"
  shows "pgSame st st'" "pmmWf (tpmm st')" "unat phys div 4096 \<in> pmmFree (tpmm st)"
    "pmmFree (tpmm st') = pmmFree (tpmm st) - {unat phys div 4096}" "tbok st' phys"
    "\<And>t i. tbok st t \<Longrightarrow> i < 512 \<Longrightarrow> ents st' t i = ents st t i" "\<And>i. i < 512 \<Longrightarrow> ents st' phys i = 0"
proof -
  obtain page where r: "pmmAllocPages 0 PMM_FLAG_ZERO False (tpmm st) = (tpmm st', Inr page)"
    and s: "st' = st\<lparr>tpmm := tpmm st'\<rparr>" and ph: "phys = pmmPageToPhys page"
    using a by (auto simp: allocTable_def split: prod.splits sum.splits)
  have z: "PMM_FLAG_ZERO AND PMM_FLAG_ZERO \<noteq> 0" by (simp add: PMM_FLAG_ZERO_def)
  obtain p where p: "page = pageFromPfn p" "p < 17179869184" "took (mem (tpmm st)) p 0 (mem (tpmm st'))"
    "pmmMap (tpmm st') = pmmMap (tpmm st)" "early (tpmm st') = early (tpmm st)"
    "physRam (tpmm st') = pmmZeroBlock (tpmm st) p 0 (physRam (tpmm st))"
    and c: "\<And>y. pcpCount (mem (tpmm st')) y \<le> max (pcpCount (mem (tpmm st)) y) PMM_PCP_BATCH"
    using pmmAlloc_ok [OF w r] z by metis
  note W = took_wf [OF w p(3,4) c]
  have hh: "pmmHhdmBaseValue (tpmm st') = pmmHhdmBaseValue (tpmm st)" by (rule pmmAlloc_hhdm [OF r])
  have "p < 2 ^ 39" using p(2) by simp
  then have phys: "phys = push_bit 12 (of_nat p)" using ph p(1) page_ptr(1) by (simp add: pmmPageToPhys_def)
  note F = frame_addr [OF p(2), folded phys]
  have blk: "blk p 0 = {p}" by (auto simp: blk_def)
  show "pgSame st st'" using s hh p(4,5) by (simp add: pgSame_def)
  show "pmmWf (tpmm st')" by (rule W(1))
  show fr: "unat phys div 4096 \<in> pmmFree (tpmm st)" using W(5) blk F(4) by auto
  show fr': "pmmFree (tpmm st') = pmmFree (tpmm st) - {unat phys div 4096}" using W(4) blk F(4) by simp
  show "tbok st' phys" using F(2,3) fr' by (simp add: tbok_def)
  have ram: "physRam (tpmm st') a = (if \<exists>i < 512. a = pmmHhdmBaseValue (tpmm st) + phys + 8 * of_nat i then 0 else physRam (tpmm st) a)" for a
    by (simp add: p(6) pmmZeroBlock_def zeroWords_eq phys)
  show "ents st' phys i = 0" if "i < 512" for i using that by (auto simp: ents_def ram hh)
  show "ents st' t i = ents st t i" if t: "tbok st t" "i < 512" for t i
  proof -
    have "t \<noteq> phys" using t(1) fr by (auto simp: tbok_def)
    then have "pmmHhdmBaseValue (tpmm st) + t + 8 * of_nat i \<noteq> pmmHhdmBaseValue (tpmm st) + phys + 8 * of_nat j" if "j < 512" for j
      using entry_inj [of t i phys j "pmmHhdmBaseValue (tpmm st)"] t that F(2,3) by (auto simp: tbok_def)
    then show ?thesis by (auto simp: ents_def ram hh)
  qed
qed

lemma allocTable_fail:
  assumes w: "pmmWf (tpmm st)" and a: "allocTable st = (st', Inl e)"
  shows "st' = st" "e = STATUS_ERR_NO_MEMORY" "pmmFree (tpmm st) = {}"
proof -
  have r: "pmmAllocPages 0 PMM_FLAG_ZERO False (tpmm st) = (tpmm st', Inl e)" and s: "st' = st\<lparr>tpmm := tpmm st'\<rparr>"
    using a by (auto simp: allocTable_def split: prod.splits sum.splits)
  have g: "flagsOk PMM_FLAG_ZERO" by (simp add: flagsOk_def PMM_FLAG_ZERO_def PMM_FLAGS_VALID_def PMM_FLAG_DMA32_def)
  note F = pmmAlloc_fail [OF w _ _ g r]
  show "e = STATUS_ERR_NO_MEMORY" using F by simp
  have "tpmm st' = tpmm st" using F by simp
  then show "st' = st" using s by simp
  have "avail (pages (mem (tpmm st))) z = {}" for z
    using F by (cases z) (simp_all add: pmmZoneListFor_def PMM_FLAG_ZERO_def PMM_FLAG_DMA32_def noBlock_def)
  then show "pmmFree (tpmm st) = {}" by (simp add: pmmFree_def)
qed

lemma table_entry:
  "has ((n AND X86_PTE_ADDR_MASK) OR X86_PTE_P OR X86_PTE_W) X86_PTE_P"
  "\<not> has ((n AND X86_PTE_ADDR_MASK) OR X86_PTE_P OR X86_PTE_W) X86_PTE_PS"
  "((n AND X86_PTE_ADDR_MASK) OR X86_PTE_P OR X86_PTE_W) AND X86_PTE_ADDR_MASK = n AND X86_PTE_ADDR_MASK"
proof -
  show "has ((n AND X86_PTE_ADDR_MASK) OR X86_PTE_P OR X86_PTE_W) X86_PTE_P"
    "\<not> has ((n AND X86_PTE_ADDR_MASK) OR X86_PTE_P OR X86_PTE_W) X86_PTE_PS"
    by (simp_all add: has_bit bit_or_iff bit_and_iff addr_mask_bit) (simp_all add: pte_consts)
  have "(X86_PTE_P OR X86_PTE_W) AND X86_PTE_ADDR_MASK = 0" by (simp add: pte_consts)
  then show "((n AND X86_PTE_ADDR_MASK) OR X86_PTE_P OR X86_PTE_W) AND X86_PTE_ADDR_MASK = n AND X86_PTE_ADDR_MASK"
    by (simp add: and.assoc bit.conj_disj_distrib2)
qed

lemma allocTable_tree:
  assumes w: "ptWf st" and a: "allocTable st = (st1, Inr n)"
  shows "treeOk (ents st1) (kernelPml4Phys st) (tbok st1)"
    "tpath q \<Longrightarrow> tbl (ents st1) (kernelPml4Phys st) q = ptTbl st q" "fpath q \<Longrightarrow> look (ents st1) (kernelPml4Phys st) q = ptLook st q"
    "\<forall>q. tpath q \<longrightarrow> tbl (ents st1) (kernelPml4Phys st) q \<noteq> Some n"
proof -
  note A = allocTable_ok [OF ptWfD(1) [OF w] a]
  have tr: "treeOk (ents st) (kernelPml4Phys st) (tbok st)" by (rule ptWfD(2) [OF w])
  have same: "tbl (ents st1) (kernelPml4Phys st) q = ptTbl st q" if "tpath q" for q
  proof (rule tbl_cong)
    fix a j b u assume "q = a @ j # b" "ptTbl st a = Some u"
    then show "ents st1 u j = ents st u j" using that treeOkD(1) [OF tr, of a u] by (intro A(6)) (auto simp: tpath_def)
  qed
  then show "tpath q \<Longrightarrow> tbl (ents st1) (kernelPml4Phys st) q = ptTbl st q" .
  show "look (ents st1) (kernelPml4Phys st) q = ptLook st q" if "fpath q"
  proof (rule look_cong)
    fix a j b u assume "q = a @ j # b" "ptTbl st a = Some u"
    then show "ents st1 u j = ents st u j" using that treeOkD(1) [OF tr, of a u] fpath_prefix [of a j b] by (intro A(6)) auto
  qed
  have "treeOk (ents st1) (kernelPml4Phys st) (tbok st)"
    unfolding treeOk_def using treeOkD [OF tr] same A(6) root_ok(1) [OF w] by metis
  then show "treeOk (ents st1) (kernelPml4Phys st) (tbok st1)"
    by (rule treeOk_mono) (use A(4) in \<open>auto simp: tbok_def\<close>)
  show "\<forall>q. tpath q \<longrightarrow> tbl (ents st1) (kernelPml4Phys st) q \<noteq> Some n"
    using treeOkD(1) [OF tr] same A(3) by (auto simp: tbok_def)
qed

text \<open>
  Getting the next table never changes what is mapped. It fails on a large leaf or when memory is out,
  and then nothing has changed at all.
\<close>

text \<open>At most \<open>k\<close> frames stop being free.\<close>

definition freeLoss :: "nat \<Rightarrow> nat set \<Rightarrow> nat set \<Rightarrow> bool" where
  "freeLoss k A B \<longleftrightarrow> B \<subseteq> A \<and> finite (A - B) \<and> card (A - B) \<le> k"

lemma freeLoss_refl [simp]: "freeLoss k A A"
  by (simp add: freeLoss_def)

lemma freeLoss_trans: "freeLoss j A B \<Longrightarrow> freeLoss k B C \<Longrightarrow> freeLoss (j + k) A C"
proof -
  assume a: "freeLoss j A B" "freeLoss k B C"
  have "A - C = (A - B) \<union> (B - C)" using a by (auto simp: freeLoss_def)
  then show ?thesis using a card_Un_le [of "A - B" "B - C"] by (auto simp: freeLoss_def)
qed

lemma freeLoss_mono: "freeLoss j A B \<Longrightarrow> j \<le> k \<Longrightarrow> freeLoss k A B"
  by (auto simp: freeLoss_def)

definition grows :: "nat \<Rightarrow> Paging \<Rightarrow> Paging \<Rightarrow> bool" where
  "grows k st st' \<longleftrightarrow> ptWf st' \<and> pgSame st st' \<and> (\<forall>q. fpath q \<longrightarrow> ptLook st' q = ptLook st q)
     \<and> (\<forall>q t. tpath q \<longrightarrow> ptTbl st q = Some t \<longrightarrow> ptTbl st' q = Some t) \<and> freeLoss k (pmmFree (tpmm st)) (pmmFree (tpmm st'))"

lemma grows_refl: "ptWf st \<Longrightarrow> grows k st st"
  by (simp add: grows_def)

lemma grows_trans: "grows j a b \<Longrightarrow> grows k b c \<Longrightarrow> grows (j + k) a c"
  unfolding grows_def by (auto intro: pgSame_trans freeLoss_trans)

lemma grows_mono: "grows j a b \<Longrightarrow> j \<le> k \<Longrightarrow> grows k a b"
  unfolding grows_def by (auto intro: freeLoss_mono)

lemma getOrAlloc_effect:
  assumes w: "ptWf st" and p: "tpath (p @ [i])" "ptTbl st p = Some t"
    and r: "getOrAllocTable st (pmmHhdmBaseValue (tpmm st) + t) i = (st', r)"
  shows "grows 1 st st'"
    "\<And>ptr. r = Inr ptr \<Longrightarrow> \<exists>n. ptr = pmmHhdmBaseValue (tpmm st') + n \<and> ptTbl st' (p @ [i]) = Some n"
    "\<And>e. r = Inl e \<Longrightarrow> st' = st \<and> (e = STATUS_ERR_INVALID \<and> has (ents st t i) X86_PTE_P \<and> has (ents st t i) X86_PTE_PS
       \<or> e = STATUS_ERR_NO_MEMORY \<and> pmmFree (tpmm st) = {})"
proof -
  let ?e = "ents st t i"
  have i: "i < 512" "tpath p" using p(1) by (auto simp: tpath_def)
  have g: "getEntry st (pmmHhdmBaseValue (tpmm st) + t) i = ?e" by (rule getEntry_ents)
  have "grows 1 st st' \<and> (\<forall>ptr. r = Inr ptr \<longrightarrow> (\<exists>n. ptr = pmmHhdmBaseValue (tpmm st') + n \<and> ptTbl st' (p @ [i]) = Some n))
    \<and> (\<forall>e. r = Inl e \<longrightarrow> st' = st \<and> (e = STATUS_ERR_INVALID \<and> has ?e X86_PTE_P \<and> has ?e X86_PTE_PS
         \<or> e = STATUS_ERR_NO_MEMORY \<and> pmmFree (tpmm st) = {}))"
  proof (cases "has ?e X86_PTE_P")
    case True
    then have s: "st' = st" "r = (if has ?e X86_PTE_PS then Inl STATUS_ERR_INVALID else Inr (tableAt st ?e))"
      using r g by (auto simp: getOrAllocTable_def Let_def split: if_splits)
    have "ptTbl st (p @ [i]) = Some (?e AND X86_PTE_ADDR_MASK)" if "\<not> has ?e X86_PTE_PS"
      using that True p(2) by (simp add: tbl_append tbl.simps)
    then show ?thesis using s True grows_refl [OF w] by (auto simp: tableAt_def)
  next
    case False
    obtain st1 x where a: "allocTable st = (st1, x)" by fastforce
    show ?thesis
    proof (cases x)
      case (Inl e)
      then have "st' = st1" "r = Inl e" using r g False a by (simp_all add: getOrAllocTable_def)
      then show ?thesis using allocTable_fail [OF ptWfD(1) [OF w] a [unfolded Inl]] grows_refl [OF w] by auto
    next
      case (Inr n)
      note A = allocTable_ok [OF ptWfD(1) [OF w] a [unfolded Inr]]
      let ?v = "(n AND X86_PTE_ADDR_MASK) OR X86_PTE_P OR X86_PTE_W"
      have hh: "pmmHhdmBaseValue (tpmm st1) = pmmHhdmBaseValue (tpmm st)" "kernelPml4Phys st1 = kernelPml4Phys st"
        using pgSame_fields [OF A(1)] by simp_all
      have s: "st' = setEntry st1 (pmmHhdmBaseValue (tpmm st1) + t) i ?v" "r = Inr (tableAt st' n)"
        using r g False a Inr hh by (auto simp: getOrAllocTable_def Let_def)
      have nm: "n AND X86_PTE_ADDR_MASK = n" by (rule tbok_mask [OF A(5)])
      note T = allocTable_tree [OF w a [unfolded Inr]]
      have tr: "treeOk (ents st) (kernelPml4Phys st) (tbok st)" by (rule ptWfD(2) [OF w])
      have tb: "tbok st1 t" using treeOkD(1) [OF tr i(2) p(2)] A(4) by (auto simp: tbok_def)
      have p1: "tbl (ents st1) (kernelPml4Phys st) p = Some t" using T(2) [OF i(2)] p(2) by simp
      have ab: "\<not> has (ents st1 t i) X86_PTE_P" using A(6) [OF treeOkD(1) [OF tr i(2) p(2)] i(1)] False by simp
      have zero: "\<forall>j < 512. ents st1 n j = 0" using A(7) by simp
      have vm: "?v AND X86_PTE_ADDR_MASK = n" using table_entry(3) [of n] nm by simp
      note S = slot_table [OF T(1) setEntry_slot [OF tb i(1), of ?v] p(1) p1 ab table_entry(1,2) vm A(5) T(4) zero]
      note S' = S [folded s(1)]
      have k: "kernelPml4Phys st' = kernelPml4Phys st" "tbok st' = tbok st1" "pmmWf (tpmm st') = pmmWf (tpmm st1)"
        "pmmFree (tpmm st') = pmmFree (tpmm st1)" "pgSame st1 st'" using hh by (simp_all add: s(1) setEntry_props)
      have "freeLoss 1 (pmmFree (tpmm st)) (pmmFree (tpmm st1))"
        using A(3,4) by (simp add: freeLoss_def Diff_Diff_Int Int_insert_right)
      then have gr: "grows 1 st st'"
        unfolding grows_def ptWf_def k using S'(1,2,3) A(2) T(2,3) pgSame_trans [OF A(1) k(5)] p(2) False
        by (auto simp: tbl_append tbl.simps)
      have "ptTbl st' (p @ [i]) = Some n" using S'(1) [OF p(1)] k by simp
      moreover have "tableAt st' n = pmmHhdmBaseValue (tpmm st') + n" by (simp add: tableAt_def nm)
      ultimately show ?thesis using gr s(2) by auto
    qed
  qed
  then show "grows 1 st st'"
    "\<And>ptr. r = Inr ptr \<Longrightarrow> \<exists>n. ptr = pmmHhdmBaseValue (tpmm st') + n \<and> ptTbl st' (p @ [i]) = Some n"
    "\<And>e. r = Inl e \<Longrightarrow> st' = st \<and> (e = STATUS_ERR_INVALID \<and> has ?e X86_PTE_P \<and> has ?e X86_PTE_PS
       \<or> e = STATUS_ERR_NO_MEMORY \<and> pmmFree (tpmm st) = {})"
    by blast+
qed

lemma grows_look: "grows k st st' \<Longrightarrow> fpath q \<Longrightarrow> ptLook st' q = ptLook st q"
  by (simp add: grows_def)

lemma getOrAlloc_blocked:
  assumes w: "ptWf st" and p: "tpath (p @ [i])" "ptTbl st p = Some t" "q \<noteq> []"
    and r: "getOrAllocTable st (pmmHhdmBaseValue (tpmm st) + t) i = (st', Inl e)"
  shows "st' = st" "e = STATUS_ERR_INVALID \<and> ptLook st (p @ i # q) \<noteq> None \<or> e = STATUS_ERR_NO_MEMORY \<and> pmmFree (tpmm st) = {}"
proof -
  note E = getOrAlloc_effect(3) [OF w p(1,2) r refl]
  show "st' = st" using E by blast
  have "ptLook st (p @ i # q) \<noteq> None" if "has (ents st t i) X86_PTE_P" "has (ents st t i) X86_PTE_PS"
    using that p(3) look_append [OF p(2), of "i # q"] by (cases q) (auto simp: look.simps)
  then show "e = STATUS_ERR_INVALID \<and> ptLook st (p @ i # q) \<noteq> None \<or> e = STATUS_ERR_NO_MEMORY \<and> pmmFree (tpmm st) = {}"
    using E by blast
qed

text \<open>One level of a walk that creates tables, for any postcondition of the calls that follow.\<close>

lemma table_step:
  assumes g: "grows k st0 st" and p: "fpath (p @ i # q)" "q \<noteq> []" "ptTbl st p = Some t"
    and fail: "\<And>e. e = STATUS_ERR_INVALID \<and> ptLook st0 (p @ i # q) \<noteq> None \<or> e = STATUS_ERR_NO_MEMORY \<and> pmmFree (tpmm st) = {} \<Longrightarrow> Q (st, Inl e)"
    and cont: "\<And>st1 n. grows (k + 1) st0 st1 \<Longrightarrow> ptTbl st1 (p @ [i]) = Some n \<Longrightarrow> Q (f st1 (pmmHhdmBaseValue (tpmm st1) + n))"
  shows "Q (thenS (getOrAllocTable st (pmmHhdmBaseValue (tpmm st) + t) i) f)"
proof -
  have w: "ptWf st" using g by (simp add: grows_def)
  have tp: "tpath (p @ [i])" using p(1,2) by (cases q) (auto simp: fpath_def tpath_def)
  obtain st1 r where a: "getOrAllocTable st (pmmHhdmBaseValue (tpmm st) + t) i = (st1, r)" by fastforce
  show ?thesis
  proof (cases r)
    case (Inl e)
    then show ?thesis
      using fail getOrAlloc_blocked [OF w tp p(3,2) a [unfolded Inl]] grows_look [OF g p(1)] by (simp add: a)
  next
    case (Inr ptr)
    then obtain n where "ptr = pmmHhdmBaseValue (tpmm st1) + n" "ptTbl st1 (p @ [i]) = Some n"
      using getOrAlloc_effect(2) [OF w tp p(3) a] by blast
    then show ?thesis using cont [OF grows_trans [OF g getOrAlloc_effect(1) [OF w tp p(3) a]]] Inr by (simp add: a)
  qed
qed

section \<open>One page\<close>

definition mapped1 :: "Paging \<Rightarrow> nat list \<Rightarrow> u64 \<Rightarrow> Paging \<Rightarrow> bool" where
  "mapped1 st p e st' \<longleftrightarrow> ptWf st' \<and> pgSame st st' \<and> ptLook st p = None
     \<and> (\<forall>q. fpath q \<longrightarrow> ptLook st' q = (if q = p then Some e else ptLook st q))
     \<and> (\<forall>q t. tpath q \<longrightarrow> ptTbl st q = Some t \<longrightarrow> ptTbl st' q = Some t)
     \<and> ptTbl st' (take 3 p) \<noteq> None \<and> freeLoss 3 (pmmFree (tpmm st)) (pmmFree (tpmm st'))"

lemma prefix_full: "length p = length q \<Longrightarrow> prefix p q \<longleftrightarrow> q = p"
  by (auto elim!: prefixE)

lemma look_leaf:
  "ptTbl st [pml4Index v, pdptIndex v, pdIndex v] = Some t \<Longrightarrow>
   ptLook st (kpath v) = (if has (ents st t (ptIndex v)) X86_PTE_P then Some (ents st t (ptIndex v)) else None)"
  using look_append [of "ents st" "kernelPml4Phys st" "[pml4Index v, pdptIndex v, pdIndex v]" t "[ptIndex v]"]
  by (simp add: kpath_def look.simps(2))

lemma leaf_written:
  assumes g: "grows 3 st0 st" and t: "ptTbl st [pml4Index v, pdptIndex v, pdIndex v] = Some t" and e: "has e X86_PTE_P"
    and ab: "\<not> has (ents st t (ptIndex v)) X86_PTE_P"
  shows "mapped1 st0 (kpath v) e (setEntry st (pmmHhdmBaseValue (tpmm st) + t) (ptIndex v) e)"
proof -
  define st' where "st' = setEntry st (pmmHhdmBaseValue (tpmm st) + t) (ptIndex v) e"
  have w: "ptWf st" using g by (simp add: grows_def)
  have len: "length [pml4Index v, pdptIndex v, pdIndex v] = 3" by simp
  note L = write_leaf [OF w tpath_kpath(4) t index_lt(4) disjI1 [OF len] disjI1 [OF len] st'_def]
  have pr: "prefix ([pml4Index v, pdptIndex v, pdIndex v] @ [ptIndex v]) q \<longleftrightarrow> q = kpath v" if "fpath q" for q
    using that prefix_full [of "kpath v" q] unfolding kpath_split [symmetric] by (simp add: fpath_def kpath_def)
  have "ptWf st'" "pgSame st0 st'" using L(1,2) g pgSame_trans by (auto simp: grows_def)
  moreover have "ptLook st0 (kpath v) = None"
    using look_leaf [OF t] ab grows_look [OF g fpath_kpath, of v] by simp
  moreover have "ptLook st' q = (if q = kpath v then Some e else ptLook st0 q)" if "fpath q" for q
    using L(5) [OF that] pr [OF that] e grows_look [OF g that] by simp
  moreover have "ptTbl st' q = Some u" if "tpath q" "ptTbl st0 q = Some u" for q u
    using L(3) [OF that(1)] g that by (simp add: grows_def)
  moreover have "ptTbl st' (take 3 (kpath v)) = Some t"
    using L(3) [OF tpath_kpath(4) [of v]] t by (simp add: kpath_def)
  ultimately show ?thesis
    unfolding mapped1_def st'_def [symmetric] using L(4) g by (simp add: grows_def)
qed

lemma mapPage_effect:
  assumes w: "ptWf st" and lf: "has lf X86_PTE_P"
  shows "case mapPage st v pa lf of
      (st', Inr _) \<Rightarrow> mapped1 st (kpath v) ((pa AND X86_PTE_ADDR_MASK) OR lf) st'
    | (st', Inl e) \<Rightarrow> grows 3 st st' \<and> (e = STATUS_ERR_INVALID \<and> ptLook st (kpath v) \<noteq> None \<or> e = STATUS_ERR_NO_MEMORY \<and> pmmFree (tpmm st') = {})"
    (is "?Q (mapPage st v pa lf)")
proof -
  have e: "has ((pa AND X86_PTE_ADDR_MASK) OR lf) X86_PTE_P" using lf by (simp add: has_bit bit_or_iff)
  have k: "kpath v = [] @ pml4Index v # [pdptIndex v, pdIndex v, ptIndex v]" "kpath v = [pml4Index v] @ pdptIndex v # [pdIndex v, ptIndex v]"
    "kpath v = [pml4Index v, pdptIndex v] @ pdIndex v # [ptIndex v]" by (simp_all add: kpath_def)
  note f = fpath_kpath [of v]
  show ?thesis unfolding mapPage_def root_ok(2) [OF w]
  proof (rule table_step [where Q = ?Q, OF grows_refl [OF w, of 0] f [unfolded k(1)]], goal_cases)
    case (4 st1 n1)
    show ?case
    proof (rule table_step [where Q = ?Q, OF 4(1) f [unfolded k(2)]], goal_cases)
      case (4 st2 n2)
      show ?case
      proof (rule table_step [where Q = ?Q, OF 4(1) f [unfolded k(3)]], goal_cases)
        case (4 st3 n3)
        have g3: "grows 3 st st3" by (rule grows_mono [OF 4(1)]) simp
        have t: "ptTbl st3 [pml4Index v, pdptIndex v, pdIndex v] = Some n3" using 4(2) by (simp)
        show ?case
        proof (cases "has (ents st3 n3 (ptIndex v)) X86_PTE_P")
          case True
          then have "ptLook st (kpath v) \<noteq> None"
            using look_leaf [OF t] grows_look [OF g3 fpath_kpath, of v] by simp
          then show ?thesis using True g3 by (simp add: getEntry_ents)
        next
          case False
          then show ?thesis using leaf_written [OF g3 t e False] by (simp add: getEntry_ents)
        qed
      qed (use 4 grows_mono [OF 4(1)] in \<open>simp_all add: k(3)\<close>)
    qed (use 4 grows_mono [OF 4(1)] in \<open>simp_all add: k(2)\<close>)
  qed (use grows_refl [OF w] in \<open>simp_all add: k(1)\<close>)
qed

section \<open>Ranges of pages\<close>

lemma tpath_take3: "fpath p \<Longrightarrow> tpath (take 3 p)"
  by (auto simp: fpath_def tpath_def dest: in_set_takeD)

definition mappedAll :: "nat \<Rightarrow> Paging \<Rightarrow> (nat list \<times> u64) list \<Rightarrow> Paging \<Rightarrow> bool" where
  "mappedAll m st ps st' \<longleftrightarrow> ptWf st' \<and> pgSame st st' \<and> (\<forall>p \<in> fst ` set ps. ptLook st p = None \<and> ptTbl st' (take 3 p) \<noteq> None)
     \<and> (\<forall>q. fpath q \<longrightarrow> ptLook st' q = (case map_of ps q of None \<Rightarrow> ptLook st q | Some e \<Rightarrow> Some e))
     \<and> distinct (map fst ps) \<and> freeLoss m (pmmFree (tpmm st)) (pmmFree (tpmm st'))"

lemma mappedAll_grows: "grows m st st' \<Longrightarrow> mappedAll m st [] st'"
  by (simp add: mappedAll_def grows_def)

lemma mappedAll_Cons:
  assumes a: "mapped1 st p e st1" and b: "mappedAll m st1 ps st2" and f: "fpath p" "\<forall>q \<in> fst ` set ps. fpath q"
    and mono: "\<And>q t. tpath q \<Longrightarrow> ptTbl st1 q = Some t \<Longrightarrow> ptTbl st2 q = Some t"
  shows "mappedAll (3 + m) st ((p, e) # ps) st2"
proof -
  have lk: "ptLook st1 q = (if q = p then Some e else ptLook st q)" if "fpath q" for q using a that by (simp add: mapped1_def)
  have np: "p \<notin> fst ` set ps" using b lk [OF f(1)] by (auto simp: mappedAll_def)
  have "ptLook st q = None" if "q \<in> fst ` set ps" for q
  proof -
    have "ptLook st1 q = None" "fpath q" "q \<noteq> p" using that b f(2) np by (auto simp: mappedAll_def)
    then show ?thesis using lk [of q] by simp
  qed
  moreover have "ptTbl st2 (take 3 p) \<noteq> None" using a mono [OF tpath_take3 [OF f(1)]] by (auto simp: mapped1_def)
  moreover have "map_of ps p = None" using np by (simp add: map_of_eq_None_iff)
  then have "ptLook st2 q = (case map_of ((p, e) # ps) q of None \<Rightarrow> ptLook st q | Some e \<Rightarrow> Some e)" if "fpath q" for q
    using b lk [OF that] that by (auto simp: mappedAll_def split: option.splits)
  ultimately show ?thesis
    using a b np pgSame_trans [of st st1 st2] freeLoss_trans [of 3 "pmmFree (tpmm st)" "pmmFree (tpmm st1)" m "pmmFree (tpmm st2)"]
    by (auto simp: mappedAll_def mapped1_def)
qed

definition pageList :: "u64 \<Rightarrow> u64 \<Rightarrow> u64 \<Rightarrow> u64 list \<Rightarrow> (nat list \<times> u64) list" where
  "pageList va pa lf offs = map (\<lambda>off. (kpath (va + off), ((pa + off) AND X86_PTE_ADDR_MASK) OR lf)) offs"

lemma pageList_paths: "fst ` set (pageList va pa lf offs) = (\<lambda>off. kpath (va + off)) ` set offs"
  by (force simp: pageList_def)

lemma mapLoop_effect:
  assumes "ptWf st" and lf: "has lf X86_PTE_P"
  shows "case mapLoop va pa lf offs st mapped of (st', mapped', r) \<Rightarrow>
      \<exists>k \<le> length offs. mapped' = mapped + of_nat k * X86_PTE_SIZE_4K \<and> mappedAll (3 * length offs) st (pageList va pa lf (take k offs)) st'
      \<and> (\<forall>q t. tpath q \<longrightarrow> ptTbl st q = Some t \<longrightarrow> ptTbl st' q = Some t)
      \<and> (case r of Inr _ \<Rightarrow> k = length offs
         | Inl e \<Rightarrow> k < length offs \<and> (e = STATUS_ERR_INVALID \<and> ptLook st' (kpath (va + offs ! k)) \<noteq> None
             \<or> e = STATUS_ERR_NO_MEMORY \<and> pmmFree (tpmm st') = {}))"
  using assms(1)
proof (induction offs arbitrary: st mapped)
  case Nil
  then show ?case using mappedAll_grows [OF grows_refl] by (simp add: pageList_def)
next
  case (Cons off offs)
  obtain st1 r1 where m: "mapPage st (va + off) (pa + off) lf = (st1, r1)" by fastforce
  note M = mapPage_effect [OF Cons.prems lf, of "va + off" "pa + off", unfolded m]
  show ?case
  proof (cases r1)
    case (Inl e)
    have g: "grows 3 st st1" using M Inl by simp
    then have "mappedAll (3 * length (off # offs)) st (pageList va pa lf (take 0 (off # offs))) st1"
      using mappedAll_grows [OF grows_mono [OF g]] by (simp add: pageList_def)
    moreover have ml: "mapLoop va pa lf (off # offs) st mapped = (st1, mapped, Inl e)" using m Inl by simp
    moreover have "\<forall>q t. tpath q \<longrightarrow> ptTbl st q = Some t \<longrightarrow> ptTbl st1 q = Some t" using g by (simp add: grows_def)
    moreover have "e = STATUS_ERR_INVALID \<and> ptLook st1 (kpath (va + (off # offs) ! 0)) \<noteq> None \<or> e = STATUS_ERR_NO_MEMORY \<and> pmmFree (tpmm st1) = {}"
      using M Inl grows_look [OF g fpath_kpath, of "va + off"] by simp
    moreover have "mapped = mapped + of_nat 0 * X86_PTE_SIZE_4K" by simp
    ultimately show ?thesis unfolding ml prod.case sum.case by (intro exI [of _ 0] conjI; (assumption | simp))
  next
    case (Inr u)
    then have a: "mapped1 st (kpath (va + off)) (((pa + off) AND X86_PTE_ADDR_MASK) OR lf) st1" using M by simp
    then have w1: "ptWf st1" by (simp add: mapped1_def)
    obtain st2 mapped2 r2 where l: "mapLoop va pa lf offs st1 (mapped + X86_PTE_SIZE_4K) = (st2, mapped2, r2)" by (metis prod_cases3)
    obtain k where k: "k \<le> length offs" "mapped2 = mapped + X86_PTE_SIZE_4K + of_nat k * X86_PTE_SIZE_4K"
      "mappedAll (3 * length offs) st1 (pageList va pa lf (take k offs)) st2" and t: "\<forall>q t. tpath q \<longrightarrow> ptTbl st1 q = Some t \<longrightarrow> ptTbl st2 q = Some t"
      and r: "case r2 of Inr _ \<Rightarrow> k = length offs
         | Inl e \<Rightarrow> k < length offs \<and> (e = STATUS_ERR_INVALID \<and> ptLook st2 (kpath (va + offs ! k)) \<noteq> None
             \<or> e = STATUS_ERR_NO_MEMORY \<and> pmmFree (tpmm st2) = {})"
      using Cons.IH [OF w1, of "mapped + X86_PTE_SIZE_4K"] unfolding l by auto
    have "mappedAll (3 * length (off # offs)) st (pageList va pa lf (take (Suc k) (off # offs))) st2"
      using mappedAll_Cons [OF a k(3) fpath_kpath] t by (auto simp: pageList_def)
    moreover have "mapped2 = mapped + of_nat (Suc k) * X86_PTE_SIZE_4K" using k(2) by (simp add: algebra_simps)
    moreover have "\<forall>q u. tpath q \<longrightarrow> ptTbl st q = Some u \<longrightarrow> ptTbl st2 q = Some u" using a t by (auto simp: mapped1_def)
    moreover have "mapLoop va pa lf (off # offs) st mapped = (st2, mapped2, r2)" using m Inr l by simp
    ultimately show ?thesis using k(1) r by (auto split: sum.splits intro!: exI [of _ "Suc k"])
  qed
qed

lemma clearLeaf_effect:
  assumes w: "ptWf st" and t: "ptTbl st (take 3 (kpath va)) \<noteq> None"
  shows "\<exists>st'. clearLeaf st va = Ret st' \<and> ptWf st' \<and> pgSame st st' \<and> (\<forall>q. tpath q \<longrightarrow> ptTbl st' q = ptTbl st q)
    \<and> (\<forall>q. fpath q \<longrightarrow> ptLook st' q = (if q = kpath va then None else ptLook st q)) \<and> pmmFree (tpmm st') = pmmFree (tpmm st)"
proof -
  have k: "take 3 (kpath va) = [pml4Index va, pdptIndex va, pdIndex va]" by (simp add: kpath_def)
  obtain n where n: "ptTbl st [pml4Index va, pdptIndex va, pdIndex va] = Some n" using t k by auto
  define st' where "st' = setEntry st (pmmHhdmBaseValue (tpmm st) + n) (ptIndex va) 0"
  have c: "clearLeaf st va = Ret st'"
    by (simp add: clearLeaf_def findLeafPte_tbl [OF w] n st'_def setEntry_def)
  have len: "length [pml4Index va, pdptIndex va, pdIndex va] = 3" by simp
  note L = write_leaf [OF w tpath_kpath(4) n index_lt(4) disjI1 [OF len] disjI1 [OF len] st'_def]
  have "prefix ([pml4Index va, pdptIndex va, pdIndex va] @ [ptIndex va]) q \<longleftrightarrow> q = kpath va" if "fpath q" for q
    using that prefix_full [of "kpath va" q] unfolding kpath_split [symmetric] by (simp add: fpath_def kpath_def)
  then have "ptLook st' q = (if q = kpath va then None else ptLook st q)" if "fpath q" for q
    using L(5) [OF that] that by simp
  then show ?thesis using c L(1-4) by blast
qed

lemma clearLeaves_effect:
  assumes "ptWf st" "\<forall>off \<in> set offs. ptTbl st (take 3 (kpath (va + off))) \<noteq> None"
  shows "\<exists>st'. clearLeaves va offs st = Ret st' \<and> ptWf st' \<and> pgSame st st' \<and> (\<forall>q. tpath q \<longrightarrow> ptTbl st' q = ptTbl st q)
    \<and> (\<forall>q. fpath q \<longrightarrow> ptLook st' q = (if q \<in> (\<lambda>off. kpath (va + off)) ` set offs then None else ptLook st q)) \<and> pmmFree (tpmm st') = pmmFree (tpmm st)"
  using assms
proof (induction offs arbitrary: st)
  case (Cons off offs)
  have "ptTbl st (take 3 (kpath (va + off))) \<noteq> None" using Cons.prems(2) by simp
  from clearLeaf_effect [OF Cons.prems(1) this] obtain st1 where s1: "clearLeaf st (va + off) = Ret st1" "ptWf st1" "pgSame st st1"
    "\<forall>q. tpath q \<longrightarrow> ptTbl st1 q = ptTbl st q" "\<forall>q. fpath q \<longrightarrow> ptLook st1 q = (if q = kpath (va + off) then None else ptLook st q)"
    "pmmFree (tpmm st1) = pmmFree (tpmm st)" by blast
  have "\<forall>off \<in> set offs. ptTbl st1 (take 3 (kpath (va + off))) \<noteq> None"
    using Cons.prems(2) s1(4) tpath_take3 [OF fpath_kpath] by simp
  from Cons.IH [OF s1(2) this] obtain st2 where s2: "clearLeaves va offs st1 = Ret st2" "ptWf st2" "pgSame st1 st2"
    "\<forall>q. tpath q \<longrightarrow> ptTbl st2 q = ptTbl st1 q"
    "\<forall>q. fpath q \<longrightarrow> ptLook st2 q = (if q \<in> (\<lambda>off. kpath (va + off)) ` set offs then None else ptLook st1 q)"
    "pmmFree (tpmm st2) = pmmFree (tpmm st1)" by blast
  have "clearLeaves va (off # offs) st = Ret st2" using s1(1) s2(1) by simp
  then show ?case using s1 s2 pgSame_trans [OF s1(3) s2(3)] by simp
qed simp

text \<open>Failure of the mapping loop, with the rollback: no leaf is left behind.\<close>

lemma pageOffsets_aligned:
  assumes "unat sz = 4096 * n"
  shows "pageOffsets sz = map (\<lambda>k. of_nat k * X86_PTE_SIZE_4K) [0..<n]"
proof -
  have "(4096 * n + 4095) div 4096 = n" by simp
  then show ?thesis by (simp add: pageOffsets_def assms)
qed

lemma rollback:
  assumes w: "mappedAll m st (pageList va pa lf offs) st1"
  shows "\<exists>st2. clearLeaves va offs st1 = Ret st2 \<and> ptWf st2 \<and> pgSame st st2
    \<and> (\<forall>q. fpath q \<longrightarrow> ptLook st2 q = ptLook st q) \<and> pmmFree (tpmm st2) = pmmFree (tpmm st1)"
proof -
  let ?P = "(\<lambda>off. kpath (va + off)) ` set offs"
  have m: "ptWf st1" "pgSame st st1" "\<forall>p \<in> ?P. ptLook st p = None \<and> ptTbl st1 (take 3 p) \<noteq> None"
    "\<forall>q. fpath q \<longrightarrow> ptLook st1 q = (case map_of (pageList va pa lf offs) q of None \<Rightarrow> ptLook st q | Some e \<Rightarrow> Some e)"
    using w unfolding mappedAll_def pageList_paths by auto
  from clearLeaves_effect [OF m(1), of offs va] m(3) obtain st2 where s2: "clearLeaves va offs st1 = Ret st2" "ptWf st2" "pgSame st1 st2"
    "\<forall>q. fpath q \<longrightarrow> ptLook st2 q = (if q \<in> ?P then None else ptLook st1 q)" "pmmFree (tpmm st2) = pmmFree (tpmm st1)" by auto
  have "ptLook st2 q = ptLook st q" if "fpath q" for q
  proof (cases "q \<in> ?P")
    case True
    then have "ptLook st q = None" using bspec [OF m(3) True] by simp
    then show ?thesis using s2(4) True that by simp
  next
    case False
    then have "map_of (pageList va pa lf offs) q = None" by (metis map_of_eq_None_iff pageList_paths)
    then show ?thesis using s2(4) m(4) False that by simp
  qed
  then show ?thesis using s2 m pgSame_trans [OF m(2) s2(3)] by blast
qed

end
