(* ===== verification/Paging_Ops.thy ===== *)
theory Paging_Ops
  imports Paging_Map Pmm_Props
begin

text \<open>
  The contract of \<open>archMapPages\<close>, \<open>archUnmapPages\<close> and \<open>archLookupKernel\<close>, over the leaf entry of every
  virtual address: what is mapped afterwards, what a lookup returns, that a failed call leaves every
  mapping as it was, and that unmapping undoes mapping.
\<close>

section \<open>Virtual page numbers\<close>

text \<open>The page of the 48-bit address space an address lies in.\<close>

definition vpn :: "u64 \<Rightarrow> nat" where
  "vpn va = unat va mod 2 ^ 48 div 4096"

lemma vpn_bits: "vpn va = drop_bit 12 (take_bit 48 (unat va))"
  by (simp add: vpn_def drop_bit_eq_div take_bit_eq_mod)

lemma index_vpn:
  "pml4Index va = take_bit 9 (drop_bit 27 (vpn va))" "pdptIndex va = take_bit 9 (drop_bit 18 (vpn va))"
  "pdIndex va = take_bit 9 (drop_bit 9 (vpn va))" "ptIndex va = take_bit 9 (vpn va)"
proof -
  have m: "(511 :: u64) = mask 9" by (simp add: mask_eq_exp_minus_1)
  have v: "take_bit 64 (unat va) = unat va" using unat_lt_64 [of va] by (simp add: take_bit_nat_eq_self)
  have u: "unat (drop_bit n va AND 511) = take_bit 9 (drop_bit n (unat va))" for n
    unfolding m take_bit_eq_mask [symmetric] by (simp add: unsigned_take_bit_eq unsigned_drop_bit_eq v)
  have t: "take_bit 9 (drop_bit (12 + k) x) = take_bit 9 (drop_bit k (drop_bit 12 (take_bit 48 x)))" if "k \<le> 27" for k and x :: nat
    by (rule bit_eqI) (use that in \<open>auto simp: bit_take_bit_iff bit_drop_bit_eq ac_simps\<close>)
  show "pml4Index va = take_bit 9 (drop_bit 27 (vpn va))" "pdptIndex va = take_bit 9 (drop_bit 18 (vpn va))"
    "pdIndex va = take_bit 9 (drop_bit 9 (vpn va))" "ptIndex va = take_bit 9 (vpn va)"
    using t [of 27 "unat va"] t [of 18 "unat va"] t [of 9 "unat va"] t [of 0 "unat va"]
    by (simp_all add: pml4Index_def pdptIndex_def pdIndex_def ptIndex_def u vpn_bits)
qed

lemma kpath_vpn: "kpath a = kpath b \<longleftrightarrow> vpn a = vpn b"
proof
  assume k: "kpath a = kpath b"
  show "vpn a = vpn b"
  proof (rule bit_eqI)
    fix n
    have d: "bit (vpn c) n \<longleftrightarrow> n < 36 \<and> bit (take_bit 9 (drop_bit (9 * (n div 9)) (vpn c))) (n mod 9)" for c
    proof -
      have "bit (vpn c) n \<Longrightarrow> n < 36" by (simp add: vpn_bits bit_drop_bit_eq bit_take_bit_iff)
      moreover have "9 * (n div 9) + n mod 9 = n" by simp
      ultimately show ?thesis by (auto simp: bit_take_bit_iff bit_drop_bit_eq)
    qed
    have "n < 36 \<Longrightarrow> n div 9 = 0 \<or> n div 9 = 1 \<or> n div 9 = 2 \<or> n div 9 = 3" by linarith
    then show "bit (vpn a) n \<longleftrightarrow> bit (vpn b) n"
      using k unfolding kpath_def index_vpn by (subst (1 2) d) auto
  qed
qed (simp add: kpath_def index_vpn)

lemma vpn_add:
  assumes "unat va + unat d < 2 ^ 64"
  shows "vpn (va + d) = (unat va + unat d) mod 2 ^ 48 div 4096"
  using assms by (simp add: vpn_def unat_add_nowrap)

section \<open>Flags\<close>

lemma low_mask: "(x :: u64) AND (X86_PTE_SIZE_4K - 1) = 0 \<longleftrightarrow> 4096 dvd unat x"
proof -
  have "X86_PTE_SIZE_4K - 1 = mask 12" by (simp add: X86_PTE_SIZE_4K_def mask_eq_exp_minus_1)
  then have "x AND (X86_PTE_SIZE_4K - 1) = take_bit 12 x" by (simp add: take_bit_eq_mask)
  moreover have "unat (take_bit 12 x) = unat x mod 4096" by (simp add: take_bit_eq_mod unat_mod_distrib)
  ultimately show ?thesis by (metis dvd_eq_mod_eq_0 unat_eq_zero)
qed

lemma or_zero: "((a :: u64) OR b) AND c = 0 \<longleftrightarrow> a AND c = 0 \<and> b AND c = 0"
  by (simp add: bit.conj_disj_distrib2 or_eq_0_iff)

lemma flag_cases:
  fixes fl :: VmmFlags
  assumes "fl AND VMM_EXEC = 0" "fl AND NOT VMM_FLAGS_VALID = 0" "fl AND VMM_CACHE_MASK \<noteq> VMM_CACHE_MASK"
  shows "fl \<in> {0, 1, 4, 5, 8, 9}"
proof -
  have m: "VMM_FLAGS_VALID = mask 4" by (simp add: vmm_consts mask_eq_exp_minus_1)
  have "fl = (fl AND VMM_FLAGS_VALID) OR (fl AND NOT VMM_FLAGS_VALID)"
    by (rule bit_word_eqI) (auto simp: bit_simps)
  then have "fl = take_bit 4 fl" using assms(2) by (simp add: m take_bit_eq_mask)
  then have "unat fl = take_bit 4 (unat fl)" by (metis unsigned_take_bit_eq)
  then have "unat fl < 16" using take_bit_nat_less_exp [of 4 "unat fl"] by simp
  then have "unat fl \<in> {0..<16}" by simp
  then have "fl \<in> of_nat ` {0..<16}" by (intro image_eqI [of _ _ "unat fl"]) simp_all
  then have "fl \<in> {0,1,2,3,4,5,6,7,8,9,10,11,12,13,14,15}" by (auto simp: atLeastLessThan_nat_numeral)
  then show ?thesis using assms by (auto simp: vmm_consts)
qed

lemma leafFlags_values:
  "leafFlagsFor 0 = 0x8000000000000101" "leafFlagsFor 1 = 0x8000000000000103" "leafFlagsFor 4 = 0x8000000000000109"
  "leafFlagsFor 5 = 0x800000000000010B" "leafFlagsFor 8 = 0x8000000000000119" "leafFlagsFor 9 = 0x800000000000011B"
  by (simp_all add: leafFlagsFor_def Let_def vmm_consts pte_consts)

lemma leafFlags_roundtrip:
  assumes fl: "fl \<in> {0, 1, 4, 5, 8, 9 :: u32}" and pa: "4096 dvd unat pa" "unat pa < 2 ^ 52"
  shows "(pa OR leafFlagsFor fl) AND X86_PTE_ADDR_MASK = pa" "leafVmmFlags (pa OR leafFlagsFor fl) = fl"
    "has (leafFlagsFor fl) X86_PTE_P" "has (pa OR leafFlagsFor fl) X86_PTE_NX"
    "has (pa OR leafFlagsFor fl) X86_PTE_W \<longleftrightarrow> fl AND VMM_WRITE \<noteq> 0" "has (pa OR leafFlagsFor fl) X86_PTE_G"
proof -
  have z: "\<not> bit pa k" if "k < 12 \<or> 52 \<le> k" for k using page_aligned_bit [OF pa(1), of k] unat_bit_lt [OF pa(2), of k] that by auto
  have f: "leafFlagsFor fl \<in> {0x8000000000000101, 0x8000000000000103, 0x8000000000000109, 0x800000000000010B, 0x8000000000000119, 0x800000000000011B}"
    using fl by (auto simp: leafFlags_values)
  then have "leafFlagsFor fl AND X86_PTE_ADDR_MASK = 0" by (auto simp: pte_consts)
  then show "(pa OR leafFlagsFor fl) AND X86_PTE_ADDR_MASK = pa"
    using addr_mask_id [OF pa] by (simp add: bit.conj_disj_distrib2)
  show "has (leafFlagsFor fl) X86_PTE_P" "has (pa OR leafFlagsFor fl) X86_PTE_NX" "has (pa OR leafFlagsFor fl) X86_PTE_G"
    using f by (auto simp: has_bit bit_or_iff)
  show "leafVmmFlags (pa OR leafFlagsFor fl) = fl" "has (pa OR leafFlagsFor fl) X86_PTE_W \<longleftrightarrow> fl AND VMM_WRITE \<noteq> 0"
    using fl by (elim insertE emptyE; simp add: leafVmmFlags_def Let_def has_bit bit_or_iff z leafFlags_values vmm_consts)+
qed

section \<open>The operations\<close>

definition pagingOk :: "Paging \<Rightarrow> bool" where
  "pagingOk st \<longleftrightarrow> ptWf st \<and> tablesActive st \<and> unat (physLimit st) < 2 ^ 52"

text \<open>What the operations never change.\<close>

definition keeps :: "Paging \<Rightarrow> Paging \<Rightarrow> bool" where
  "keeps st st' \<longleftrightarrow> kernelPml4Phys st' = kernelPml4Phys st \<and> tablesActive st' = tablesActive st \<and> has1GPages st' = has1GPages st
     \<and> kernelRoPhysStart st' = kernelRoPhysStart st \<and> kernelRoPhysEnd st' = kernelRoPhysEnd st
     \<and> pmmHhdmBaseValue (tpmm st') = pmmHhdmBaseValue (tpmm st) \<and> pmmFree (tpmm st') \<subseteq> pmmFree (tpmm st)"

lemma keeps_refl [simp]: "keeps st st"
  by (simp add: keeps_def)

lemma keeps_trans: "keeps a b \<Longrightarrow> keeps b c \<Longrightarrow> keeps a c"
  unfolding keeps_def by auto

lemma other_fields [simp]:
  "ents (st\<lparr>physLimit := l\<rparr>) = ents st" "tbok (st\<lparr>physLimit := l\<rparr>) = tbok st"
  "ents (st\<lparr>cpu := c\<rparr>) = ents st" "tbok (st\<lparr>cpu := c\<rparr>) = tbok st"
  by (simp_all add: ents_def tbok_def fun_eq_iff)

lemma other_fields_wf [simp]: "ptWf (st\<lparr>physLimit := l\<rparr>) = ptWf st" "ptWf (st\<lparr>cpu := c\<rparr>) = ptWf st"
  by (simp_all add: ptWf_def)

lemma tlb_fields [simp]:
  "ents (archTlbInvalidateKernelRange va sz st) = ents st" "ptWf (archTlbInvalidateKernelRange va sz st) = ptWf st"
  "kernelPml4Phys (archTlbInvalidateKernelRange va sz st) = kernelPml4Phys st" "tpmm (archTlbInvalidateKernelRange va sz st) = tpmm st"
  "tablesActive (archTlbInvalidateKernelRange va sz st) = tablesActive st" "physLimit (archTlbInvalidateKernelRange va sz st) = physLimit st"
  "keeps s (archTlbInvalidateKernelRange va sz st) = keeps s st"
  by (simp_all add: archTlbInvalidateKernelRange_def keeps_def)

lemma pgSame_keeps: "pgSame st st' \<Longrightarrow> pmmFree (tpmm st') \<subseteq> pmmFree (tpmm st) \<Longrightarrow> keeps st st'"
  using pgSame_fields [of st st'] by (simp add: keeps_def)

lemma pagingOk_same: "pagingOk st \<Longrightarrow> pgSame st st' \<Longrightarrow> ptWf st' \<Longrightarrow> pagingOk st'"
  using pgSame_fields [of st st'] by (simp add: pagingOk_def)

lemma physAddrLimit_props:
  assumes "unat (physLimit st) < 2 ^ 52"
  shows "physAddrLimit st = (st\<lparr>physLimit := snd (physAddrLimit st)\<rparr>, snd (physAddrLimit st))" "unat (snd (physAddrLimit st)) < 2 ^ 52"
proof -
  have "unat (push_bit n 1 - 1 :: u64) < 2 ^ 52" if "n \<le> 52" for n
  proof -
    have e: "(push_bit n 1 - 1 :: u64) = of_nat (2 ^ n - 1)" by (simp add: push_bit_eq_mult of_nat_diff)
    have l: "(2 :: nat) ^ n \<le> 2 ^ 52" using power_increasing [OF that, of "2 :: nat"] by simp
    have "2 ^ n - 1 < (2 :: nat) ^ LENGTH(64)" using l by simp
    then have "unat (push_bit n 1 - 1 :: u64) = 2 ^ n - 1" unfolding e by (rule unat_of_nat_eq)
    then show ?thesis using l zero_less_power [of "2 :: nat" n] by simp
  qed
  then show "unat (snd (physAddrLimit st)) < 2 ^ 52"
    using assms by (simp add: physAddrLimit_def Let_def word_less_nat_alt not_less word_le_nat_alt)
  show "physAddrLimit st = (st\<lparr>physLimit := snd (physAddrLimit st)\<rparr>, snd (physAddrLimit st))"
    by (simp add: physAddrLimit_def Let_def)
qed


text \<open>The guards of \<open>archMapPages\<close>.\<close>

definition mapArgsOk :: "Paging \<Rightarrow> u64 \<Rightarrow> u64 \<Rightarrow> u64 \<Rightarrow> VmmFlags \<Rightarrow> bool" where
  "mapArgsOk st va pa sz fl \<longleftrightarrow> 4096 dvd unat va \<and> 4096 dvd unat pa \<and> 4096 dvd unat sz \<and> sz \<noteq> 0
     \<and> unat pa + unat sz \<le> unat (snd (physAddrLimit st)) + 1 \<and> fl \<in> {0, 1, 4, 5, 8, 9}
     \<and> \<not> (fl AND VMM_WRITE \<noteq> 0 \<and> pa < kernelRoPhysEnd st \<and> kernelRoPhysStart st < pa + sz)
     \<and> (\<forall>off \<in> set (pageOffsets sz). fst (hhdmAliasCache st (pa + off)) \<longrightarrow> snd (hhdmAliasCache st (pa + off)) = fl AND VMM_CACHE_MASK)"

lemma table_limit [simp]: "tableAt (st\<lparr>physLimit := l\<rparr>) = tableAt st" "getEntry (st\<lparr>physLimit := l\<rparr>) = getEntry st"
  by (simp_all add: fun_eq_iff tableAt_def getEntry_def)

lemma walk_limit [simp]:
  "findAnyLeafEntry (st\<lparr>physLimit := l\<rparr>) = findAnyLeafEntry st" "findLeafPte (st\<lparr>physLimit := l\<rparr>) = findLeafPte st"
  by (simp_all add: fun_eq_iff findAnyLeafEntry_def findLeafPte_def Let_def)

lemma alias_limit [simp]: "hhdmAliasCache (st\<lparr>physLimit := l\<rparr>) = hhdmAliasCache st"
  by (simp add: fun_eq_iff hhdmAliasCache_def hhdmLeafEntry_def)

lemma last_page:
  fixes pa sz :: u64
  assumes "sz \<noteq> 0"
  shows "pa + (sz - 1) < pa \<longleftrightarrow> 2 ^ 64 < unat pa + unat sz"
    and "\<not> pa + (sz - 1) < pa \<Longrightarrow> unat (pa + (sz - 1)) = unat pa + unat sz - 1"
proof -
  have p: "0 < unat sz" using assms by (simp add: unat_gt_0)
  then have s: "unat (sz - 1) = unat sz - 1" by (subst unat_sub_le) simp_all
  show w: "pa + (sz - 1) < pa \<longleftrightarrow> 2 ^ 64 < unat pa + unat sz" using p by (auto simp: wrap_add_less_iff s)
  show "unat (pa + (sz - 1)) = unat pa + unat sz - 1" if "\<not> pa + (sz - 1) < pa"
    using that p w by (subst unat_add_nowrap) (simp_all add: s)
qed

lemma archMap_eq:
  assumes ok: "pagingOk st"
  defines "l \<equiv> snd (physAddrLimit st)"
  shows "mapArgsOk st va pa sz fl \<Longrightarrow> archMapPages st va pa sz fl =
      (case mapLoop va pa (leafFlagsFor fl) (pageOffsets sz) (st\<lparr>physLimit := l\<rparr>) 0 of
         (st1, mapped, Inr _) \<Rightarrow> Ret (st1, Inr ())
       | (st1, mapped, Inl e) \<Rightarrow> bindO (clearLeaves va (pageOffsets mapped) st1) (\<lambda>st2.
           Ret (if mapped > 0 then archTlbInvalidateKernelRange va mapped st2 else st2, Inl e)))"
    and "\<not> mapArgsOk st va pa sz fl \<Longrightarrow> \<exists>st' e. archMapPages st va pa sz fl = Ret (st', Inl e)
      \<and> (st' = st \<or> st' = st\<lparr>physLimit := l\<rparr>) \<and> e \<in> {STATUS_ERR_INVALID, STATUS_ERR_UNSUPPORTED}"
proof -
  have act: "tablesActive st" and P: "physAddrLimit st = (st\<lparr>physLimit := l\<rparr>, l)"
    using ok physAddrLimit_props(1) [of st] by (auto simp: pagingOk_def l_def)
  have al: "(va OR pa OR sz) AND (X86_PTE_SIZE_4K - 1) \<noteq> 0 \<longleftrightarrow> \<not> (4096 dvd unat va \<and> 4096 dvd unat pa \<and> 4096 dvd unat sz)"
    by (simp add: or_zero flip: low_mask)
  have lim: "(pa + (sz - 1) < pa \<or> pa + (sz - 1) > l) \<longleftrightarrow> \<not> unat pa + unat sz \<le> unat l + 1" if "sz \<noteq> 0"
  proof (cases "pa + (sz - 1) < pa")
    case True
    then show ?thesis using last_page(1) [OF that, of pa] unat_lt_64 [of l] by simp
  next
    case False
    then show ?thesis using last_page(2) [OF that False] unat_gt_0 [of sz] that by (auto simp: word_less_nat_alt)
  qed
  have fl: "fl AND VMM_EXEC = 0 \<and> \<not> (fl AND NOT VMM_FLAGS_VALID \<noteq> 0 \<or> fl AND VMM_CACHE_MASK = VMM_CACHE_MASK) \<longleftrightarrow> fl \<in> {0, 1, 4, 5, 8, 9}"
    using flag_cases [of fl] by (auto simp: vmm_consts)
  have ali: "list_ex (\<lambda>off. let (present, aliasCache) = hhdmAliasCache st (pa + off) in present \<and> aliasCache \<noteq> fl AND VMM_CACHE_MASK) (pageOffsets sz)
      \<longleftrightarrow> \<not> (\<forall>off \<in> set (pageOffsets sz). fst (hhdmAliasCache st (pa + off)) \<longrightarrow> snd (hhdmAliasCache st (pa + off)) = fl AND VMM_CACHE_MASK)"
    by (auto simp: list_ex_iff Let_def split_def)
  note D = archMapPages_def [of st va pa sz fl, unfolded al P Let_def prod.case, simplified act simp_thms if_False alias_limit]
  show "mapArgsOk st va pa sz fl \<Longrightarrow> archMapPages st va pa sz fl =
      (case mapLoop va pa (leafFlagsFor fl) (pageOffsets sz) (st\<lparr>physLimit := l\<rparr>) 0 of
         (st1, mapped, Inr _) \<Rightarrow> Ret (st1, Inr ())
       | (st1, mapped, Inl e) \<Rightarrow> bindO (clearLeaves va (pageOffsets mapped) st1) (\<lambda>st2.
           Ret (if mapped > 0 then archTlbInvalidateKernelRange va mapped st2 else st2, Inl e)))"
    unfolding D mapArgsOk_def l_def [symmetric] using lim fl ali by (simp, blast)
  show "\<not> mapArgsOk st va pa sz fl \<Longrightarrow> \<exists>st' e. archMapPages st va pa sz fl = Ret (st', Inl e)
      \<and> (st' = st \<or> st' = st\<lparr>physLimit := l\<rparr>) \<and> e \<in> {STATUS_ERR_INVALID, STATUS_ERR_UNSUPPORTED}"
    unfolding D mapArgsOk_def l_def [symmetric] using lim fl ali by auto
qed

lemma take_offsets:
  assumes "unat sz = 4096 * n" "k \<le> n"
  shows "pageOffsets (of_nat k * X86_PTE_SIZE_4K) = take k (pageOffsets sz)"
proof -
  have "of_nat k * X86_PTE_SIZE_4K = of_nat (4096 * k)" by (simp add: X86_PTE_SIZE_4K_def)
  moreover have "4096 * k < 2 ^ 64" using assms unat_lt_64 [of sz] by simp
  ultimately have "unat (of_nat k * X86_PTE_SIZE_4K) = 4096 * k" using unat_of_nat_eq [of "4096 * k", where 'a = 64] by simp
  then show ?thesis using assms by (simp add: pageOffsets_aligned take_map)
qed

definition mapFailed :: "Paging \<Rightarrow> u64 \<Rightarrow> u64 \<Rightarrow> u64 \<Rightarrow> VmmFlags \<Rightarrow> Paging \<Rightarrow> Status \<Rightarrow> bool" where
  "mapFailed st va pa sz fl st' e \<longleftrightarrow> (\<forall>q. fpath q \<longrightarrow> ptLook st' q = ptLook st q)
     \<and> (e = STATUS_ERR_NO_MEMORY \<and> card (pmmFree (tpmm st)) \<le> 3 * length (pageOffsets sz)
        \<or> e \<in> {STATUS_ERR_INVALID, STATUS_ERR_UNSUPPORTED} \<and> \<not> mapArgsOk st va pa sz fl
        \<or> e = STATUS_ERR_INVALID \<and> ((\<exists>off \<in> set (pageOffsets sz). ptLook st (kpath (va + off)) \<noteq> None)
             \<or> \<not> distinct (map (\<lambda>off. kpath (va + off)) (pageOffsets sz))))"

definition mapDone :: "Paging \<Rightarrow> u64 \<Rightarrow> u64 \<Rightarrow> u64 \<Rightarrow> VmmFlags \<Rightarrow> Paging \<Rightarrow> bool" where
  "mapDone st va pa sz fl st' \<longleftrightarrow> mapArgsOk st va pa sz fl
     \<and> (\<forall>off \<in> set (pageOffsets sz). ptLook st (kpath (va + off)) = None \<and> ptTbl st' (take 3 (kpath (va + off))) \<noteq> None)
     \<and> (\<forall>q. fpath q \<longrightarrow> ptLook st' q
          = (case map_of (pageList va pa (leafFlagsFor fl) (pageOffsets sz)) q of None \<Rightarrow> ptLook st q | Some e \<Rightarrow> Some e))
     \<and> distinct (map (\<lambda>off. kpath (va + off)) (pageOffsets sz))"

lemma pageList_fst: "map fst (pageList va pa lf offs) = map (\<lambda>off. kpath (va + off)) offs"
  by (simp add: pageList_def)

lemma mapLoop_failed:
  assumes m: "mappedAll c st (pageList va pa lf (take k offs)) st1" and k: "k < length offs"
    and l: "ptLook st1 (kpath (va + offs ! k)) \<noteq> None"
  shows "(\<exists>off \<in> set offs. ptLook st (kpath (va + off)) \<noteq> None) \<or> \<not> distinct (map (\<lambda>off. kpath (va + off)) offs)"
proof (cases "map_of (pageList va pa lf (take k offs)) (kpath (va + offs ! k))")
  case None
  then have "ptLook st (kpath (va + offs ! k)) \<noteq> None" using m l by (simp add: mappedAll_def)
  then show ?thesis using k nth_mem by blast
next
  case (Some e)
  have "kpath (va + offs ! k) \<in> (\<lambda>off. kpath (va + off)) ` set (take k offs)"
    using imageI [OF map_of_SomeD [OF Some], of fst] by (simp only: pageList_paths fst_conv)
  then obtain j where j: "j < k" "kpath (va + offs ! k) = kpath (va + offs ! j)"
    using k by (auto simp: in_set_conv_nth)
  then have "\<not> distinct (map (\<lambda>off. kpath (va + off)) offs)" 
    using k nth_eq_iff_index_eq [of "map (\<lambda>off. kpath (va + off)) offs" k j] by auto
  then show ?thesis by simp
qed

lemma archMap_effect:
  assumes ok: "pagingOk st"
  shows "\<exists>st' r. archMapPages st va pa sz fl = Ret (st', r) \<and> pagingOk st' \<and> keeps st st'
    \<and> (case r of Inr _ \<Rightarrow> mapDone st va pa sz fl st' | Inl e \<Rightarrow> mapFailed st va pa sz fl st' e)"
proof (cases "mapArgsOk st va pa sz fl")
  case False
  then show ?thesis
    using archMap_eq(2) [OF ok False] ok physAddrLimit_props(2) [of st] by (auto simp: pagingOk_def mapFailed_def keeps_def)
next
  case True
  define st0 where "st0 = st\<lparr>physLimit := snd (physAddrLimit st)\<rparr>"
  have w: "ptWf st0" "pagingOk st0" and k0: "keeps st st0"
    using ok physAddrLimit_props(2) [of st] by (simp_all add: st0_def pagingOk_def keeps_def)
  have lf: "has (leafFlagsFor fl) X86_PTE_P" using True leafFlags_roundtrip(3) [of fl 0] by (simp add: mapArgsOk_def)
  obtain n where n: "unat sz = 4096 * n" using True by (auto simp: mapArgsOk_def elim!: dvdE)
  obtain st1 mapped r where L: "mapLoop va pa (leafFlagsFor fl) (pageOffsets sz) st0 0 = (st1, mapped, r)" by (metis prod_cases3)
  from mapLoop_effect [OF w(1) lf, where va = va and pa = pa and offs = "pageOffsets sz" and mapped = 0] obtain k where k: "k \<le> length (pageOffsets sz)" "mapped = of_nat k * X86_PTE_SIZE_4K"
    and M: "mappedAll (3 * length (pageOffsets sz)) st0 (pageList va pa (leafFlagsFor fl) (take k (pageOffsets sz))) st1"
    and R: "case r of Inr _ \<Rightarrow> k = length (pageOffsets sz)
         | Inl e \<Rightarrow> k < length (pageOffsets sz) \<and> (e = STATUS_ERR_INVALID \<and> ptLook st1 (kpath (va + pageOffsets sz ! k)) \<noteq> None
             \<or> e = STATUS_ERR_NO_MEMORY \<and> pmmFree (tpmm st1) = {})"
    unfolding L by auto
  have same: "ptLook st0 = ptLook st" by (simp add: st0_def)
  note D = archMap_eq(1) [OF ok True, folded st0_def, unfolded L prod.case]
  show ?thesis
  proof (cases r)
    case (Inr u)
    then have M': "mappedAll (3 * length (pageOffsets sz)) st0 (pageList va pa (leafFlagsFor fl) (pageOffsets sz)) st1" using M R by simp
    then have "mapDone st va pa sz fl st1"
      unfolding mapDone_def mappedAll_def pageList_fst pageList_paths same using True by auto
    moreover have "pagingOk st1" "keeps st st1"
      using M' pagingOk_same [OF w(2)] keeps_trans [OF k0 pgSame_keeps] by (auto simp: mappedAll_def freeLoss_def)
    ultimately show ?thesis using D Inr by simp
  next
    case (Inl e)
    have kn: "k \<le> n" using k(1) n by (simp add: pageOffsets_aligned)
    obtain st2 where C: "clearLeaves va (take k (pageOffsets sz)) st1 = Ret st2" "ptWf st2" "pgSame st0 st2"
      "\<forall>q. fpath q \<longrightarrow> ptLook st2 q = ptLook st0 q" "pmmFree (tpmm st2) = pmmFree (tpmm st1)"
      using rollback [OF M] by auto
    define st3 where "st3 = (if mapped > 0 then archTlbInvalidateKernelRange va mapped st2 else st2)"
    have "archMapPages st va pa sz fl = Ret (st3, Inl e)"
      using D Inl C(1) take_offsets [OF n kn] by (simp add: k(2) st3_def)
    moreover have s3: "ptLook st3 = ptLook st2" "tpmm st3 = tpmm st2" by (simp_all add: st3_def)
    moreover have "pagingOk st3" "keeps st st3"
      using pagingOk_same [OF w(2) C(3,2)] keeps_trans [OF k0 pgSame_keeps [OF C(3)]] C(5) M
      by (auto simp: st3_def pagingOk_def mappedAll_def freeLoss_def)
    moreover have "card (pmmFree (tpmm st)) \<le> 3 * length (pageOffsets sz)" if "pmmFree (tpmm st1) = {}"
      using M that by (simp add: mappedAll_def freeLoss_def st0_def)
    then have "mapFailed st va pa sz fl st3 e"
      using R Inl C(4) mapLoop_failed [OF M] unfolding mapFailed_def s3 same by auto
    ultimately show ?thesis by (intro exI [of _ st3] exI [of _ "Inl e"]) simp
  qed
qed

section \<open>Reading the result\<close>

lemma offset_props:
  assumes "off \<in> set (pageOffsets sz)" "4096 dvd unat sz"
  shows "unat off < unat sz" "4096 dvd unat off" "unat off + 4096 \<le> unat sz"
proof -
  obtain n where n: "unat sz = 4096 * n" using assms(2) by (auto elim!: dvdE)
  then obtain k where k: "k < n" "off = of_nat k * X86_PTE_SIZE_4K" using assms(1) by (auto simp: pageOffsets_aligned)
  have "off = of_nat (4096 * k)" by (simp add: k(2) X86_PTE_SIZE_4K_def)
  moreover have "4096 * k < 2 ^ 64" using n k(1) unat_lt_64 [of sz] by simp
  ultimately have "unat off = 4096 * k" using unat_of_nat_eq [of "4096 * k", where 'a = 64] by simp
  then show "unat off < unat sz" "4096 dvd unat off" "unat off + 4096 \<le> unat sz" using n k(1) by simp_all
qed

lemma page_addr:
  assumes ok: "pagingOk st" and m: "mapArgsOk st va pa sz fl" and o: "off \<in> set (pageOffsets sz)"
  shows "unat (pa + off) = unat pa + unat off" "4096 dvd unat (pa + off)" "unat (pa + off) < 2 ^ 52"
proof -
  have a: "4096 dvd unat sz" "4096 dvd unat pa" "unat pa + unat sz \<le> unat (snd (physAddrLimit st)) + 1"
    using m by (simp_all add: mapArgsOk_def)
  have l: "unat (snd (physAddrLimit st)) < 2 ^ 52" using ok physAddrLimit_props(2) by (simp add: pagingOk_def)
  note O = offset_props [OF o a(1)]
  show u: "unat (pa + off) = unat pa + unat off" using a(3) l O(1) by (subst unat_add_nowrap) simp_all
  show "4096 dvd unat (pa + off)" "unat (pa + off) < 2 ^ 52" using u a(2,3) l O(1,2) by simp_all
qed

lemma leaf_read:
  assumes w: "ptWf st" and t: "ptTbl st (take 3 (kpath va)) \<noteq> None"
  shows "leafPresent st va \<longleftrightarrow> ptLook st (kpath va) \<noteq> None" "ptLook st (kpath va) = Some e \<Longrightarrow> physRam (tpmm st) (the (findLeafPte st va)) = e"
proof -
  have "take 3 (kpath va) = [pml4Index va, pdptIndex va, pdIndex va]" by (simp add: kpath_def)
  then obtain n where n: "ptTbl st [pml4Index va, pdptIndex va, pdIndex va] = Some n" using t by auto
  show "leafPresent st va \<longleftrightarrow> ptLook st (kpath va) \<noteq> None" "ptLook st (kpath va) = Some e \<Longrightarrow> physRam (tpmm st) (the (findLeafPte st va)) = e"
    using look_leaf [OF n] by (auto simp: leafPresent_def findLeafPte_tbl [OF w] n ents_def split: if_splits)
qed

lemma leafPresent_table: "ptWf st \<Longrightarrow> leafPresent st va \<Longrightarrow> ptTbl st (take 3 (kpath va)) \<noteq> None"
  by (auto simp: leafPresent_def findLeafPte_tbl kpath_def split: option.splits)

lemma mapDone_leaf:
  assumes ok: "pagingOk st" "pagingOk st'" and d: "mapDone st va pa sz fl st'" and o: "off \<in> set (pageOffsets sz)"
  shows "ptLook st' (kpath (va + off)) = Some ((pa + off) OR leafFlagsFor fl)" "leafPresent st' (va + off)"
    "archLookupKernel st' (va + off) = Ret (Inr (pa + off, fl))"
proof -
  have m: "mapArgsOk st va pa sz fl" and fl: "fl \<in> {0, 1, 4, 5, 8, 9}" and va: "4096 dvd unat va" "4096 dvd unat sz"
    using d by (auto simp: mapDone_def mapArgsOk_def)
  note A = page_addr [OF ok(1) m o] and F = leafFlags_roundtrip [OF fl page_addr(2,3) [OF ok(1) m o]]
  have "(kpath (va + off), ((pa + off) AND X86_PTE_ADDR_MASK) OR leafFlagsFor fl) \<in> set (pageList va pa (leafFlagsFor fl) (pageOffsets sz))"
    using o by (auto simp: pageList_def)
  then have "map_of (pageList va pa (leafFlagsFor fl) (pageOffsets sz)) (kpath (va + off)) = Some ((pa + off) OR leafFlagsFor fl)"
    using d addr_mask_id [OF A(2,3)] by (intro map_of_is_SomeI) (simp_all add: mapDone_def pageList_fst)
  then show l: "ptLook st' (kpath (va + off)) = Some ((pa + off) OR leafFlagsFor fl)" using d by (simp add: mapDone_def)
  have t: "ptTbl st' (take 3 (kpath (va + off))) \<noteq> None" using d o by (simp add: mapDone_def)
  have w: "ptWf st'" "tablesActive st'" using ok(2) by (simp_all add: pagingOk_def)
  note R = leaf_read [OF w(1) t]
  show p: "leafPresent st' (va + off)" using R(1) l by simp
  have "4096 dvd unat (va + off)"
    using va(1) offset_props(2) [OF o va(2)] by (simp add: unat_word_ariths dvd_mod)
  then show "archLookupKernel st' (va + off) = Ret (Inr (pa + off, fl))"
    using p w(2) R(2) [OF l] F(1,2) by (simp add: archLookupKernel_def low_mask)
qed

lemma mapDone_other:
  assumes d: "mapDone st va pa sz fl st'" and q: "fpath q" "\<forall>off \<in> set (pageOffsets sz). q \<noteq> kpath (va + off)"
  shows "ptLook st' q = ptLook st q"
proof -
  have "map_of (pageList va pa (leafFlagsFor fl) (pageOffsets sz)) q = None"
    unfolding map_of_eq_None_iff pageList_paths using q(2) by auto
  then show ?thesis using d q(1) by (simp add: mapDone_def)
qed

lemma archUnmap_effect:
  assumes ok: "pagingOk st"
  shows "\<exists>st' r. archUnmapPages st va sz = Ret (st', r) \<and> pagingOk st' \<and> keeps st st' \<and> (case r of
      Inl e \<Rightarrow> st' = st \<and> (e = STATUS_ERR_INVALID \<and> (sz = 0 \<or> \<not> 4096 dvd unat va \<or> \<not> 4096 dvd unat sz)
          \<or> e = STATUS_ERR_NOT_FOUND \<and> (\<exists>off \<in> set (pageOffsets sz). \<not> leafPresent st (va + off)))
    | Inr _ \<Rightarrow> sz \<noteq> 0 \<and> 4096 dvd unat va \<and> 4096 dvd unat sz \<and> (\<forall>off \<in> set (pageOffsets sz). leafPresent st (va + off))
        \<and> (\<forall>q. fpath q \<longrightarrow> ptLook st' q = (if q \<in> (\<lambda>off. kpath (va + off)) ` set (pageOffsets sz) then None else ptLook st q))
        \<and> pmmFree (tpmm st') = pmmFree (tpmm st)
        \<and> invlpgs (cpu st') = invlpgs (cpu st) @ map (\<lambda>off. va + off) (pageOffsets sz))"
proof -
  have w: "ptWf st" "tablesActive st" using ok by (simp_all add: pagingOk_def)
  have al: "(va OR sz) AND (X86_PTE_SIZE_4K - 1) \<noteq> 0 \<or> sz = 0 \<longleftrightarrow> sz = 0 \<or> \<not> 4096 dvd unat va \<or> \<not> 4096 dvd unat sz"
    by (auto simp: or_zero simp flip: low_mask)
  show ?thesis
  proof (cases "sz = 0 \<or> \<not> 4096 dvd unat va \<or> \<not> 4096 dvd unat sz")
    case True
    then have "archUnmapPages st va sz = Ret (st, Inl STATUS_ERR_INVALID)"
      unfolding archUnmapPages_def al using w by simp
    then show ?thesis using ok True by auto
  next
    case al': False
    show ?thesis
    proof (cases "\<forall>off \<in> set (pageOffsets sz). leafPresent st (va + off)")
      case False
      then have "archUnmapPages st va sz = Ret (st, Inl STATUS_ERR_NOT_FOUND)"
        unfolding archUnmapPages_def al using w al' by (simp add: list_all_iff)
      then show ?thesis using ok False by auto
    next
      case True
      then have "\<forall>off \<in> set (pageOffsets sz). ptTbl st (take 3 (kpath (va + off))) \<noteq> None"
        using leafPresent_table [OF w(1)] by blast
      from clearLeaves_effect [OF w(1) this] obtain st1 where C: "clearLeaves va (pageOffsets sz) st = Ret st1" "ptWf st1" "pgSame st st1"
        "\<forall>q. fpath q \<longrightarrow> ptLook st1 q = (if q \<in> (\<lambda>off. kpath (va + off)) ` set (pageOffsets sz) then None else ptLook st q)"
        "pmmFree (tpmm st1) = pmmFree (tpmm st)" by blast
      define st2 where "st2 = archTlbInvalidateKernelRange va sz st1"
      have "archUnmapPages st va sz = Ret (st2, Inr ())"
        unfolding archUnmapPages_def al using w al' True C(1) by (simp add: list_all_iff st2_def)
      moreover have "pagingOk st2" "keeps st st2"
        using pagingOk_same [OF ok C(3,2)] pgSame_keeps [OF C(3)] C(5) by (simp_all add: st2_def pagingOk_def)
      moreover have "invlpgs (cpu st2) = invlpgs (cpu st) @ map (\<lambda>off. va + off) (pageOffsets sz)"
        using pgSame_fields(7) [OF C(3)] by (simp add: st2_def archTlbInvalidateKernelRange_def)
      ultimately show ?thesis using al' True C(4,5) by (intro exI [of _ st2] exI [of _ "Inr ()"]) (simp add: st2_def)
    qed
  qed
qed

section \<open>An example state\<close>

text \<open>An empty kernel PML4 in a frame outside the managed memory of the example memory manager.\<close>

definition demoPaging :: Paging where
  "demoPaging = \<lparr>tpmm = demoPmm1, kernelPml4Phys = 0x100000, tablesActive = True, has1GPages = False, kernelRoPhysStart = 0x200000,
     kernelRoPhysEnd = 0x280000, physLimit = 0xFFFFFFFFF,
     cpu = \<lparr>cr0 = 0x80010000, cr3 = 0x100000, cr4 = 0x80, rflags = 0, msr = \<lambda>_. 0x800, msrKeeps = \<lambda>_ v. v, cpuid = \<lambda>_ _. [0, 0, 0, 0], invlpgs = []\<rparr>\<rparr>"

lemma demoPaging_ents: "ents demoPaging t i = 0"
  by (simp add: ents_def demoPaging_def demoPmm1_def demoPmm0_def)

lemma demoPaging_walks: "look (ents demoPaging) t q = None" "tbl (ents demoPaging) t q = (if q = [] then Some t else None)"
  by (cases "(ents demoPaging, t, q)" rule: look.cases; simp add: look.simps demoPaging_ents) (cases q; simp add: tbl.simps demoPaging_ents)

lemma demoPaging_ok: "pagingOk demoPaging"
proof -
  have "tbok demoPaging 0x100000" using demo1_wf(3) by (simp add: tbok_def demoPaging_def)
  then have "treeOk (ents demoPaging) (kernelPml4Phys demoPaging) (tbok demoPaging)"
    unfolding treeOk_def by (simp add: demoPaging_walks demoPaging_ents) (simp add: demoPaging_def)
  then show ?thesis using demo1_wf(1) by (simp add: pagingOk_def ptWf_def) (simp add: demoPaging_def)
qed

lemma demoPaging_find: "findAnyLeafEntry demoPaging va = None"
  using demoPaging_ok by (simp add: findAnyLeafEntry_look pagingOk_def demoPaging_walks)

lemma demoPaging_map:
  "\<exists>st. archMapPages demoPaging 0xFFFFC00000001000 0xFEC00000 0x2000 9 = Ret (st, Inr ()) \<and> pagingOk st"
proof -
  have o: "pageOffsets 0x2000 = [0, 0x1000]" by (simp add: pageOffsets_def X86_PTE_SIZE_4K_def upt_rec)
  have a: "mapArgsOk demoPaging 0xFFFFC00000001000 0xFEC00000 0x2000 9"
    by (simp add: mapArgsOk_def o hhdmAliasCache_def hhdmLeafEntry_def demoPaging_find physAddrLimit_def) (simp add: demoPaging_def)
  have d: "distinct (map (\<lambda>off. kpath (0xFFFFC00000001000 + off)) [0, 0x1000])"
    by (simp add: kpath_vpn) (simp add: vpn_def)
  have c: "card (pmmFree (tpmm demoPaging)) = 1280" using demo1_wf(3) by (simp add: demoPaging_def)
  have "\<not> mapFailed demoPaging 0xFFFFC00000001000 0xFEC00000 0x2000 9 st' e" for st' e
    using a d c by (simp add: mapFailed_def o demoPaging_walks)
  moreover obtain st' r where "archMapPages demoPaging 0xFFFFC00000001000 0xFEC00000 0x2000 9 = Ret (st', r)" "pagingOk st'"
    "case r of Inr _ \<Rightarrow> mapDone demoPaging 0xFFFFC00000001000 0xFEC00000 0x2000 9 st' | Inl e \<Rightarrow> mapFailed demoPaging 0xFFFFC00000001000 0xFEC00000 0x2000 9 st' e"
    using archMap_effect [OF demoPaging_ok, of "0xFFFFC00000001000" "0xFEC00000" "0x2000" 9] by blast
  ultimately show ?thesis by (cases r) auto
qed

section \<open>Properties\<close>

lemma distinct_map_iff: "(\<And>x y. f x = f y \<longleftrightarrow> g x = g y) \<Longrightarrow> distinct (map f xs) \<longleftrightarrow> distinct (map g xs)"
  by (auto simp: distinct_map inj_on_def)

text \<open>
  C38: Mapping a range is all or nothing and touches nothing else. The call always returns, in a state
  whose tables again form a proper tree. When it succeeds, every guard held, every page of the range
  was unmapped before and now has the requested physical page and flags, which is also what a lookup
  returns, and every address on another page has the leaf it had. When it fails, every address has
  the leaf it had, and the failure has a reason: a guard that does not hold, a page that was already
  mapped (or a range that wraps around onto itself), or too little memory, which cannot happen while
  more than three free frames per page remain.
\<close>

theorem archMapPages_correct:
  assumes ok: "pagingOk st"
  shows "\<exists>st' r. archMapPages st va pa sz fl = Ret (st', r) \<and> pagingOk st' \<and> (case r of
      Inr _ \<Rightarrow> mapArgsOk st va pa sz fl
        \<and> (\<forall>off \<in> set (pageOffsets sz). findAnyLeafEntry st (va + off) = None
             \<and> findAnyLeafEntry st' (va + off) = Some ((pa + off) OR leafFlagsFor fl)
             \<and> archLookupKernel st' (va + off) = Ret (Inr (pa + off, fl)))
        \<and> (\<forall>va'. (\<forall>off \<in> set (pageOffsets sz). vpn va' \<noteq> vpn (va + off)) \<longrightarrow> findAnyLeafEntry st' va' = findAnyLeafEntry st va')
    | Inl e \<Rightarrow> (\<forall>va'. findAnyLeafEntry st' va' = findAnyLeafEntry st va')
        \<and> (e = STATUS_ERR_NO_MEMORY \<and> card (pmmFree (tpmm st)) \<le> 3 * length (pageOffsets sz)
           \<or> e \<in> {STATUS_ERR_INVALID, STATUS_ERR_UNSUPPORTED} \<and> \<not> mapArgsOk st va pa sz fl
           \<or> e = STATUS_ERR_INVALID \<and> ((\<exists>off \<in> set (pageOffsets sz). findAnyLeafEntry st (va + off) \<noteq> None)
                \<or> \<not> distinct (map (\<lambda>off. vpn (va + off)) (pageOffsets sz)))))"
proof -
  obtain st' r where R: "archMapPages st va pa sz fl = Ret (st', r)" "pagingOk st'"
    "case r of Inr _ \<Rightarrow> mapDone st va pa sz fl st' | Inl e \<Rightarrow> mapFailed st va pa sz fl st' e"
    using archMap_effect [OF ok] by blast
  have f: "findAnyLeafEntry st = (\<lambda>va. ptLook st (kpath va))" "findAnyLeafEntry st' = (\<lambda>va. ptLook st' (kpath va))"
    using ok R(2) by (auto simp: pagingOk_def findAnyLeafEntry_look)
  have d: "distinct (map (\<lambda>off. vpn (va + off)) offs) \<longleftrightarrow> distinct (map (\<lambda>off. kpath (va + off)) offs)" for offs
    by (rule distinct_map_iff) (simp add: kpath_vpn)
  show ?thesis
  proof (cases r)
    case (Inl e)
    then show ?thesis using R by (intro exI [of _ st'] exI [of _ r]) (simp add: f d mapFailed_def)
  next
    case (Inr u)
    then have m: "mapDone st va pa sz fl st'" using R(3) by simp
    then have "mapArgsOk st va pa sz fl" "\<forall>off \<in> set (pageOffsets sz). ptLook st (kpath (va + off)) = None"
      by (simp_all add: mapDone_def)
    then show ?thesis
      using R(1,2) Inr mapDone_leaf [OF ok R(2) m] mapDone_other [OF m fpath_kpath]
      by (intro exI [of _ st'] exI [of _ r]) (simp add: f kpath_vpn)
  qed
qed

theorem archMapPages_correct_witness:
  "\<exists>st. archMapPages demoPaging 0xFFFFC00000001000 0xFEC00000 0x2000 9 = Ret (st, Inr ())
     \<and> archLookupKernel st 0xFFFFC00000002000 = Ret (Inr (0xFEC01000, 9))"
proof -
  have "0x1000 \<in> set (pageOffsets 0x2000)" by (simp add: pageOffsets_def X86_PTE_SIZE_4K_def upt_rec)
  then show ?thesis
    using archMapPages_correct [OF demoPaging_ok, of "0xFFFFC00000001000" "0xFEC00000" "0x2000" 9] demoPaging_map by fastforce
qed

text \<open>
  C39: Unmapping is all or nothing and undoes mapping. The call always returns. It is refused, with
  the state unchanged, exactly when an argument is misaligned or empty or some page of the range has no
  4 KiB leaf. Otherwise every page of the range is unmapped, each was invalidated in the translation
  cache after the entries were cleared, and every other address keeps its leaf. Unmapping a range right
  after mapping it succeeds and restores the leaf of every address.
\<close>

theorem archUnmapPages_correct:
  assumes ok: "pagingOk st"
  shows "\<exists>st' r. archUnmapPages st va sz = Ret (st', r) \<and> pagingOk st' \<and> (case r of
      Inl e \<Rightarrow> st' = st \<and> (e = STATUS_ERR_INVALID \<and> (sz = 0 \<or> \<not> 4096 dvd unat va \<or> \<not> 4096 dvd unat sz)
          \<or> e = STATUS_ERR_NOT_FOUND \<and> (\<exists>off \<in> set (pageOffsets sz). \<not> leafPresent st (va + off)))
    | Inr _ \<Rightarrow> sz \<noteq> 0 \<and> 4096 dvd unat va \<and> 4096 dvd unat sz \<and> (\<forall>off \<in> set (pageOffsets sz). leafPresent st (va + off))
        \<and> (\<forall>va'. findAnyLeafEntry st' va' = (if \<exists>off \<in> set (pageOffsets sz). vpn va' = vpn (va + off) then None else findAnyLeafEntry st va'))
        \<and> invlpgs (cpu st') = invlpgs (cpu st) @ map (\<lambda>off. va + off) (pageOffsets sz))
    \<and> (\<forall>st0 pa fl. pagingOk st0 \<and> archMapPages st0 va pa sz fl = Ret (st, Inr ()) \<longrightarrow>
         r = Inr () \<and> (\<forall>va'. findAnyLeafEntry st' va' = findAnyLeafEntry st0 va'))"
proof -
  obtain st' r where R: "archUnmapPages st va sz = Ret (st', r)" "pagingOk st'"
    and C: "case r of
      Inl e \<Rightarrow> st' = st \<and> (e = STATUS_ERR_INVALID \<and> (sz = 0 \<or> \<not> 4096 dvd unat va \<or> \<not> 4096 dvd unat sz)
          \<or> e = STATUS_ERR_NOT_FOUND \<and> (\<exists>off \<in> set (pageOffsets sz). \<not> leafPresent st (va + off)))
    | Inr _ \<Rightarrow> sz \<noteq> 0 \<and> 4096 dvd unat va \<and> 4096 dvd unat sz \<and> (\<forall>off \<in> set (pageOffsets sz). leafPresent st (va + off))
        \<and> (\<forall>q. fpath q \<longrightarrow> ptLook st' q = (if q \<in> (\<lambda>off. kpath (va + off)) ` set (pageOffsets sz) then None else ptLook st q))
        \<and> pmmFree (tpmm st') = pmmFree (tpmm st)
        \<and> invlpgs (cpu st') = invlpgs (cpu st) @ map (\<lambda>off. va + off) (pageOffsets sz)"
    using archUnmap_effect [OF ok, of va sz] by blast
  have f: "findAnyLeafEntry s va' = ptLook s (kpath va')" if "pagingOk s" for s va' using that by (simp add: pagingOk_def findAnyLeafEntry_look)
  have im: "kpath va' \<in> (\<lambda>off. kpath (va + off)) ` set offs \<longleftrightarrow> (\<exists>off \<in> set offs. vpn va' = vpn (va + off))" for va' offs
    by (auto simp: kpath_vpn)
  have rt: "r = Inr () \<and> (\<forall>va'. findAnyLeafEntry st' va' = findAnyLeafEntry st0 va')"
    if "pagingOk st0" "archMapPages st0 va pa sz fl = Ret (st, Inr ())" for st0 pa fl
  proof -
    have m: "mapDone st0 va pa sz fl st" using archMap_effect [OF that(1), of va pa sz fl] that(2) by auto
    note L = mapDone_leaf [OF that(1) ok m]
    have "\<not> (sz = 0 \<or> \<not> 4096 dvd unat va \<or> \<not> 4096 dvd unat sz)" using m by (auto simp: mapDone_def mapArgsOk_def)
    then have r: "r = Inr ()" using C L(2) by (cases r) auto
    have "ptLook st' (kpath va') = ptLook st0 (kpath va')" for va'
    proof (cases "\<exists>off \<in> set (pageOffsets sz). kpath va' = kpath (va + off)")
      case True
      then show ?thesis using C r m by (auto simp: mapDone_def)
    next
      case False
      then show ?thesis using C r mapDone_other [OF m fpath_kpath, of va'] by auto
    qed
    then show ?thesis using r f [OF R(2)] f [OF that(1)] by simp
  qed
  show ?thesis
  proof (cases r)
    case (Inl e)
    then show ?thesis using R C rt by auto
  next
    case (Inr u)
    then have "\<forall>va'. findAnyLeafEntry st' va' = (if \<exists>off \<in> set (pageOffsets sz). vpn va' = vpn (va + off) then None else findAnyLeafEntry st va')"
      using C by (simp add: f [OF ok] f [OF R(2)] im)
    then show ?thesis
      using R(1,2) C rt unfolding Inr sum.case by (intro exI [of _ st'] exI [of _ "Inr u"], unfold sum.case, blast)
  qed
qed

theorem archUnmapPages_correct_witness:
  "\<exists>st st'. archMapPages demoPaging 0xFFFFC00000001000 0xFEC00000 0x2000 9 = Ret (st, Inr ())
     \<and> archUnmapPages st 0xFFFFC00000001000 0x2000 = Ret (st', Inr ()) \<and> findAnyLeafEntry st' 0xFFFFC00000001000 = None"
proof -
  obtain st where s: "archMapPages demoPaging 0xFFFFC00000001000 0xFEC00000 0x2000 9 = Ret (st, Inr ())" "pagingOk st"
    using demoPaging_map by blast
  obtain st' r where U: "archUnmapPages st 0xFFFFC00000001000 0x2000 = Ret (st', r)"
    "\<forall>st0 pa fl. pagingOk st0 \<and> archMapPages st0 0xFFFFC00000001000 pa 0x2000 fl = Ret (st, Inr ()) \<longrightarrow>
       r = Inr () \<and> (\<forall>va'. findAnyLeafEntry st' va' = findAnyLeafEntry st0 va')"
    using archUnmapPages_correct [OF s(2), of "0xFFFFC00000001000" "0x2000"] by blast
  then have "r = Inr () \<and> (\<forall>va'. findAnyLeafEntry st' va' = findAnyLeafEntry demoPaging va')" using s(1) demoPaging_ok by blast
  then show ?thesis using U(1) s(1) demoPaging_find by auto
qed

end
