(* ===== verification/Paging_Build.thy ===== *)
theory Paging_Build
  imports Paging_Ops
begin

text \<open>
  The boot-time half of \<open>kernel/arch/x86_64/paging.c\<close>: building the kernel's tables over the boot memory
  map, switching to them, enabling the processor's protections and the final check that no kernel
  mapping is both writable and executable; and the walker of \<open>early-map.c\<close>. The linker's section
  symbols are the record \<open>Sections\<close>. A loop over an index range is \<open>forO\<close>, which stops at a panic. Log
  output is left out.
\<close>

section \<open>Loops\<close>

fun forO :: "('i \<Rightarrow> 's \<Rightarrow> 's outcome) \<Rightarrow> 'i list \<Rightarrow> 's \<Rightarrow> 's outcome" where
  "forO f [] s = Ret s"
| "forO f (i # is) s = bindO (f i s) (forO f is)"

definition orPanic :: "string \<Rightarrow> 's \<times> ('e + 'a) \<Rightarrow> ('s \<times> 'a) outcome" where
  "orPanic msg r = (case r of (s, Inl e) \<Rightarrow> Panic msg | (s, Inr x) \<Rightarrow> Ret (s, x))"

section \<open>The early walker\<close>

definition earlyTableAt :: "u64 \<Rightarrow> u64" where
  "earlyTableAt phys = BOOTINFO_HHDM_BASE + (phys AND X86_PTE_ADDR_MASK)"

definition archEarlyLookup :: "Paging \<Rightarrow> u64 \<Rightarrow> Status + (u64 \<times> u64)" where
  "archEarlyLookup st va =
     (let pml4 = earlyTableAt (cr3 (cpu st)); e = getEntry st pml4 (pml4Index va)
      in if \<not> has e X86_PTE_P then Inl STATUS_ERR_NOT_FOUND
         else let pdpt = earlyTableAt e; e = getEntry st pdpt (pdptIndex va)
           in if \<not> has e X86_PTE_P then Inl STATUS_ERR_NOT_FOUND
              else if has e X86_PTE_PS
                then Inr ((e AND X86_PTE_ADDR_MASK AND NOT (X86_PTE_SIZE_1G - 1)) OR (va AND (X86_PTE_SIZE_1G - 1)), X86_PTE_SIZE_1G)
              else let pd = earlyTableAt e; e = getEntry st pd (pdIndex va)
                in if \<not> has e X86_PTE_P then Inl STATUS_ERR_NOT_FOUND
                   else if has e X86_PTE_PS
                     then Inr ((e AND X86_PTE_ADDR_MASK AND NOT (X86_PTE_SIZE_2M - 1)) OR (va AND (X86_PTE_SIZE_2M - 1)), X86_PTE_SIZE_2M)
                   else let pt = earlyTableAt e; e = getEntry st pt (ptIndex va)
                     in if \<not> has e X86_PTE_P then Inl STATUS_ERR_NOT_FOUND
                        else Inr ((e AND X86_PTE_ADDR_MASK) OR (va AND (X86_PTE_SIZE_4K - 1)), X86_PTE_SIZE_4K))"

section \<open>Mapping a range while building\<close>

text \<open>
  One round of the loop: the new state and the number of 4 KiB pages it covered. \<open>n\<close> is what is left
  of the range in pages, so \<^verbatim>\<open>size >= X86_PTE_SIZE_1G\<close> is \<open>n \<ge> 262144\<close>.
\<close>

definition buildStep :: "u64 \<Rightarrow> bool \<Rightarrow> u64 \<Rightarrow> u64 \<Rightarrow> nat \<Rightarrow> Paging \<Rightarrow> (Paging \<times> nat) outcome" where
  "buildStep leafFlags allowLarge va pa n st =
     bindO (orPanic ''vmm: out of memory building the kernel PDPT'' (getOrAllocTable st (tableAt st (kernelPml4Phys st)) (pml4Index va)))
       (\<lambda>(st1, pdpt).
        if allowLarge \<and> has1GPages st1 \<and> va AND (X86_PTE_SIZE_1G - 1) = 0 \<and> pa AND (X86_PTE_SIZE_1G - 1) = 0 \<and> n \<ge> 262144
           \<and> pa \<ge> X86_PTE_SIZE_2M
        then (if has (getEntry st1 pdpt (pdptIndex va)) X86_PTE_P then Panic ''vmm: PDPT conflict building the kernel HHDM''
              else Ret (setEntry st1 pdpt (pdptIndex va)
                     ((pa AND X86_PTE_ADDR_MASK AND NOT (X86_PTE_SIZE_1G - 1)) OR leafFlags OR X86_PTE_PS), 262144))
        else bindO (orPanic ''vmm: out of memory building the kernel PD'' (getOrAllocTable st1 pdpt (pdptIndex va)))
          (\<lambda>(st2, pd).
           if allowLarge \<and> va AND (X86_PTE_SIZE_2M - 1) = 0 \<and> pa AND (X86_PTE_SIZE_2M - 1) = 0 \<and> n \<ge> 512 \<and> pa \<ge> X86_PTE_SIZE_2M
           then (if has (getEntry st2 pd (pdIndex va)) X86_PTE_P then Panic ''vmm: PD conflict building the kernel HHDM''
                 else Ret (setEntry st2 pd (pdIndex va)
                        ((pa AND X86_PTE_ADDR_MASK AND NOT (X86_PTE_SIZE_2M - 1)) OR leafFlags OR X86_PTE_PS), 512))
           else bindO (orPanic ''vmm: out of memory building the kernel PT'' (getOrAllocTable st2 pd (pdIndex va)))
             (\<lambda>(st3, pt).
              if has (getEntry st3 pt (ptIndex va)) X86_PTE_P then Panic ''vmm: PT conflict building the kernel image/HHDM''
              else Ret (setEntry st3 pt (ptIndex va) ((pa AND X86_PTE_ADDR_MASK) OR leafFlags), 1))))"

lemma buildStep_pages: "buildStep lf al va pa n st = Ret (st', m) \<Longrightarrow> m = 1 \<or> m = 512 \<and> 512 \<le> n \<or> m = 262144 \<and> 262144 \<le> n"
  by (auto simp: buildStep_def bindO_eq_Ret split: if_splits prod.splits)

function buildLoop :: "u64 \<Rightarrow> bool \<Rightarrow> u64 \<Rightarrow> u64 \<Rightarrow> nat \<Rightarrow> Paging \<Rightarrow> Paging outcome" where
  "buildLoop leafFlags allowLarge va pa n st =
     (if n = 0 then Ret st
      else case buildStep leafFlags allowLarge va pa n st of
          Panic msg \<Rightarrow> Panic msg
        | Ret (st1, m) \<Rightarrow> buildLoop leafFlags allowLarge (va + of_nat m * X86_PTE_SIZE_4K) (pa + of_nat m * X86_PTE_SIZE_4K) (n - m) st1)"
  by pat_completeness auto
termination
  by (relation "measure (\<lambda>(_, _, _, _, n, _). n)") (auto dest!: buildStep_pages)

declare buildLoop.simps [simp del]

definition buildMapRange :: "u64 \<Rightarrow> u64 \<Rightarrow> u64 \<Rightarrow> u64 \<Rightarrow> bool \<Rightarrow> Paging \<Rightarrow> Paging outcome" where
  "buildMapRange va pa sz leafFlags allowLarge st =
     (if (va OR pa OR sz) AND (X86_PTE_SIZE_4K - 1) \<noteq> 0 then Panic ''vmm: buildMapRange: misaligned''
      else buildLoop leafFlags allowLarge va pa (unat sz div 4096) st)"

section \<open>The page array\<close>

definition validateReservedTablePage :: "Paging \<Rightarrow> u64 \<Rightarrow> unit outcome" where
  "validateReservedTablePage st phys =
     (let p = pmmPhysToPage (pmmMap (tpmm st)) phys
      in if p = 0 \<or> state (pages (mem (tpmm st)) (pageToPfn p)) \<noteq> PAGE_STATE_RESERVED
         then Panic ''vmm: Page-array table page is not reserved bump-allocator memory''
         else bindO (pmmPhysIsEarlyAlloc (tpmm st) phys) (\<lambda>b.
           if \<not> b then Panic ''vmm: Page-array table page is not reserved bump-allocator memory'' else Ret ()))"

definition adoptPageArraySubtree :: "Paging \<Rightarrow> u64 \<Rightarrow> unit outcome" where
  "adoptPageArraySubtree st pdptPhys =
     bindO (validateReservedTablePage st pdptPhys) (\<lambda>_.
       forO (\<lambda>i _.
         let e3 = getEntry st (tableAt st pdptPhys) i
         in if \<not> has e3 X86_PTE_P \<or> has e3 X86_PTE_PS then Ret ()
            else let pdPhys = e3 AND X86_PTE_ADDR_MASK
              in bindO (validateReservedTablePage st pdPhys) (\<lambda>_.
                   forO (\<lambda>j _.
                     let e2 = getEntry st (tableAt st pdPhys) j
                     in if \<not> has e2 X86_PTE_P \<or> has e2 X86_PTE_PS then Ret ()
                        else validateReservedTablePage st (e2 AND X86_PTE_ADDR_MASK)) [0..<512] ())) [0..<512] ())"

section \<open>Building\<close>

abbreviation ARCH_PML4_KERNEL_START :: nat where "ARCH_PML4_KERNEL_START \<equiv> 256"
abbreviation ARCH_PML4_KERNEL_END :: nat where "ARCH_PML4_KERNEL_END \<equiv> 512"
abbreviation ARCH_PML4_PAGE_ARRAY_START :: nat where "ARCH_PML4_PAGE_ARRAY_START \<equiv> 448"
abbreviation ARCH_PML4_PAGE_ARRAY_END :: nat where "ARCH_PML4_PAGE_ARRAY_END \<equiv> 480"

record Sections =
  kernelImageStart :: u64
  kernelTextStart :: u64
  kernelTextEnd :: u64
  kernelRodataStart :: u64
  kernelRodataEnd :: u64
  kernelDataStart :: u64
  kernelDataEnd :: u64
  kernelBootStackBottom :: u64
  kernelBootStackTop :: u64
  kernelIst1Bottom :: u64
  kernelIst1Top :: u64
  kernelIst2Bottom :: u64
  kernelIst2Top :: u64
  kernelIst3Bottom :: u64
  kernelIst3Top :: u64

text \<open>One slot of the kernel half of the PML4: adopted from the loader or a fresh table.\<close>

definition buildSlot :: "u64 \<Rightarrow> u64 \<Rightarrow> nat \<Rightarrow> Paging \<Rightarrow> Paging outcome" where
  "buildSlot loaderPml4 kpml4 idx st =
     (if idx \<ge> ARCH_PML4_PAGE_ARRAY_START \<and> idx < ARCH_PML4_PAGE_ARRAY_END \<and> has (getEntry st loaderPml4 idx) X86_PTE_P
      then let entry = getEntry st loaderPml4 idx
        in if has entry X86_PTE_PS then Panic ''vmm: unexpected huge PML4 entry in the Page-array VA range''
           else bindO (adoptPageArraySubtree st (entry AND X86_PTE_ADDR_MASK)) (\<lambda>_. Ret (setEntry st kpml4 idx entry))
      else bindO (orPanic ''vmm: out of memory allocating kernel-half PML4 slot'' (allocTable st)) (\<lambda>(st1, pdptPhys).
        Ret (setEntry st1 kpml4 idx ((pdptPhys AND X86_PTE_ADDR_MASK) OR X86_PTE_P OR X86_PTE_W))))"

abbreviation FLAGS_RW :: u64 where "FLAGS_RW \<equiv> X86_PTE_P OR X86_PTE_W OR X86_PTE_NX OR X86_PTE_G"
abbreviation FLAGS_RO :: u64 where "FLAGS_RO \<equiv> X86_PTE_P OR X86_PTE_NX OR X86_PTE_G"

text \<open>A conditional call of \<open>buildMapRange\<close> on the direct map, \<open>[from, to)\<close>.\<close>

definition hhdmPiece :: "u64 \<Rightarrow> u64 \<Rightarrow> u64 \<Rightarrow> bool \<Rightarrow> Paging \<Rightarrow> Paging outcome" where
  "hhdmPiece from' to' fl large st =
     (if from' < to' then buildMapRange (BOOTINFO_HHDM_BASE + from') from' (to' - from') fl large st else Ret st)"

definition buildRegion :: "u64 \<Rightarrow> u64 \<Rightarrow> BootMemRegion \<Rightarrow> Paging \<Rightarrow> Paging outcome" where
  "buildRegion textPhysStart roPhysEnd r st =
     (if mtype r \<notin> {BOOT_MEM_USABLE, BOOT_MEM_LOADER_RECLAIM, BOOT_MEM_KERNEL, BOOT_MEM_INITRD, BOOT_MEM_ACPI_RECLAIM, BOOT_MEM_ACPI_NVS,
          BOOT_MEM_FRAMEBUFFER} then Ret st
      else let wc = (mtype r = BOOT_MEM_FRAMEBUFFER); b = base r; end0 = base r + len r
        in if b \<ge> BOOTINFO_HHDM_SIZE then Ret st
           else let e = (if end0 > BOOTINFO_HHDM_SIZE then BOOTINFO_HHDM_SIZE else end0)
             in if b \<ge> e then Ret st
                else if mtype r = BOOT_MEM_KERNEL
                  then let roStart = (if textPhysStart < b then b else if textPhysStart > e then e else textPhysStart);
                           roEnd = (if roPhysEnd < roStart then roStart else if roPhysEnd > e then e else roPhysEnd)
                    in bindO (hhdmPiece b roStart FLAGS_RW True st) (\<lambda>st1.
                       bindO (hhdmPiece roStart roEnd FLAGS_RO False st1) (\<lambda>st2.
                         hhdmPiece roEnd e FLAGS_RW True st2))
                else buildMapRange (BOOTINFO_HHDM_BASE + b) b (e - b) (FLAGS_RW OR (if wc then X86_PTE_PWT else 0)) (\<not> wc) st)"

definition imageSegments :: "Sections \<Rightarrow> (u64 \<times> u64 \<times> u64) list" where
  "imageSegments s =
     [(kernelTextStart s, kernelTextEnd s, X86_PTE_P OR X86_PTE_G), (kernelRodataStart s, kernelRodataEnd s, FLAGS_RO),
      (kernelDataStart s, kernelDataEnd s, FLAGS_RW), (kernelBootStackBottom s, kernelBootStackTop s, FLAGS_RW),
      (kernelIst1Bottom s, kernelIst1Top s, FLAGS_RW), (kernelIst2Bottom s, kernelIst2Top s, FLAGS_RW), (kernelIst3Bottom s, kernelIst3Top s, FLAGS_RW)]"

definition buildSegment :: "BootInfo \<Rightarrow> u64 \<times> u64 \<times> u64 \<Rightarrow> Paging \<Rightarrow> Paging outcome" where
  "buildSegment bi sg st =
     (case sg of (s, e, fl) \<Rightarrow>
        if e = s then Ret st else buildMapRange s (kernelPhysBase bi + (s - kernelVirtBase bi)) (e - s) fl False st)"

definition archPagingBuildKernel :: "Sections \<Rightarrow> BootInfo \<Rightarrow> BootMemRegion list \<Rightarrow> Paging \<Rightarrow> Paging outcome" where
  "archPagingBuildKernel secs bi mp st0 =
     (if kernelPml4Phys st0 \<noteq> 0 then Panic ''archPagingBuildKernel: called twice''
      else let st = st0\<lparr>has1GPages := (cpuid (cpu st0) 0x80000001 0 ! 3 AND push_bit 26 1 \<noteq> 0)\<rparr>
        in if (case archEarlyLookup st (kernelTextStart secs) of Inl _ \<Rightarrow> True | Inr (pa, _) \<Rightarrow> pa \<noteq> kernelPhysBase bi)
           then Panic ''vmm: kernelTextStart does not resolve to kernelPhysBase''
           else bindO (orPanic ''vmm: out of memory allocating the kernel PML4'' (allocTable st)) (\<lambda>(st1, pml4Phys).
             let st2 = st1\<lparr>kernelPml4Phys := pml4Phys\<rparr>;
                 loaderPml4 = tableAt st2 (cr3 (cpu st2) AND X86_PTE_ADDR_MASK);
                 kpml4 = tableAt st2 (kernelPml4Phys st2)
             in bindO (forO (buildSlot loaderPml4 kpml4) [ARCH_PML4_KERNEL_START..<ARCH_PML4_KERNEL_END] st2) (\<lambda>st3.
                let textPhysStart = kernelPhysBase bi;
                    roPhysEnd = kernelPhysBase bi + (kernelRodataEnd secs - kernelImageStart secs);
                    st4 = st3\<lparr>kernelRoPhysStart := textPhysStart, kernelRoPhysEnd := roPhysEnd\<rparr>
                in if \<not> list_ex (\<lambda>r. mtype r = BOOT_MEM_KERNEL \<and> base r \<le> textPhysStart \<and> roPhysEnd \<le> base r + len r) mp
                   then Panic ''vmm: the kernel text+rodata range is not inside a single KERNEL region''
                   else bindO (forO (buildRegion textPhysStart roPhysEnd) mp st4) (\<lambda>st5.
                     forO (buildSegment bi) (imageSegments secs) st5))))"

section \<open>Processor setup\<close>

definition X86_MSR_IA32_PAT :: u32 where "X86_MSR_IA32_PAT = 0x277"
definition X86_MSR_EFER :: u32 where "X86_MSR_EFER = 0xC0000080"
definition X86_PAT_VALUE :: u64 where "X86_PAT_VALUE = 0x0007010600070106"

abbreviation X86_EFER_NXE_BIT :: u64 where "X86_EFER_NXE_BIT \<equiv> 0x800"
abbreviation X86_CR0_WP_BIT :: u64 where "X86_CR0_WP_BIT \<equiv> 0x10000"
abbreviation X86_CR0_CD_BIT :: u64 where "X86_CR0_CD_BIT \<equiv> 0x40000000"
abbreviation X86_CR0_NW_BIT :: u64 where "X86_CR0_NW_BIT \<equiv> 0x20000000"
abbreviation X86_CR4_PGE_BIT :: u64 where "X86_CR4_PGE_BIT \<equiv> 0x80"
abbreviation X86_CR4_UMIP_BIT :: u64 where "X86_CR4_UMIP_BIT \<equiv> 0x800"
abbreviation X86_CR4_SMEP_BIT :: u64 where "X86_CR4_SMEP_BIT \<equiv> 0x100000"
abbreviation X86_CR4_SMAP_BIT :: u64 where "X86_CR4_SMAP_BIT \<equiv> 0x200000"

text \<open>\<open>archPatInit\<close>; \<open>archIrqSave\<close> clears the interrupt flag and \<open>archIrqRestore\<close> puts the saved flags back.\<close>

definition archPatInit :: "Cpu \<Rightarrow> Cpu outcome" where
  "archPatInit c =
     (if cpuid c 1 0 ! 3 AND push_bit 16 1 = 0 then Panic ''archPatInit: CPU does not report PAT support''
      else let saved = rflags c; c = c\<lparr>rflags := saved AND NOT (push_bit 9 1)\<rparr>
        in if saved AND push_bit 9 1 \<noteq> 0 then Panic ''archPatInit: interrupts are enabled''
           else let cr0' = cr0 c; cr4' = cr4 c
             in if cr4' AND X86_CR4_PGE_BIT = 0 then Panic ''archPatInit: CR4.PGE is not set''
                else let c = c\<lparr>cr0 := (cr0' OR X86_CR0_CD_BIT) AND NOT X86_CR0_NW_BIT\<rparr>;
                         c = c\<lparr>cr4 := cr4' AND NOT X86_CR4_PGE_BIT\<rparr>;
                         c = c\<lparr>msr := (msr c)(X86_MSR_IA32_PAT := msrKeeps c X86_MSR_IA32_PAT X86_PAT_VALUE)\<rparr>;
                         c = c\<lparr>cr4 := cr4'\<rparr>;
                         c = c\<lparr>cr0 := cr0'\<rparr>
                  in if msr c X86_MSR_IA32_PAT \<noteq> X86_PAT_VALUE then Panic ''archPatInit: IA32_PAT readback mismatch''
                     else Ret (c\<lparr>rflags := saved\<rparr>))"

definition archPagingActivate :: "Paging \<Rightarrow> Paging outcome" where
  "archPagingActivate st =
     (if kernelPml4Phys st = 0 then Panic ''archPagingActivate: archPagingBuildKernel was never called''
      else let cr4' = cr4 (cpu st); c = (cpu st)\<lparr>cr4 := cr4' AND NOT X86_CR4_PGE_BIT\<rparr>; c = c\<lparr>cr3 := kernelPml4Phys st\<rparr>; c = c\<lparr>cr4 := cr4'\<rparr>
        in Ret (st\<lparr>cpu := c, tablesActive := True\<rparr>))"

definition archCpuEnableProtections :: "Paging \<Rightarrow> Paging outcome" where
  "archCpuEnableProtections st =
     (let c = cpu st
      in if \<not> tablesActive st then Panic ''archCpuEnableProtections: called before archPagingActivate()''
         else if cr0 c AND X86_CR0_WP_BIT = 0 then Panic ''archCpuEnableProtections: CR0.WP is not set''
         else if msr c X86_MSR_EFER AND X86_EFER_NXE_BIT = 0 then Panic ''archCpuEnableProtections: EFER.NXE is not set''
         else let cr4a = cr4 c;
                  leaf7 = cpuid c 7 0;
                  cr4b = (if cpuid c 0 0 ! 0 \<ge> 7 then
                       (let x = (if leaf7 ! 1 AND push_bit 7 1 \<noteq> 0 then cr4a OR X86_CR4_SMEP_BIT else cr4a);
                            y = (if leaf7 ! 1 AND push_bit 20 1 \<noteq> 0 then x OR X86_CR4_SMAP_BIT else x)
                        in if leaf7 ! 2 AND push_bit 2 1 \<noteq> 0 then y OR X86_CR4_UMIP_BIT else y) else cr4a)
           in Ret (st\<lparr>cpu := c\<lparr>cr4 := cr4b\<rparr>\<rparr>))"

section \<open>Verification of the permissions\<close>

text \<open>The two counters are the leaves seen and the executable ones.\<close>

definition checkLeaf :: "Paging \<Rightarrow> u64 \<Rightarrow> u64 \<Rightarrow> u64 \<Rightarrow> u64 \<Rightarrow> u64 \<Rightarrow> u64 \<times> u64 \<Rightarrow> (u64 \<times> u64) outcome" where
  "checkLeaf st va entry leafSize textStart textEnd cnt =
     (case cnt of (leafCount, execLeafCount) \<Rightarrow>
      if \<not> has entry X86_PTE_G then Panic ''vmm: W^X verify: leaf is not global''
      else let w = has entry X86_PTE_W; x = (\<not> has entry X86_PTE_NX)
        in if w \<and> x then Panic ''vmm: W^X verify: leaf is writable AND executable''
           else if \<not> x then Ret (leafCount + 1, execLeafCount)
           else if leafSize \<noteq> X86_PTE_SIZE_4K \<or> va < textStart \<or> va + leafSize > textEnd
             then Panic ''vmm: W^X verify: executable leaf lies outside kernel text''
           else let pa = entry AND X86_PTE_ADDR_MASK
             in if (case hhdmLeafEntry st pa of None \<Rightarrow> False | Some hhdmEntry \<Rightarrow> has hhdmEntry X86_PTE_W)
                then Panic ''vmm: W^X verify: HHDM alias of text frame is writable''
                else Ret (leafCount + 1, execLeafCount + 1))"

definition verifyPt :: "Paging \<Rightarrow> u64 \<Rightarrow> u64 \<Rightarrow> u64 \<Rightarrow> u64 \<Rightarrow> u64 \<times> u64 \<Rightarrow> (u64 \<times> u64) outcome" where
  "verifyPt st ts te va2 pt cnt =
     forO (\<lambda>i1 cnt. let e1 = getEntry st pt i1
        in if \<not> has e1 X86_PTE_P then Ret cnt
           else if has e1 X86_PTE_US then Panic ''vmm: W^X verify: PT entry has U/S set''
           else checkLeaf st (va2 OR push_bit 12 (of_nat i1)) e1 X86_PTE_SIZE_4K ts te cnt) [0..<512] cnt"

definition verifyPd :: "Paging \<Rightarrow> u64 \<Rightarrow> u64 \<Rightarrow> u64 \<Rightarrow> u64 \<Rightarrow> u64 \<times> u64 \<Rightarrow> (u64 \<times> u64) outcome" where
  "verifyPd st ts te va3 pd cnt =
     forO (\<lambda>i2 cnt. let e2 = getEntry st pd i2
        in if \<not> has e2 X86_PTE_P then Ret cnt
           else if has e2 X86_PTE_US then Panic ''vmm: W^X verify: PD entry has U/S set''
           else let va2 = va3 OR push_bit 21 (of_nat i2)
             in if has e2 X86_PTE_PS then checkLeaf st va2 e2 X86_PTE_SIZE_2M ts te cnt
                else verifyPt st ts te va2 (tableAt st e2) cnt) [0..<512] cnt"

definition verifyPdpt :: "Paging \<Rightarrow> u64 \<Rightarrow> u64 \<Rightarrow> u64 \<Rightarrow> u64 \<Rightarrow> u64 \<times> u64 \<Rightarrow> (u64 \<times> u64) outcome" where
  "verifyPdpt st ts te va4 pdpt cnt =
     forO (\<lambda>i3 cnt. let e3 = getEntry st pdpt i3
        in if \<not> has e3 X86_PTE_P then Ret cnt
           else if has e3 X86_PTE_US then Panic ''vmm: W^X verify: PDPT entry has U/S set''
           else let va3 = va4 OR push_bit 30 (of_nat i3)
             in if has e3 X86_PTE_PS then checkLeaf st va3 e3 X86_PTE_SIZE_1G ts te cnt
                else verifyPd st ts te va3 (tableAt st e3) cnt) [0..<512] cnt"

definition archPagingVerifyWx :: "Sections \<Rightarrow> Paging \<Rightarrow> (u64 \<times> u64) outcome" where
  "archPagingVerifyWx secs st =
     (if \<not> tablesActive st then Panic ''archPagingVerifyWx: called before archPagingActivate()''
      else if cr0 (cpu st) AND X86_CR0_WP_BIT = 0 then Panic ''vmm: W^X verify: CR0.WP is not set''
      else if msr (cpu st) X86_MSR_EFER AND X86_EFER_NXE_BIT = 0 then Panic ''vmm: W^X verify: EFER.NXE is not set''
      else let pml4 = tableAt st (kernelPml4Phys st)
        in if list_ex (\<lambda>i. has (getEntry st pml4 i) X86_PTE_P) [0..<ARCH_PML4_KERNEL_START]
           then Panic ''vmm: W^X verify: lower-half PML4 entry is present''
           else forO (\<lambda>i4 cnt. let e4 = getEntry st pml4 i4
              in if \<not> has e4 X86_PTE_P then Panic ''vmm: W^X verify: kernel-half PML4 entry is not present''
                 else if has e4 X86_PTE_US then Panic ''vmm: W^X verify: PML4 entry has U/S set''
                 else verifyPdpt st (kernelTextStart secs) (kernelTextEnd secs) (0xFFFF000000000000 OR push_bit 39 (of_nat i4)) (tableAt st e4) cnt)
              [ARCH_PML4_KERNEL_START..<ARCH_PML4_KERNEL_END] (0, 0))"

end
