(* ===== verification/Paging_Wx.thy ===== *)
theory Paging_Wx
  imports Paging_Build
begin

text \<open>
  What \<open>archPagingVerifyWx\<close> establishes: when it returns, no leaf of the kernel half is writable and
  executable, executable leaves are pages of the kernel text, and the direct map has no writable alias
  of their frames.
\<close>

section \<open>Loops and addresses\<close>

lemma forO_all: "forO f is s = Ret s' \<Longrightarrow> i \<in> set is \<Longrightarrow> \<exists>a b. f i a = Ret b"
  by (induction "is" arbitrary: s) (auto simp: bindO_eq_Ret)

lemma forO_upt: "forO f [l..<u] s = Ret s' \<Longrightarrow> l \<le> i \<Longrightarrow> i < u \<Longrightarrow> \<exists>a b. f i a = Ret b"
  using forO_all [of f "[l..<u]" s s' i] by simp



lemma kernel_half_bits:
  assumes "va \<ge> (0xFFFF800000000000 :: u64)" "47 \<le> n" "n < 64"
  shows "bit va n"
proof -
  have "unat (0xFFFF800000000000 :: u64) \<le> unat va" using assms(1) by (simp add: word_le_nat_alt)
  then have "18446603336221196288 \<le> unat va" by simp
  then have "drop_bit 47 (unat va) \<ge> 131071" by (simp add: drop_bit_eq_div)
  moreover have "drop_bit 47 (unat va) < 131072" using unat_lt_64 [of va] by (simp add: drop_bit_eq_div)
  ultimately have "drop_bit 47 (unat va) = mask 17" by (simp add: mask_eq_exp_minus_1)
  then have "bit (drop_bit 47 (unat va)) (n - 47)" using assms(2,3) by (simp add: bit_mask_iff)
  then show ?thesis using assms(2,3) by (simp add: bit_drop_bit_eq bit_unsigned_iff)
qed

lemma leaf_va:
  assumes "va \<ge> (0xFFFF800000000000 :: u64)"
  shows "(((0xFFFF000000000000 OR push_bit 39 (of_nat (pml4Index va))) OR push_bit 30 (of_nat (pdptIndex va))) OR push_bit 21 (of_nat (pdIndex va)))
      OR push_bit 12 (of_nat (ptIndex va)) = va AND NOT (mask 12)" (is "?l = _")
proof (rule bit_word_eqI)
  fix n assume n: "n < LENGTH(64)"
  have i: "(of_nat (unat (drop_bit k va AND 511)) :: u64) = take_bit 9 (drop_bit k va)" for k
  proof -
    have "(511 :: u64) = mask 9" by (simp add: mask_eq_exp_minus_1)
    then show ?thesis by (simp add: take_bit_eq_mask)
  qed
  have c: "(0xFFFF000000000000 :: u64) = push_bit 48 (mask 16)" by (simp add: mask_eq_exp_minus_1)
  have "bit va n" if "48 \<le> n" using kernel_half_bits [OF assms, of n] that n by simp
  then show "bit ?l n = bit (va AND NOT (mask 12)) n"
    using n unfolding pml4Index_def pdptIndex_def pdIndex_def ptIndex_def i c
    by (cases "n < 12"; cases "n < 21"; cases "n < 30"; cases "n < 39"; cases "n < 48")
      (auto simp: bit_or_iff bit_push_bit_iff bit_take_bit_iff bit_drop_bit_eq bit_and_iff bit_not_iff bit_mask_iff)
qed

lemma kernel_half_index: "va \<ge> (0xFFFF800000000000 :: u64) \<Longrightarrow> pml4Index va \<in> {256..<512}"
proof -
  assume a: "va \<ge> (0xFFFF800000000000 :: u64)"
  have "bit (drop_bit 39 va AND 511 :: u64) 8" using kernel_half_bits [OF a, of 47] by (simp add: bit_and_iff bit_drop_bit_eq)
  then have "\<not> unat (drop_bit 39 va AND 511 :: u64) < 2 ^ 8" using unat_bit_lt [of "drop_bit 39 va AND 511" 8 8] by blast
  then show ?thesis by (simp add: pml4Index_def idx_lt)
qed

section \<open>Writable or executable\<close>

text \<open>The page an address lies in.\<close>

abbreviation pageBase :: "u64 \<Rightarrow> u64" where
  "pageBase va \<equiv> va AND NOT (mask 12)"

text \<open>
  The permission policy for one leaf: it belongs to the kernel, is not both writable and executable,
  and if it is executable the page lies in the kernel text and the direct map does not offer a writable
  alias of its frame.
\<close>

definition leafSafe :: "Sections \<Rightarrow> Paging \<Rightarrow> u64 \<Rightarrow> u64 \<Rightarrow> bool" where
  "leafSafe secs st va e \<longleftrightarrow> has e X86_PTE_G \<and> \<not> has e X86_PTE_US \<and> (has e X86_PTE_W \<longrightarrow> has e X86_PTE_NX)
     \<and> (\<not> has e X86_PTE_NX \<longrightarrow> kernelTextStart secs \<le> pageBase va \<and> pageBase va + X86_PTE_SIZE_4K \<le> kernelTextEnd secs
          \<and> (\<forall>h. hhdmLeafEntry st (e AND X86_PTE_ADDR_MASK) = Some h \<longrightarrow> \<not> has h X86_PTE_W))"

definition wxSafe :: "Sections \<Rightarrow> Paging \<Rightarrow> bool" where
  "wxSafe secs st \<longleftrightarrow> (\<forall>i < 256. \<not> has (ents st (kernelPml4Phys st) i) X86_PTE_P)
     \<and> (\<forall>va e. va \<ge> 0xFFFF800000000000 \<longrightarrow> findAnyLeafEntry st va = Some e \<longrightarrow> leafSafe secs st va e)"

lemma checkLeaf_sound:
  assumes "checkLeaf st va e sz (kernelTextStart secs) (kernelTextEnd secs) a = Ret b" "\<not> has e X86_PTE_US"
    and "sz = X86_PTE_SIZE_4K \<Longrightarrow> va = pageBase v"
  shows "leafSafe secs st v e"
  using assms by (auto simp: checkLeaf_def leafSafe_def Let_def split: prod.splits if_splits option.splits)

lemma verifyPt_entry:
  assumes "verifyPt st ts te va2 pt a = Ret b" "i < 512" "has (getEntry st pt i) X86_PTE_P"
  shows "\<not> has (getEntry st pt i) X86_PTE_US
    \<and> (\<exists>c d. checkLeaf st (va2 OR push_bit 12 (of_nat i)) (getEntry st pt i) X86_PTE_SIZE_4K ts te c = Ret d)"
  using forO_upt [OF assms(1) [unfolded verifyPt_def] le0 assms(2)] assms(3) by (auto simp: Let_def split: if_splits)

lemma verifyPd_entry:
  assumes "verifyPd st ts te va3 pd a = Ret b" "i < 512" "has (getEntry st pd i) X86_PTE_P"
  shows "\<not> has (getEntry st pd i) X86_PTE_US \<and> (\<exists>c d. if has (getEntry st pd i) X86_PTE_PS
      then checkLeaf st (va3 OR push_bit 21 (of_nat i)) (getEntry st pd i) X86_PTE_SIZE_2M ts te c = Ret d
      else verifyPt st ts te (va3 OR push_bit 21 (of_nat i)) (tableAt st (getEntry st pd i)) c = Ret d)"
  using forO_upt [OF assms(1) [unfolded verifyPd_def] le0 assms(2)] assms(3) by (auto simp: Let_def split: if_splits)

lemma verifyPdpt_entry:
  assumes "verifyPdpt st ts te va4 pdpt a = Ret b" "i < 512" "has (getEntry st pdpt i) X86_PTE_P"
  shows "\<not> has (getEntry st pdpt i) X86_PTE_US \<and> (\<exists>c d. if has (getEntry st pdpt i) X86_PTE_PS
      then checkLeaf st (va4 OR push_bit 30 (of_nat i)) (getEntry st pdpt i) X86_PTE_SIZE_1G ts te c = Ret d
      else verifyPd st ts te (va4 OR push_bit 30 (of_nat i)) (tableAt st (getEntry st pdpt i)) c = Ret d)"
  using forO_upt [OF assms(1) [unfolded verifyPdpt_def] le0 assms(2)] assms(3) by (auto simp: Let_def split: if_splits)

lemma large_leaf: "X86_PTE_SIZE_1G \<noteq> X86_PTE_SIZE_4K" "X86_PTE_SIZE_2M \<noteq> X86_PTE_SIZE_4K"
  by (simp_all add: pte_consts)

lemma verifyPdpt_sound:
  assumes v: "verifyPdpt st (kernelTextStart secs) (kernelTextEnd secs) (0xFFFF000000000000 OR push_bit 39 (of_nat (pml4Index va))) (tableAt st e4) a = Ret b"
    and va: "va \<ge> 0xFFFF800000000000" and e: "findAnyLeafEntry st va = Some e"
    and e4: "e4 = getEntry st (tableAt st (kernelPml4Phys st)) (pml4Index va)"
  shows "leafSafe secs st va e"
proof -
  define e3 where "e3 = getEntry st (tableAt st e4) (pdptIndex va)"
  define e2 where "e2 = getEntry st (tableAt st e3) (pdIndex va)"
  define e1 where "e1 = getEntry st (tableAt st e2) (ptIndex va)"
  have f: "has e3 X86_PTE_P" "has e3 X86_PTE_PS \<Longrightarrow> e = e3" "\<not> has e3 X86_PTE_PS \<Longrightarrow> has e2 X86_PTE_P"
    "\<not> has e3 X86_PTE_PS \<Longrightarrow> has e2 X86_PTE_PS \<Longrightarrow> e = e2" "\<not> has e3 X86_PTE_PS \<Longrightarrow> \<not> has e2 X86_PTE_PS \<Longrightarrow> has e1 X86_PTE_P \<and> e = e1"
    using e unfolding findAnyLeafEntry_def Let_def e4 [symmetric] e3_def [symmetric] e2_def [symmetric] e1_def [symmetric]
    by (auto split: if_splits)
  note V3 = verifyPdpt_entry [OF v index_lt(2) [of va], folded e3_def, OF f(1)]
  show ?thesis
  proof (cases "has e3 X86_PTE_PS")
    case True
    then show ?thesis using V3 f(2) large_leaf by (auto intro: checkLeaf_sound)
  next
    case n3: False
    then obtain a2 b2 where "verifyPd st (kernelTextStart secs) (kernelTextEnd secs)
        ((0xFFFF000000000000 OR push_bit 39 (of_nat (pml4Index va))) OR push_bit 30 (of_nat (pdptIndex va))) (tableAt st e3) a2 = Ret b2"
      using V3 by auto
    note V2 = verifyPd_entry [OF this index_lt(3) [of va], folded e2_def, OF f(3) [OF n3]]
    show ?thesis
    proof (cases "has e2 X86_PTE_PS")
      case True
      then show ?thesis using V2 f(4) [OF n3] large_leaf by (auto intro: checkLeaf_sound)
    next
      case n2: False
      then obtain a1 b1 where "verifyPt st (kernelTextStart secs) (kernelTextEnd secs)
          (((0xFFFF000000000000 OR push_bit 39 (of_nat (pml4Index va))) OR push_bit 30 (of_nat (pdptIndex va))) OR push_bit 21 (of_nat (pdIndex va)))
          (tableAt st e2) a1 = Ret b1" using V2 by auto
      note V1 = verifyPt_entry [OF this index_lt(4) [of va], folded e1_def, unfolded leaf_va [OF va]]
      then show ?thesis using f(5) [OF n3 n2] by (auto intro: checkLeaf_sound)
    qed
  qed
qed

lemma verify_sound:
  assumes w: "ptWf st" and v: "archPagingVerifyWx secs st = Ret c"
  shows "wxSafe secs st" "tablesActive st" "cr0 (cpu st) AND X86_CR0_WP_BIT \<noteq> 0" "msr (cpu st) X86_MSR_EFER AND X86_EFER_NXE_BIT \<noteq> 0"
proof -
  let ?pml4 = "tableAt st (kernelPml4Phys st)"
  show g: "tablesActive st" "cr0 (cpu st) AND X86_CR0_WP_BIT \<noteq> 0" "msr (cpu st) X86_MSR_EFER AND X86_EFER_NXE_BIT \<noteq> 0"
    using v by (auto simp: archPagingVerifyWx_def split: if_splits)
  have r: "kernelPml4Phys st AND X86_PTE_ADDR_MASK = kernelPml4Phys st" by (rule tbok_mask [OF root_ok(1) [OF w]])
  have low: "\<not> list_ex (\<lambda>i. has (getEntry st ?pml4 i) X86_PTE_P) [0..<256]"
    using v g by (auto simp: archPagingVerifyWx_def Let_def simp del: upt_rec_numeral split: if_splits)
  note loop = v [unfolded archPagingVerifyWx_def Let_def, simplified g low if_False simp_thms]
  have "leafSafe secs st va e" if va: "va \<ge> 0xFFFF800000000000" and e: "findAnyLeafEntry st va = Some e" for va e
  proof -
    have "256 \<le> pml4Index va" "pml4Index va < 512" using kernel_half_index [OF va] by simp_all
    from forO_upt [OF loop this] obtain a b where "verifyPdpt st (kernelTextStart secs) (kernelTextEnd secs)
        (0xFFFF000000000000 OR push_bit 39 (of_nat (pml4Index va))) (tableAt st (getEntry st ?pml4 (pml4Index va))) a = Ret b"
      by (auto split: if_splits)
    then show ?thesis by (rule verifyPdpt_sound [OF _ va e refl])
  qed
  moreover have "\<not> has (ents st (kernelPml4Phys st) i) X86_PTE_P" if "i < 256" for i
    using low that by (simp add: list_ex_iff getEntry_tableAt r del: upt_rec_numeral)
  ultimately show "wxSafe secs st" unfolding wxSafe_def by blast
qed

end
