(* ===== verification/Vmm.thy ===== *)
theory Vmm
  imports Kva Paging_Wx
begin

text \<open>
  The virtual memory manager, \<open>kernel/mm/vmm.c\<close>: the interface over the page tables and the
  allocator of the kernel virtual area. The lock of the file is not modelled: each call is one step.
  The section on runs shows that no sequence of calls undoes the permission policy that was verified
  at boot.
\<close>

section \<open>State and operations\<close>

definition VM_KVA_BASE :: u64 where "VM_KVA_BASE = 0xFFFFC00000000000"
definition VM_KVA_END :: u64 where "VM_KVA_END = 0xFFFFE00000000000"

record Vmm =
  vpaging :: Paging
  kvaState :: KvaState
  vmmActive :: bool

definition vmmInit :: "Sections \<Rightarrow> BootInfo \<Rightarrow> BootMemRegion list \<Rightarrow> Vmm \<Rightarrow> Vmm outcome" where
  "vmmInit secs bi mp v =
     bindO (archPatInit (cpu (vpaging v))) (\<lambda>c.
     bindO (archPagingBuildKernel secs bi mp ((vpaging v)\<lparr>cpu := c\<rparr>)) (\<lambda>p1.
     bindO (archPagingActivate p1) (\<lambda>p2.
     bindO (archCpuEnableProtections p2) (\<lambda>p3.
     bindO (archPagingVerifyWx secs p3) (\<lambda>_.
       Ret (v\<lparr>vpaging := p3, vmmActive := True, kvaState := kvaStateInit (kvaState v) VM_KVA_BASE VM_KVA_END\<rparr>))))))"

definition vmmKernelTablesActive :: "Vmm \<Rightarrow> bool" where
  "vmmKernelTablesActive v = vmmActive v"

definition vmmRangeInKva :: "u64 \<Rightarrow> u64 \<Rightarrow> bool" where
  "vmmRangeInKva va sz =
     (if sz = 0 \<or> va mod KVA_PAGE_SIZE \<noteq> 0 \<or> sz mod KVA_PAGE_SIZE \<noteq> 0 then False
      else let end' = va + sz in if end' < va then False else va \<ge> VM_KVA_BASE \<and> end' \<le> VM_KVA_END)"

definition vmmMapKernel :: "Vmm \<Rightarrow> u64 \<Rightarrow> u64 \<Rightarrow> u64 \<Rightarrow> VmmFlags \<Rightarrow> (Vmm \<times> (Status + unit)) outcome" where
  "vmmMapKernel v va pa sz fl =
     (if \<not> vmmActive v then Panic ''vmmMapKernel: called before vmmInit()''
      else if \<not> vmmRangeInKva va sz \<or> pa mod KVA_PAGE_SIZE \<noteq> 0 then Ret (v, Inl STATUS_ERR_INVALID)
      else bindO (archMapPages (vpaging v) va pa sz fl) (\<lambda>(p, r). Ret (v\<lparr>vpaging := p\<rparr>, r)))"

definition vmmUnmapKernel :: "Vmm \<Rightarrow> u64 \<Rightarrow> u64 \<Rightarrow> (Vmm \<times> (Status + unit)) outcome" where
  "vmmUnmapKernel v va sz =
     (if \<not> vmmActive v then Panic ''vmmUnmapKernel: called before vmmInit()''
      else if \<not> vmmRangeInKva va sz then Ret (v, Inl STATUS_ERR_INVALID)
      else bindO (archUnmapPages (vpaging v) va sz) (\<lambda>(p, r). Ret (v\<lparr>vpaging := p\<rparr>, r)))"

definition vmmLookupKernel :: "Vmm \<Rightarrow> u64 \<Rightarrow> (Status + (u64 \<times> VmmFlags)) outcome" where
  "vmmLookupKernel v va =
     (if \<not> vmmActive v then Panic ''vmmLookupKernel: called before vmmInit()'' else archLookupKernel (vpaging v) va)"

definition vmmKvaAlloc :: "Vmm \<Rightarrow> u64 \<Rightarrow> bool \<Rightarrow> (Vmm \<times> (Status + u64)) outcome" where
  "vmmKvaAlloc v sz outNull =
     (if \<not> vmmActive v then Panic ''vmmKvaAlloc: called before vmmInit()''
      else case kvaAlloc (kvaState v) sz outNull of
          Inl e \<Rightarrow> Ret (v, Inl e)
        | Inr (k, va) \<Rightarrow> Ret (v\<lparr>kvaState := k\<rparr>, Inr va))"

definition vmmKvaFree :: "Vmm \<Rightarrow> u64 \<Rightarrow> u64 \<Rightarrow> Vmm outcome" where
  "vmmKvaFree v va sz =
     (if \<not> vmmActive v then Panic ''vmmKvaFree: called before vmmInit()''
      else if \<not> vmmRangeInKva va sz then Panic ''vmm: kvaFree: range outside the KVA region''
      else case kvaFree (kvaState v) va sz of
          Inl e \<Rightarrow> Panic ''vmm: kvaFree: invalid range''
        | Inr k \<Rightarrow> Ret (v\<lparr>kvaState := k\<rparr>))"

text \<open>The page-rounded range of a device mapping, and the test of its arguments.\<close>

definition mmioBase :: "u64 \<Rightarrow> u64" where
  "mmioBase a = a AND NOT (KVA_PAGE_SIZE - 1)"

definition mmioLen :: "u64 \<Rightarrow> u64 \<Rightarrow> u64" where
  "mmioLen a sz = ((a + sz + KVA_PAGE_SIZE - 1) AND NOT (KVA_PAGE_SIZE - 1)) - mmioBase a"

definition mmioBad :: "u64 \<Rightarrow> u64 \<Rightarrow> bool" where
  "mmioBad a sz \<longleftrightarrow> sz = 0 \<or> a + sz < a \<or> a + sz > (- 1) - (KVA_PAGE_SIZE - 1)"

definition vmmMapMmio :: "Vmm \<Rightarrow> u64 \<Rightarrow> u64 \<Rightarrow> (Vmm \<times> (Status + u64)) outcome" where
  "vmmMapMmio v pa sz =
     (if \<not> vmmActive v then Panic ''vmmMapMmio: called before vmmInit()''
      else if mmioBad pa sz then Ret (v, Inl STATUS_ERR_INVALID)
      else bindO (vmmKvaAlloc v (mmioLen pa sz) False) (\<lambda>(v1, r). case r of
          Inl e \<Rightarrow> Ret (v1, Inl e)
        | Inr va \<Rightarrow> bindO (vmmMapKernel v1 va (mmioBase pa) (mmioLen pa sz) (VMM_WRITE OR VMM_CACHE_UC)) (\<lambda>(v2, r2). case r2 of
            Inl e \<Rightarrow> bindO (vmmKvaFree v2 va (mmioLen pa sz)) (\<lambda>v3. Ret (v3, Inl e))
          | Inr _ \<Rightarrow> Ret (v2, Inr (va + (pa - mmioBase pa))))))"

text \<open>The check of one page in the loop of \<open>vmmUnmapMmio\<close>.\<close>

definition mmioPageCheck :: "Vmm \<Rightarrow> u64 \<Rightarrow> u64 \<Rightarrow> unit \<Rightarrow> unit outcome" where
  "mmioPageCheck v b off u =
     bindO (vmmLookupKernel v (b + off)) (\<lambda>r. case r of
         Inl _ \<Rightarrow> Panic ''vmm: vmmUnmapMmio: not a mapped UC MMIO page''
       | Inr (_, f) \<Rightarrow> if f \<noteq> VMM_WRITE OR VMM_CACHE_UC then Panic ''vmm: vmmUnmapMmio: not a mapped UC MMIO page'' else Ret ())"

definition vmmUnmapMmio :: "Vmm \<Rightarrow> u64 \<Rightarrow> u64 \<Rightarrow> Vmm outcome" where
  "vmmUnmapMmio v a sz =
     (if mmioBad a sz then Panic ''vmm: vmmUnmapMmio: bad range''
      else let b = mmioBase a; l = mmioLen a sz
        in if \<not> vmmRangeInKva b l \<or> b - KVA_GUARD_SIZE < VM_KVA_BASE \<or> b + l + KVA_GUARD_SIZE > VM_KVA_END
           then Panic ''vmm: vmmUnmapMmio: not a vmmMapMmio range''
           else bindO (vmmLookupKernel v (b - KVA_GUARD_SIZE)) (\<lambda>g1.
             if g1 \<noteq> Inl STATUS_ERR_NOT_FOUND then Panic ''vmm: vmmUnmapMmio: not a vmmMapMmio range''
             else bindO (vmmLookupKernel v (b + l)) (\<lambda>g2.
               if g2 \<noteq> Inl STATUS_ERR_NOT_FOUND then Panic ''vmm: vmmUnmapMmio: not a vmmMapMmio range''
               else bindO (forO (mmioPageCheck v b) (pageOffsets l) ()) (\<lambda>_.
                 bindO (vmmUnmapKernel v b l) (\<lambda>(v1, r). case r of
                     Inl _ \<Rightarrow> Panic ''vmm: vmmUnmapMmio: not a vmmMapMmio mapping''
                   | Inr _ \<Rightarrow> vmmKvaFree v1 b l)))))"

section \<open>The kernel virtual area in the address space\<close>

lemma vmmRangeInKva_iff:
  "vmmRangeInKva va sz \<longleftrightarrow> sz \<noteq> 0 \<and> 4096 dvd unat va \<and> 4096 dvd unat sz
     \<and> unat VM_KVA_BASE \<le> unat va \<and> unat va + unat sz \<le> unat VM_KVA_END"
proof (cases "va + sz < va")
  case True
  then have "2 ^ 64 \<le> unat va + unat sz" by (simp add: wrap_add_less_iff)
  then show ?thesis using True unat_lt_64 [of VM_KVA_END] by (auto simp: vmmRangeInKva_def)
next
  case False
  then have "unat (va + sz) = unat va + unat sz" by (simp add: wrap_add_less_iff unat_add_nowrap)
  then show ?thesis using False
    by (auto simp: vmmRangeInKva_def KVA_PAGE_SIZE_def unat_mod_eq_0 dvd_eq_mod_eq_0 word_le_nat_alt)
qed

text \<open>The pages of the kernel virtual area; no canonical address outside the area lies on one.\<close>

abbreviation kvaPages :: "nat set" where
  "kvaPages \<equiv> {0xC00000000..<0xE00000000}"

lemma kva_consts: "unat VM_KVA_BASE = 0xFFFFC00000000000" "unat VM_KVA_END = 0xFFFFE00000000000"
  by (simp_all add: VM_KVA_BASE_def VM_KVA_END_def)

lemma vpn_high: "0xFFFF000000000000 \<le> unat va \<Longrightarrow> vpn va = (unat va - 0xFFFF000000000000) div 4096"
proof -
  assume h: "0xFFFF000000000000 \<le> unat va"
  then have "unat va = (unat va - 0xFFFF000000000000) + 65535 * 2 ^ 48" by simp
  then have "unat va mod 2 ^ 48 = (unat va - 0xFFFF000000000000) mod 2 ^ 48" by (metis mod_mult_self1)
  then show ?thesis using unat_lt_64 [of va] by (simp add: vpn_def)
qed

lemma vpn_kva:
  "unat VM_KVA_BASE \<le> unat va \<Longrightarrow> unat va < unat VM_KVA_END \<Longrightarrow> vpn va \<in> kvaPages"
proof -
  assume a: "unat VM_KVA_BASE \<le> unat va" "unat va < unat VM_KVA_END"
  then have "0xC00000000 \<le> (unat va - 0xFFFF000000000000) div 4096 \<and> (unat va - 0xFFFF000000000000) div 4096 < 0xE00000000"
    unfolding kva_consts by linarith
  then show ?thesis using a(1) by (simp add: vpn_high kva_consts)
qed

lemma vpn_not_kva:
  "unat va < 2 ^ 47 \<Longrightarrow> vpn va \<notin> kvaPages"
  "0xFFFF800000000000 \<le> unat va \<Longrightarrow> \<not> (unat VM_KVA_BASE \<le> unat va \<and> unat va < unat VM_KVA_END) \<Longrightarrow> vpn va \<notin> kvaPages"
proof -
  show "unat va < 2 ^ 47 \<Longrightarrow> vpn va \<notin> kvaPages" by (simp add: vpn_def)
  assume a: "0xFFFF800000000000 \<le> unat va" "\<not> (unat VM_KVA_BASE \<le> unat va \<and> unat va < unat VM_KVA_END)"
  have "\<not> (0xC00000000 \<le> (unat va - 0xFFFF000000000000) div 4096 \<and> (unat va - 0xFFFF000000000000) div 4096 < 0xE00000000)"
    using a unfolding kva_consts by linarith
  then show "vpn va \<notin> kvaPages" using a(1) by (simp add: vpn_high)
qed

lemma range_pages:
  assumes "vmmRangeInKva va sz" "off \<in> set (pageOffsets sz)"
  shows "vpn (va + off) \<in> kvaPages" "unat (va + off) = unat va + unat off"
proof -
  have r: "4096 dvd unat sz" "unat VM_KVA_BASE \<le> unat va" "unat va + unat sz \<le> unat VM_KVA_END"
    using assms(1) by (simp_all add: vmmRangeInKva_iff)
  have o: "unat off < unat sz" using offset_props(1) [OF assms(2) r(1)] .
  then show u: "unat (va + off) = unat va + unat off"
    using r(3) unat_lt_64 [of VM_KVA_END] by (intro unat_add_nowrap) simp
  show "vpn (va + off) \<in> kvaPages" using r o u by (intro vpn_kva) simp_all
qed

section \<open>What the operations may change\<close>

text \<open>
  A leaf that may appear: global, for the kernel only, never executable, and not a writable view of the
  kernel's read-only frames.
\<close>

definition newLeafOk :: "Paging \<Rightarrow> u64 \<Rightarrow> bool" where
  "newLeafOk st e \<longleftrightarrow> has e X86_PTE_G \<and> has e X86_PTE_NX \<and> \<not> has e X86_PTE_US
     \<and> (has e X86_PTE_W \<longrightarrow> \<not> (unat (e AND X86_PTE_ADDR_MASK) < unat (kernelRoPhysEnd st)
          \<and> unat (kernelRoPhysStart st) < unat (e AND X86_PTE_ADDR_MASK) + 4096))"

definition kvaOnly :: "Paging \<Rightarrow> Paging \<Rightarrow> bool" where
  "kvaOnly st st' \<longleftrightarrow> pagingOk st' \<and> keeps st st'
     \<and> (\<forall>va. findAnyLeafEntry st' va = findAnyLeafEntry st va
          \<or> vpn va \<in> kvaPages \<and> (\<forall>e. findAnyLeafEntry st' va = Some e \<longrightarrow> newLeafOk st e))"

lemma kvaOnly_refl: "pagingOk st \<Longrightarrow> kvaOnly st st"
  by (simp add: kvaOnly_def)

lemma newLeafOk_keeps: "keeps st st' \<Longrightarrow> newLeafOk st' e = newLeafOk st e"
  by (simp add: newLeafOk_def keeps_def)

lemma kvaOnly_trans: "kvaOnly a b \<Longrightarrow> kvaOnly b c \<Longrightarrow> kvaOnly a c"
  unfolding kvaOnly_def using keeps_trans [of a b c] newLeafOk_keeps [of a b] by metis

lemma leafFlags_kernel:
  assumes "fl \<in> {0, 1, 4, 5, 8, 9 :: u32}" "4096 dvd unat pa"
  shows "\<not> has (pa OR leafFlagsFor fl) X86_PTE_US"
  using assms(1) page_aligned_bit [OF assms(2), of 2] by (auto simp: has_bit bit_or_iff leafFlags_values)

lemma mapDone_newLeaf:
  assumes ok: "pagingOk st" and m: "mapArgsOk st va pa sz fl" and o: "off \<in> set (pageOffsets sz)"
  shows "newLeafOk st ((pa + off) OR leafFlagsFor fl)"
proof -
  have fl: "fl \<in> {0, 1, 4, 5, 8, 9}" and s: "4096 dvd unat sz"
    and r: "\<not> (fl AND VMM_WRITE \<noteq> 0 \<and> pa < kernelRoPhysEnd st \<and> kernelRoPhysStart st < pa + sz)"
    and l: "unat pa + unat sz \<le> unat (snd (physAddrLimit st)) + 1"
    using m by (simp_all add: mapArgsOk_def)
  note A = page_addr [OF ok m o] and O = offset_props [OF o s]
  note F = leafFlags_roundtrip [OF fl A(2,3)]
  have "unat (snd (physAddrLimit st)) < 2 ^ 52" using ok physAddrLimit_props(2) by (simp add: pagingOk_def)
  then have "unat (pa + sz) = unat pa + unat sz" using l by (intro unat_add_nowrap) simp
  then have "\<not> (fl AND VMM_WRITE \<noteq> 0 \<and> unat (pa + off) < unat (kernelRoPhysEnd st) \<and> unat (kernelRoPhysStart st) < unat (pa + off) + 4096)"
    using r A(1) O(3) by (auto simp: word_less_nat_alt)
  then show ?thesis using F(4,6) leafFlags_kernel [OF fl A(2)] unfolding newLeafOk_def F(1,5) by blast
qed

lemma find_look: "pagingOk s \<Longrightarrow> findAnyLeafEntry s va = ptLook s (kpath va)"
  by (simp add: pagingOk_def findAnyLeafEntry_look)

lemma archMap_kvaOnly:
  assumes ok: "pagingOk st" and r: "vmmRangeInKva va sz" and e: "archMapPages st va pa sz fl = Ret (st', x)"
  shows "kvaOnly st st'"
proof -
  have R: "pagingOk st'" "keeps st st'" "case x of Inr _ \<Rightarrow> mapDone st va pa sz fl st' | Inl e \<Rightarrow> mapFailed st va pa sz fl st' e"
    using archMap_effect [OF ok, of va pa sz fl] e by auto
  show ?thesis
  proof (cases x)
    case (Inl y)
    then show ?thesis using R ok by (simp add: kvaOnly_def find_look mapFailed_def)
  next
    case (Inr u)
    then have m: "mapDone st va pa sz fl st'" and a: "mapArgsOk st va pa sz fl" using R(3) by (simp_all add: mapDone_def)
    have "ptLook st' (kpath w) = ptLook st (kpath w) \<or> vpn w \<in> kvaPages \<and> (\<forall>e. ptLook st' (kpath w) = Some e \<longrightarrow> newLeafOk st e)" for w
    proof (cases "\<exists>off \<in> set (pageOffsets sz). kpath w = kpath (va + off)")
      case True
      then obtain off where o: "off \<in> set (pageOffsets sz)" "kpath w = kpath (va + off)" by blast
      then show ?thesis
        using range_pages(1) [OF r o(1)] mapDone_leaf(1) [OF ok R(1) m o(1)] mapDone_newLeaf [OF ok a o(1)] o(2)
        by (simp add: kpath_vpn [THEN iffD1, OF o(2)])
    next
      case False
      then show ?thesis using mapDone_other [OF m fpath_kpath, of w] by blast
    qed
    then show ?thesis using R ok by (simp add: kvaOnly_def find_look)
  qed
qed

lemma archUnmap_kvaOnly:
  assumes ok: "pagingOk st" and r: "vmmRangeInKva va sz" and e: "archUnmapPages st va sz = Ret (st', x)"
  shows "kvaOnly st st'"
proof -
  have R: "pagingOk st'" "keeps st st'" "x = Inr () \<Longrightarrow>
      \<forall>q. fpath q \<longrightarrow> ptLook st' q = (if q \<in> (\<lambda>off. kpath (va + off)) ` set (pageOffsets sz) then None else ptLook st q)"
      "x \<noteq> Inr () \<Longrightarrow> st' = st"
    using archUnmap_effect [OF ok, of va sz] e by (auto split: sum.splits)
  have "vpn w \<in> kvaPages" if "kpath w \<in> (\<lambda>off. kpath (va + off)) ` set (pageOffsets sz)" for w
    using that range_pages(1) [OF r] by (auto simp: kpath_vpn)
  then show ?thesis using R ok by (cases "x = Inr ()") (auto simp: kvaOnly_def find_look)
qed

section \<open>Runs of the virtual memory manager\<close>

text \<open>One call of the interface that returns; a run is a sequence of calls.\<close>

inductive vmmStep :: "Vmm \<Rightarrow> Vmm \<Rightarrow> bool" where
  map: "vmmMapKernel v va pa sz fl = Ret (v', r) \<Longrightarrow> vmmStep v v'"
| unmap: "vmmUnmapKernel v va sz = Ret (v', r) \<Longrightarrow> vmmStep v v'"
| reserve: "vmmKvaAlloc v sz outNull = Ret (v', a) \<Longrightarrow> vmmStep v v'"
| release: "vmmKvaFree v va sz = Ret v' \<Longrightarrow> vmmStep v v'"
| mapMmio: "vmmMapMmio v pa sz = Ret (v', a) \<Longrightarrow> vmmStep v v'"
| unmapMmio: "vmmUnmapMmio v va sz = Ret v' \<Longrightarrow> vmmStep v v'"

lemma vmmMapKernel_kvaOnly:
  "vmmMapKernel v va pa sz fl = Ret (v', r) \<Longrightarrow> pagingOk (vpaging v) \<Longrightarrow> kvaOnly (vpaging v) (vpaging v')"
  by (auto simp: vmmMapKernel_def bindO_eq_Ret kvaOnly_refl split: if_splits intro: archMap_kvaOnly)

lemma vmmUnmapKernel_kvaOnly:
  "vmmUnmapKernel v va sz = Ret (v', r) \<Longrightarrow> pagingOk (vpaging v) \<Longrightarrow> kvaOnly (vpaging v) (vpaging v')"
  by (auto simp: vmmUnmapKernel_def bindO_eq_Ret kvaOnly_refl split: if_splits intro: archUnmap_kvaOnly)

lemma vmmKva_vpaging:
  "vmmKvaAlloc v sz outNull = Ret (v', a) \<Longrightarrow> vpaging v' = vpaging v"
  "vmmKvaFree v va sz = Ret v' \<Longrightarrow> vpaging v' = vpaging v"
  by (auto simp: vmmKvaAlloc_def vmmKvaFree_def split: if_splits sum.splits)

lemma bindO_result:
  "bindO m (\<lambda>(s, r). case r of Inl e \<Rightarrow> f s e | Inr x \<Rightarrow> g s x) = Ret y
     \<longleftrightarrow> (\<exists>s e. m = Ret (s, Inl e) \<and> f s e = Ret y) \<or> (\<exists>s x. m = Ret (s, Inr x) \<and> g s x = Ret y)"
proof (cases m)
  case (Ret p)
  then show ?thesis by (cases p; cases "snd p") auto
qed simp

lemma vmmMapMmio_kvaOnly:
  assumes e: "vmmMapMmio v pa sz = Ret (v', a)" and ok: "pagingOk (vpaging v)"
  shows "kvaOnly (vpaging v) (vpaging v')"
proof (cases "mmioBad pa sz")
  case True
  then show ?thesis using e ok by (auto simp: vmmMapMmio_def kvaOnly_refl split: if_splits)
next
  case False
  then obtain v1 r where 1: "vmmKvaAlloc v (mmioLen pa sz) False = Ret (v1, r)"
    and 2: "(case r of Inl e \<Rightarrow> Ret (v1, Inl e)
        | Inr va \<Rightarrow> bindO (vmmMapKernel v1 va (mmioBase pa) (mmioLen pa sz) (VMM_WRITE OR VMM_CACHE_UC)) (\<lambda>(v2, r2). case r2 of
            Inl e \<Rightarrow> bindO (vmmKvaFree v2 va (mmioLen pa sz)) (\<lambda>v3. Ret (v3, Inl e))
          | Inr _ \<Rightarrow> Ret (v2, Inr (va + (pa - mmioBase pa))))) = Ret (v', a)"
    using e by (auto simp: vmmMapMmio_def bindO_eq_Ret split: if_splits)
  have p: "vpaging v1 = vpaging v" using vmmKva_vpaging(1) [OF 1] .
  show ?thesis
  proof (cases r)
    case (Inl x)
    then show ?thesis using 2 p ok by (auto simp: kvaOnly_refl)
  next
    case (Inr va)
    then obtain v2 r2 where 3: "vmmMapKernel v1 va (mmioBase pa) (mmioLen pa sz) (VMM_WRITE OR VMM_CACHE_UC) = Ret (v2, r2)"
      and "vpaging v' = vpaging v2"
      using 2 unfolding Inr sum.case bindO_result by (auto simp: bindO_eq_Ret vmmKva_vpaging)
    then show ?thesis using vmmMapKernel_kvaOnly [OF 3] p ok by simp
  qed
qed

lemma vmmUnmapMmio_eq:
  "vmmUnmapMmio v a sz = Ret v' \<longleftrightarrow> \<not> mmioBad a sz \<and> vmmRangeInKva (mmioBase a) (mmioLen a sz)
     \<and> \<not> mmioBase a - KVA_GUARD_SIZE < VM_KVA_BASE \<and> \<not> mmioBase a + mmioLen a sz + KVA_GUARD_SIZE > VM_KVA_END
     \<and> vmmLookupKernel v (mmioBase a - KVA_GUARD_SIZE) = Ret (Inl STATUS_ERR_NOT_FOUND)
     \<and> vmmLookupKernel v (mmioBase a + mmioLen a sz) = Ret (Inl STATUS_ERR_NOT_FOUND)
     \<and> forO (mmioPageCheck v (mmioBase a)) (pageOffsets (mmioLen a sz)) () = Ret ()
     \<and> (\<exists>v1. vmmUnmapKernel v (mmioBase a) (mmioLen a sz) = Ret (v1, Inr ()) \<and> vmmKvaFree v1 (mmioBase a) (mmioLen a sz) = Ret v')"
  by (cases "vmmLookupKernel v (mmioBase a - KVA_GUARD_SIZE)"; cases "vmmLookupKernel v (mmioBase a + mmioLen a sz)";
      cases "forO (mmioPageCheck v (mmioBase a)) (pageOffsets (mmioLen a sz)) ()"; simp add: vmmUnmapMmio_def Let_def bindO_result) blast

lemma vmmUnmapMmio_kvaOnly:
  "vmmUnmapMmio v va sz = Ret v' \<Longrightarrow> pagingOk (vpaging v) \<Longrightarrow> kvaOnly (vpaging v) (vpaging v')"
  using vmmUnmapKernel_kvaOnly vmmKva_vpaging(2) unfolding vmmUnmapMmio_eq by metis

lemma vmmStep_kvaOnly: "vmmStep v v' \<Longrightarrow> pagingOk (vpaging v) \<Longrightarrow> kvaOnly (vpaging v) (vpaging v')"
proof (induction rule: vmmStep.induct)
  case (reserve v sz outNull v' a)
  then show ?case using vmmKva_vpaging(1) kvaOnly_refl by metis
next
  case (release v va sz v')
  then show ?case using vmmKva_vpaging(2) kvaOnly_refl by metis
qed (blast intro: vmmMapKernel_kvaOnly vmmUnmapKernel_kvaOnly vmmMapMmio_kvaOnly vmmUnmapMmio_kvaOnly)+

lemma vmmRun_kvaOnly: "vmmStep\<^sup>*\<^sup>* v v' \<Longrightarrow> pagingOk (vpaging v) \<Longrightarrow> kvaOnly (vpaging v) (vpaging v')"
proof (induction rule: rtranclp_induct)
  case base
  then show ?case by (rule kvaOnly_refl)
next
  case (step y z)
  then have "kvaOnly (vpaging v) (vpaging y)" by blast
  moreover from this have "pagingOk (vpaging y)" by (simp add: kvaOnly_def)
  ultimately show ?case using vmmStep_kvaOnly [OF step(2)] kvaOnly_trans by blast
qed

section \<open>Writable or executable, for good\<close>

lemma hhdm_not_kva:
  assumes "\<not> pa \<ge> BOOTINFO_HHDM_SIZE"
  shows "vpn (BOOTINFO_HHDM_BASE + pa) \<notin> kvaPages"
proof -
  have p: "unat pa < 0x400000000000" using assms by (simp add: BOOTINFO_HHDM_SIZE_def word_le_nat_alt)
  then have "unat (BOOTINFO_HHDM_BASE + pa) = 0xFFFF800000000000 + unat pa"
    using unat_add_nowrap [of BOOTINFO_HHDM_BASE pa] by (simp add: BOOTINFO_HHDM_BASE_def)
  then show ?thesis using p by (intro vpn_not_kva(2)) (simp_all add: kva_consts)
qed

lemma kvaOnly_hhdm: "kvaOnly st st' \<Longrightarrow> hhdmLeafEntry st' pa = hhdmLeafEntry st pa"
  using hhdm_not_kva [of pa] unfolding kvaOnly_def hhdmLeafEntry_def by auto

lemma wxSafe_low:
  assumes w: "ptWf st" and s: "wxSafe secs st" and v: "unat va < 2 ^ 47"
  shows "findAnyLeafEntry st va = None"
proof -
  have "vpn va < 2 ^ 35" using v by (simp add: vpn_def)
  then have "drop_bit 27 (vpn va) < 256" by (simp add: drop_bit_eq_div)
  then have "pml4Index va < 256" using take_bit_nat_less_eq_self [of 9 "drop_bit 27 (vpn va)"] unfolding index_vpn by linarith
  then have "\<not> has (ents st (kernelPml4Phys st) (pml4Index va)) X86_PTE_P" using s by (simp add: wxSafe_def)
  then show ?thesis by (simp add: findAnyLeafEntry_look [OF w] kpath_def look.simps)
qed

lemma wxSafe_kvaOnly:
  assumes ok: "pagingOk st" and s: "wxSafe secs st" and k: "kvaOnly st st'"
  shows "unat va < 2 ^ 47 \<Longrightarrow> findAnyLeafEntry st' va = None"
    and "va \<ge> 0xFFFF800000000000 \<Longrightarrow> findAnyLeafEntry st' va = Some e \<Longrightarrow> leafSafe secs st' va e"
proof -
  have w: "ptWf st" using ok by (simp add: pagingOk_def)
  show "findAnyLeafEntry st' va = None" if "unat va < 2 ^ 47"
    using wxSafe_low [OF w s that] vpn_not_kva(1) [OF that] k unfolding kvaOnly_def by metis
  show "leafSafe secs st' va e" if "va \<ge> 0xFFFF800000000000" "findAnyLeafEntry st' va = Some e"
  proof (cases "findAnyLeafEntry st' va = findAnyLeafEntry st va")
    case True
    then have "leafSafe secs st va e" using s that by (simp add: wxSafe_def)
    then show ?thesis by (simp add: leafSafe_def kvaOnly_hhdm [OF k])
  next
    case False
    then have "newLeafOk st e" using k that(2) unfolding kvaOnly_def by blast
    then show ?thesis by (simp add: newLeafOk_def leafSafe_def)
  qed
qed

section \<open>An example state\<close>

text \<open>
  The tables right after they were built for a machine with nothing mapped yet: every slot of the
  kernel half of the PML4 points to an empty table of its own.
\<close>

definition demoRam :: "u64 \<Rightarrow> u64" where
  "demoRam a = (let d = a - 0xFFFF800000100000 in if 2048 \<le> d \<and> d < 4096 then (0x40000000 + 512 * d) OR 3 else 0)"

definition demoKernel :: Paging where
  "demoKernel = demoPaging\<lparr>tpmm := (tpmm demoPaging)\<lparr>physRam := demoRam\<rparr>\<rparr>"

definition demoSecs :: Sections where
  "demoSecs = \<lparr>kernelImageStart = 0xFFFFFFFF80000000, kernelTextStart = 0xFFFFFFFF80000000, kernelTextEnd = 0xFFFFFFFF80040000,
     kernelRodataStart = 0xFFFFFFFF80040000, kernelRodataEnd = 0xFFFFFFFF80080000, kernelDataStart = 0xFFFFFFFF80080000,
     kernelDataEnd = 0xFFFFFFFF800C0000, kernelBootStackBottom = 0xFFFFFFFF800C1000, kernelBootStackTop = 0xFFFFFFFF800C5000,
     kernelIst1Bottom = 0xFFFFFFFF800C6000, kernelIst1Top = 0xFFFFFFFF800C8000, kernelIst2Bottom = 0xFFFFFFFF800C9000,
     kernelIst2Top = 0xFFFFFFFF800CB000, kernelIst3Bottom = 0xFFFFFFFF800CC000, kernelIst3Top = 0xFFFFFFFF800CE000\<rparr>"

definition demoVmm :: Vmm where
  "demoVmm = \<lparr>vpaging = demoKernel, kvaState = kvaStateInit kvaDemo VM_KVA_BASE VM_KVA_END, vmmActive = True\<rparr>"

definition demoTable :: "nat \<Rightarrow> u64" where
  "demoTable i = 0x40000000 + 4096 * of_nat i"

lemma demoKernel_fields [simp]:
  "kernelPml4Phys demoKernel = 0x100000" "pmmFree (tpmm demoKernel) = {0x300..<0x800}" "pmmWf (tpmm demoKernel)"
  "tablesActive demoKernel" "cpu demoKernel = cpu demoPaging" "physLimit demoKernel = 0xFFFFFFFFF"
  "kernelRoPhysStart demoKernel = 0x200000" "kernelRoPhysEnd demoKernel = 0x280000"
  using demo1_wf(1,3) by (simp_all add: demoKernel_def) (simp_all add: demoPaging_def)

lemma demoKernel_ents: "ents demoKernel t i = demoRam (0xFFFF800000000000 + t + 8 * of_nat i)"
  by (simp add: ents_def demoKernel_def) (simp add: demoPaging_def demoPmm1_def demoPmm0_def)

lemma unat_small: "n < 2 ^ 40 \<Longrightarrow> unat (of_nat n :: u64) = n"
  by (rule unat_of_nat_eq) simp

lemma demoTable_unat: "i < 512 \<Longrightarrow> unat (demoTable i) = 0x40000000 + 4096 * i"
proof -
  assume i: "i < 512"
  have "demoTable i = of_nat (0x40000000 + 4096 * i)" by (simp add: demoTable_def)
  then show ?thesis using i unat_small [of "0x40000000 + 4096 * i"] by simp
qed

lemma demo_root: "i < 512 \<Longrightarrow> ents demoKernel 0x100000 i = (if i < 256 then 0 else demoTable i OR 3)"
proof -
  assume i: "i < 512"
  have d: "(0xFFFF800000000000 + 0x100000 + 8 * of_nat i :: u64) - 0xFFFF800000100000 = of_nat (8 * i)" by simp
  have u: "unat (of_nat (8 * i) :: u64) = 8 * i" using i by (intro unat_small) simp
  have "ents demoKernel 0x100000 i = (if 2048 \<le> (of_nat (8 * i) :: u64) \<and> (of_nat (8 * i) :: u64) < 4096 then (0x40000000 + 512 * of_nat (8 * i)) OR 3 else 0)"
    unfolding demoKernel_ents demoRam_def d Let_def ..
  moreover have "(2048 \<le> (of_nat (8 * i) :: u64) \<and> (of_nat (8 * i) :: u64) < 4096) \<longleftrightarrow> \<not> i < 256"
    unfolding word_le_nat_alt word_less_nat_alt u using i by auto
  moreover have "(0x40000000 + 512 * of_nat (8 * i) :: u64) = demoTable i" by (simp add: demoTable_def)
  ultimately show ?thesis by simp
qed

lemma demo_table: "k < 512 \<Longrightarrow> i < 512 \<Longrightarrow> ents demoKernel (demoTable k) i = 0"
proof -
  assume k: "k < 512" "i < 512"
  have d: "(0xFFFF800000000000 + demoTable k + 8 * of_nat i :: u64) - 0xFFFF800000100000 = of_nat (0x3FF00000 + 4096 * k + 8 * i)"
    by (simp add: demoTable_def)
  have "unat (of_nat (0x3FF00000 + 4096 * k + 8 * i) :: u64) = 0x3FF00000 + 4096 * k + 8 * i" using k by (intro unat_small) simp
  then show ?thesis unfolding demoKernel_ents demoRam_def d Let_def word_le_nat_alt word_less_nat_alt by simp
qed

lemma demo_entry:
  assumes "i < 512"
  shows "has (demoTable i OR 3) X86_PTE_P" "\<not> has (demoTable i OR 3) X86_PTE_PS" "\<not> has (demoTable i OR 3) X86_PTE_US"
    "(demoTable i OR 3) AND X86_PTE_ADDR_MASK = demoTable i" "4096 dvd unat (demoTable i)" "unat (demoTable i) < 2 ^ 46"
proof -
  have a: "4096 dvd unat (demoTable i)" "unat (demoTable i) < 2 ^ 46"
    using assms dvd_add [of 4096 "0x40000000" "4096 * i"] by (simp_all add: demoTable_unat)
  then show "4096 dvd unat (demoTable i)" "unat (demoTable i) < 2 ^ 46" .
  have b: "\<not> bit (demoTable i) n" if "n < 12" for n using page_aligned_bit [OF a(1)] that by blast
  show "has (demoTable i OR 3) X86_PTE_P" "\<not> has (demoTable i OR 3) X86_PTE_PS" "\<not> has (demoTable i OR 3) X86_PTE_US"
    by (simp_all add: has_bit bit_or_iff b)
  have "unat (demoTable i) < 2 ^ 52" using a(2) by simp
  then show "(demoTable i OR 3) AND X86_PTE_ADDR_MASK = demoTable i"
    using addr_mask_id [OF a(1)] by (simp add: bit.conj_disj_distrib2) (simp add: pte_consts)
qed

lemma demo_tbl:
  assumes "tpath p" "tbl (ents demoKernel) 0x100000 p = Some t"
  shows "p = [] \<and> t = 0x100000 \<or> (\<exists>i < 512. p = [i] \<and> t = demoTable i)"
proof (cases p)
  case (Cons i q)
  then have i: "i < 512" using assms(1) by (simp add: tpath_def)
  then have t: "\<not> i < 256" "tbl (ents demoKernel) (demoTable i) q = Some t"
    using assms(2) by (auto simp: Cons tbl.simps demo_root demo_entry split: if_splits)
  show ?thesis
  proof (cases q)
    case (Cons j r)
    then have "j < 512" using assms(1) \<open>p = i # q\<close> by (simp add: tpath_def)
    then show ?thesis using t(2) i by (simp add: Cons tbl.simps demo_table)
  qed (use t i Cons in \<open>simp add: tbl.simps\<close>)
qed (use assms in \<open>simp add: tbl.simps\<close>)

lemma demo_look: "fpath q \<Longrightarrow> look (ents demoKernel) 0x100000 q = None"
proof -
  assume f: "fpath q"
  then obtain a b c d where q: "q = [a, b, c, d]" "a < 512" "b < 512"
    by (auto simp: fpath_def numeral_eq_Suc length_Suc_conv)
  then show ?thesis by (simp add: look.simps demo_root demo_entry demo_table)
qed

lemma demoKernel_ok: "pagingOk demoKernel"
proof -
  have inj: "i = j" if "i < 512" "j < 512" "demoTable i = demoTable j" for i j
    using arg_cong [OF that(3), of unat] unfolding demoTable_unat [OF that(1)] demoTable_unat [OF that(2)] by linarith
  have nr: "demoTable i \<noteq> 0x100000" if "i < 512" for i
  proof
    assume "demoTable i = 0x100000"
    from arg_cong [OF this, of unat] show False unfolding demoTable_unat [OF that] by simp
  qed
  have ok: "tbok demoKernel t" if "t = 0x100000 \<or> (\<exists>i < 512. t = demoTable i)" for t
    using that demo_entry(5,6) by (auto simp: tbok_def demoTable_unat)
  have "treeOk (ents demoKernel) (kernelPml4Phys demoKernel) (tbok demoKernel)"
    unfolding treeOk_def demoKernel_fields
  proof (intro conjI allI impI)
    show "tbok demoKernel t" if "tpath p" "tbl (ents demoKernel) 0x100000 p = Some t" for p t
      using demo_tbl [OF that] ok by blast
    show "p = q" if "tpath p" "tpath q" "tbl (ents demoKernel) 0x100000 p = Some t" "tbl (ents demoKernel) 0x100000 q = Some t" for p q t
      using demo_tbl [OF that(1,3)] demo_tbl [OF that(2,4)] inj nr by metis
    show "\<not> has (ents demoKernel 0x100000 i) X86_PTE_PS" if "i < 512" "has (ents demoKernel 0x100000 i) X86_PTE_P" for i
      using that demo_entry(2) by (auto simp: demo_root)
  qed
  then show ?thesis by (simp add: pagingOk_def ptWf_def)
qed

lemma demoKernel_find: "findAnyLeafEntry demoKernel va = None"
  using demoKernel_ok by (simp add: find_look demo_look)

lemma forO_skip: "(\<And>i a. i \<in> set is \<Longrightarrow> f i a = Ret a) \<Longrightarrow> forO f is a = Ret a"
  by (induction "is" arbitrary: a) auto

lemma demoKernel_verified: "archPagingVerifyWx secs demoKernel = Ret (0, 0)"
proof -
  have r: "(0x100000 :: u64) AND X86_PTE_ADDR_MASK = 0x100000" by (simp add: pte_consts)
  have e: "getEntry demoKernel (tableAt demoKernel 0x100000) i = (if i < 256 then 0 else demoTable i OR 3)" if "i < 512" for i
    using that by (simp add: getEntry_tableAt r demo_root)
  have z: "getEntry demoKernel (tableAt demoKernel (demoTable k OR 3)) i = 0" if "k < 512" "i < 512" for k i
    using that by (simp add: getEntry_tableAt demo_entry demo_table)
  have p: "verifyPdpt demoKernel ts te va4 (tableAt demoKernel (demoTable k OR 3)) cnt = Ret cnt" if "k < 512" for ts te va4 cnt k
    unfolding verifyPdpt_def by (rule forO_skip) (simp add: z that del: upt_rec_numeral)
  have "\<not> list_ex (\<lambda>i. has (getEntry demoKernel (tableAt demoKernel 0x100000) i) X86_PTE_P) [0..<256]"
    by (auto simp: list_ex_iff e simp del: upt_rec_numeral)
  moreover have "forO (\<lambda>i4 cnt. let e4 = getEntry demoKernel (tableAt demoKernel 0x100000) i4
      in if \<not> has e4 X86_PTE_P then Panic ''vmm: W^X verify: kernel-half PML4 entry is not present''
         else if has e4 X86_PTE_US then Panic ''vmm: W^X verify: PML4 entry has U/S set''
         else verifyPdpt demoKernel (kernelTextStart secs) (kernelTextEnd secs) (0xFFFF000000000000 OR push_bit 39 (of_nat i4)) (tableAt demoKernel e4) cnt)
      [256..<512] (0, 0) = Ret (0, 0)"
    by (rule forO_skip) (simp add: e p demo_entry Let_def del: upt_rec_numeral)
  moreover have "cr0 (cpu demoPaging) AND X86_CR0_WP_BIT \<noteq> 0" "msr (cpu demoPaging) X86_MSR_EFER AND X86_EFER_NXE_BIT \<noteq> 0"
    by (simp_all add: demoPaging_def)
  ultimately show ?thesis unfolding archPagingVerifyWx_def Let_def demoKernel_fields by (simp del: upt_rec_numeral)
qed

section \<open>Property\<close>

lemma demoVmm_map:
  "\<exists>v. vmmMapKernel demoVmm 0xFFFFC00000001000 0xFEC00000 0x2000 9 = Ret (v, Inr ())
     \<and> findAnyLeafEntry (vpaging v) 0xFFFFC00000001000 = Some (0xFEC00000 OR leafFlagsFor 9)"
proof -
  have o: "pageOffsets 0x2000 = [0, 0x1000]" by (simp add: pageOffsets_def X86_PTE_SIZE_4K_def upt_rec)
  have a: "mapArgsOk demoKernel 0xFFFFC00000001000 0xFEC00000 0x2000 9"
    by (simp add: mapArgsOk_def o hhdmAliasCache_def hhdmLeafEntry_def demoKernel_find physAddrLimit_def)
  have d: "distinct (map (\<lambda>off. kpath (0xFFFFC00000001000 + off)) [0, 0x1000])"
    by (simp add: kpath_vpn) (simp add: vpn_def)
  have n: "\<not> mapFailed demoKernel 0xFFFFC00000001000 0xFEC00000 0x2000 9 st' e" for st' e
    using a d by (simp add: mapFailed_def o demo_look)
  obtain st' r where r: "archMapPages demoKernel 0xFFFFC00000001000 0xFEC00000 0x2000 9 = Ret (st', r)" "pagingOk st'"
    "case r of Inr _ \<Rightarrow> mapDone demoKernel 0xFFFFC00000001000 0xFEC00000 0x2000 9 st' | Inl e \<Rightarrow> mapFailed demoKernel 0xFFFFC00000001000 0xFEC00000 0x2000 9 st' e"
    using archMap_effect [OF demoKernel_ok, of "0xFFFFC00000001000" "0xFEC00000" "0x2000" 9] by blast
  have st': "archMapPages demoKernel 0xFFFFC00000001000 0xFEC00000 0x2000 9 = Ret (st', Inr ())" "pagingOk st'"
    "mapDone demoKernel 0xFFFFC00000001000 0xFEC00000 0x2000 9 st'"
    using r n by (cases r; simp)+
  have "vmmRangeInKva 0xFFFFC00000001000 0x2000" by (simp add: vmmRangeInKva_iff kva_consts)
  then have "vmmMapKernel demoVmm 0xFFFFC00000001000 0xFEC00000 0x2000 9 = Ret (demoVmm\<lparr>vpaging := st'\<rparr>, Inr ())"
    using st'(1) by (simp add: vmmMapKernel_def demoVmm_def KVA_PAGE_SIZE_def)
  moreover have "0 \<in> set (pageOffsets 0x2000)" by (simp add: o)
  ultimately show ?thesis using mapDone_leaf(1) [OF demoKernel_ok st'(2,3), of 0] st'(2) by (simp add: find_look)
qed

text \<open>
  C40: Once the permission check of boot has passed, no sequence of calls of the virtual memory manager
  undoes it. As long as the kernel virtual area started empty, after any run of mappings,
  unmappings, reservations, releases and device mappings the lower half of the address space is empty,
  no page of the kernel half is writable and executable, executable pages lie in the kernel text and
  the direct map has no writable view of their frames, and no writable page of the kernel virtual area
  shows any part of the kernel's read-only frames.
\<close>

theorem vmm_run_keeps_wx:
  assumes "pagingOk (vpaging v)" "archPagingVerifyWx secs (vpaging v) = Ret c"
    and "\<forall>va \<ge> VM_KVA_BASE. va < VM_KVA_END \<longrightarrow> findAnyLeafEntry (vpaging v) va = None"
    and "vmmStep\<^sup>*\<^sup>* v v'"
  shows "pagingOk (vpaging v')
    \<and> (\<forall>va. unat va < 2 ^ 47 \<longrightarrow> findAnyLeafEntry (vpaging v') va = None)
    \<and> (\<forall>va e. va \<ge> 0xFFFF800000000000 \<longrightarrow> findAnyLeafEntry (vpaging v') va = Some e \<longrightarrow> leafSafe secs (vpaging v') va e)
    \<and> (\<forall>va e. va \<ge> VM_KVA_BASE \<longrightarrow> va < VM_KVA_END \<longrightarrow> findAnyLeafEntry (vpaging v') va = Some e \<longrightarrow> has e X86_PTE_W \<longrightarrow>
         unat (kernelRoPhysEnd (vpaging v)) \<le> unat (e AND X86_PTE_ADDR_MASK)
         \<or> unat (e AND X86_PTE_ADDR_MASK) + 4096 \<le> unat (kernelRoPhysStart (vpaging v)))"
proof -
  have k: "kvaOnly (vpaging v) (vpaging v')" by (rule vmmRun_kvaOnly [OF assms(4,1)])
  have s: "wxSafe secs (vpaging v)" using verify_sound assms(1,2) by (auto simp: pagingOk_def)
  have "unat (kernelRoPhysEnd (vpaging v)) \<le> unat (e AND X86_PTE_ADDR_MASK)
         \<or> unat (e AND X86_PTE_ADDR_MASK) + 4096 \<le> unat (kernelRoPhysStart (vpaging v))"
    if "va \<ge> VM_KVA_BASE" "va < VM_KVA_END" "findAnyLeafEntry (vpaging v') va = Some e" "has e X86_PTE_W" for va e
  proof -
    have "newLeafOk (vpaging v) e" using k that assms(3) unfolding kvaOnly_def by (metis option.distinct(1))
    then show ?thesis using that(4) by (auto simp: newLeafOk_def)
  qed
  then show ?thesis using wxSafe_kvaOnly [OF assms(1) s k] k unfolding kvaOnly_def by blast
qed

theorem vmm_run_keeps_wx_witness:
  "\<exists>v e. vmmStep\<^sup>*\<^sup>* demoVmm v \<and> findAnyLeafEntry (vpaging v) 0xFFFFC00000001000 = Some e \<and> has e X86_PTE_W \<and> has e X86_PTE_NX"
proof -
  obtain v where v: "vmmMapKernel demoVmm 0xFFFFC00000001000 0xFEC00000 0x2000 9 = Ret (v, Inr ())"
    "findAnyLeafEntry (vpaging v) 0xFFFFC00000001000 = Some (0xFEC00000 OR leafFlagsFor 9)"
    using demoVmm_map by blast
  have s: "vmmStep\<^sup>*\<^sup>* demoVmm v" using vmmStep.map [OF v(1)] by blast
  have d: "vpaging demoVmm = demoKernel" by (simp add: demoVmm_def)
  have w: "has (0xFEC00000 OR leafFlagsFor 9) X86_PTE_W" by (simp add: leafFlags_values has_bit)
  have "leafSafe demoSecs (vpaging v) 0xFFFFC00000001000 (0xFEC00000 OR leafFlagsFor 9)"
    using vmm_run_keeps_wx [OF _ _ _ s, of demoSecs "(0, 0)"] v(2) by (simp add: d demoKernel_ok demoKernel_verified demoKernel_find)
  then show ?thesis using s v(2) w by (auto simp: leafSafe_def)
qed

end
