(* ===== verification/Spec2Isabelle.thy ===== *)
theory Spec2Isabelle
  imports Pmm_Props Lockdep Timer_Heap Time_Core Io_Apic Cmdline Bootinfo Random_Core Vmm
begin

text \<open>
  A verification of parts of the bongOS kernel and of its loader. The models are shallow embeddings of
  the C code under \<open>src/\<close>: a structure is a record, an enumeration a datatype, an integer of the
  source a word of its width (or a natural number where an invariant keeps it below the width, which the
  theory then says), a function that returns a \<open>Status\<close> and writes through pointers a function into
  \<open>Status + result\<close>, a panic the value \<open>Panic\<close> of the type \<open>outcome\<close>, and a loop a structural recursion, a
  fold over its index list, or a recursive function with a termination measure. Static variables are
  the fields of a state record that each operation takes and returns.

  \<^bold>\<open>The parts and how they interact.\<close> The loader normalises the memory map of the firmware
  (\<open>boot/common/memmap.c\<close>) and hands it to the kernel, which validates it (\<open>kernel/core/bootinfo.c\<close>). The
  physical memory manager scans the map, runs a bump allocator until its page array exists, and then
  serves page blocks from buddy allocators behind a page cache (\<open>kernel/mm/pmm-map.c\<close>, \<open>early.c\<close>,
  \<open>buddy.c\<close>, \<open>pmm.c\<close>). The page tables take their pages from it (\<open>kernel/arch/x86_64/paging.c\<close>), and the
  virtual memory manager (\<open>kernel/mm/vmm.c\<close>) puts the page tables and the allocator of kernel virtual
  addresses (\<open>kernel/mm/kva.c\<close>) behind one interface. Beside these stand the lock validator, the time
  core with its timer heap, the interrupt-controller core with the I/O controllers, the command line,
  and the random generator over SHA-256 and ChaCha20.

  \<^bold>\<open>Shared theories.\<close> \<open>Prelude\<close> has the word types, \<open>Status\<close>, \<open>outcome\<close>, fixed arrays and the word
  lemmas. \<open>Extents\<close> is the theory of sorted interval lists. \<open>Allocator\<close> is the contract of an allocator
  seen by a client that keeps a ledger of what it holds, the locale \<open>ledger_allocator\<close>; it is interpreted
  for kernel virtual addresses (\<open>Kva\<close>), page blocks (\<open>Pmm_Spec\<close>) and interrupt vectors (\<open>Irq_Core\<close>), and
  gives each of them disjointness of what is held and success of its release. \<open>Timer_Heap\<close> has the locale
  \<open>priority_queue\<close>, interpreted on the array heap. \<open>Boot_Base\<close> has the byte buffers and the rounding
  the loader parts share.

  \<^bold>\<open>Kernel virtual addresses\<close> (\<open>Kva\<close>: \<open>kva.c\<close>). The record \<open>KvaState\<close> has the full array of 512 extents, the
  count and the 32-bit live counter; \<open>kvaAbs\<close> is the list of intervals it stands for. The theorems give
  the exact effect of \<open>kvaAlloc\<close> (first fit, guard pages) and of \<open>kvaFree\<close> for every argument, including
  the size for which its overflow test fails, the round trip, the exact condition of running out, and
  that the admission cap makes the full-table branch unreachable.

  \<^bold>\<open>Physical memory\<close> (\<open>List_Links\<close>: \<open>list.h\<close>; \<open>Page\<close>, \<open>Buddy\<close>: \<open>page.h\<close>, \<open>buddy.c\<close>; \<open>Pmm_Map\<close>: \<open>pmm-map.c\<close>;
  \<open>Early\<close>: \<open>early.c\<close>; \<open>Pmm\<close>, \<open>Pmm_Spec\<close>, \<open>Pmm_Props\<close>: \<open>pmm.c\<close>). The free lists are circular lists in a store of
  next and previous links, and the list operations are shown to implement operations on plain lists.
  The invariant ties page states, lists and counters together; over it the theorems show completeness
  of the buddy allocator with exact counters, the allocate-release round trip, both directions of the
  success condition of allocation and release, the classification of misuse, safety of every
  interleaving of clients, termination of draining the cache, and exact statistics. Frame numbers and
  page counters are naturals; the scan keeps frame numbers below \<open>2^34\<close>.

  \<^bold>\<open>Page tables and virtual memory\<close> (\<open>Page_Table\<close>, \<open>Paging\<close>, \<open>Paging_Map\<close>, \<open>Paging_Ops\<close>, \<open>Paging_Build\<close>,
  \<open>Paging_Wx\<close>: \<open>paging.c\<close>, \<open>pte.h\<close>, the lookup of \<open>early-map.c\<close>; \<open>Vmm\<close>: \<open>vmm.c\<close>). The tables lie in the
  physical memory of the memory manager and are read and written through the direct map, as in the
  code. \<open>Page_Table\<close> is the theory of walks and of trees of tables, \<open>Paging_Map\<close> the effect of each
  write, \<open>Paging_Ops\<close> the exactness of mapping and unmapping over every virtual address, with rollback.
  \<open>Paging_Build\<close> defines how the kernel tables are built and checked at boot, \<open>Paging_Wx\<close> what the check
  establishes, and \<open>Vmm\<close> shows that no run of the interface undoes it.

  \<^bold>\<open>Boot\<close> (\<open>Memmap\<close>: \<open>memmap.c\<close>; \<open>Bootinfo\<close>: \<open>bootinfo.c\<close>). Normalisation is characterised address by
  address; a validated handoff has every range in memory of its own type.

  \<^bold>\<open>Locks and time\<close> (\<open>Lockdep\<close>: \<open>lockdep-core.c\<close> and the acquire sequence of \<open>lockdep.c\<close>; \<open>Time_Core\<close>,
  \<open>Timer_Heap\<close>: \<open>time-core.c\<close>). The recorded lock order stays acyclic under every interleaving and the check
  is exact; the calendar decodes every date; scaling loses a bounded amount; timers expire in order.

  \<^bold>\<open>Interrupts\<close> (\<open>Irq_Core\<close>: \<open>irq-core.c\<close>; \<open>Io_Apic\<close>: \<open>ioapic.c\<close>). Vectors, routes of legacy interrupts,
  redirection entries and controller discovery. Each mapped window is an ideal register file; mapping
  a window is a parameter whose hypothesis is that windows are fresh.

  \<^bold>\<open>Command line, hashing and random numbers\<close> (\<open>Cmdline\<close>: \<open>cmdline.c\<close>; \<open>Sha256\<close>, \<open>Chacha20\<close>: \<open>libs/crypto\<close>;
  \<open>Random_Core\<close>: \<open>random-core.c\<close>). Matching and token search equal their recursive meaning; streaming
  equals hashing the padded message; the cipher is its own inverse; the generator erases its keys.

  \<^bold>\<open>Bounds.\<close> No model runs on fuel: every loop is structural or has a measure, and the two loops that
  may in principle run on (the drain of the page cache and the walk that collects the path of a reported
  lock inversion) are partial functions whose termination is a theorem.

  \<^bold>\<open>Not modelled.\<close> Locks and interrupt masking: an operation that runs under a lock is one step, so
  interleavings are sequences of operations. Log output and the text of panic arguments. NULL arguments
  where a theory says so. Of \<open>pmmInit\<close> the mapping of the page array, and \<open>archEarlyMapPage\<close> which it
  calls. That the tables built by \<open>archPagingBuildKernel\<close> form a proper tree is a hypothesis of the
  theorem on runs, since part of them is adopted from the loader; the permission check is not assumed.
  The slab allocator, \<open>vmalloc\<close>, trap and interrupt dispatch, the clock, console and ACPI drivers, the
  firmware-facing loader parts, the graphics and compression libraries, the host tools and the tests
  have no model here: they are device input and output, assembly, or clients that no modelled part
  depends on.
\<close>

end
